(* ===== verification/Prelude.thy ===== *)
theory Prelude
  imports Complex_Main "HOL-Library.Word" "HOL-Library.Char_ord" "HOL-Library.List_Lexorder"
    "HOL-Library.Monad_Syntax"
begin

text \<open>
  What the components share: the collections of rewrite rules, the C++ facts about bytes, strings
  and \<open>size_t\<close> that several components use, and generic list lemmas.

  A byte (\<open>char\<close> in the C++ code) is HOL's \<open>char\<close>, which has exactly 256 values, and a
  \<open>std::string\<close> is a \<open>string\<close>, a list of bytes.  \<open>std::string\<close> compares byte-wise as unsigned
  characters and lexicographically, which is the order \<open>Char_ord\<close> and \<open>List_Lexorder\<close> give.
  A \<open>size_t\<close> is a \<open>nat\<close> whose subtraction wraps at \<open>2 ^ 64\<close> where the code subtracts.
\<close>

named_theorems heap_simps \<open>how reads of the node heap behave after a write\<close>
named_theorems buffer_simps \<open>index arithmetic of the byte buffer\<close>
named_theorems proto_simps \<open>definitions of the text protocol, unfolded to evaluate it\<close>

subsection \<open>Bytes and character classes of the C locale\<close>

abbreviation CR :: char where "CR \<equiv> CHR 0x0D"
abbreviation LF :: char where "LF \<equiv> CHR 0x0A"
abbreviation SP :: char where "SP \<equiv> CHR 0x20"

text \<open>\<open>std::isspace\<close>: space, tab, newline, vertical tab, form feed, carriage return.\<close>

definition isspace :: "char \<Rightarrow> bool" where
  "isspace c \<longleftrightarrow> c = SP \<or> c = CHR 0x09 \<or> c = LF \<or> c = CHR 0x0B \<or> c = CHR 0x0C \<or> c = CR"

text \<open>\<open>::toupper\<close>: only the letters a to z change.\<close>

definition toupper :: "char \<Rightarrow> char" where
  "toupper c = (if 97 \<le> (of_char c :: nat) \<and> (of_char c :: nat) \<le> 122
                then char_of ((of_char c :: nat) - 32) else c)"

lemma isspace_simps [simp]:
  "isspace SP" "isspace LF" "isspace CR" "isspace (CHR 0x09)"
  by (simp_all add: isspace_def)

subsection \<open>Unsigned 64-bit subtraction\<close>

text \<open>The difference as \<open>size_t\<close> gives it for operands below \<open>2 ^ 64\<close>.\<close>

definition size_sub :: "nat \<Rightarrow> nat \<Rightarrow> nat" where
  "size_sub a b = (if b \<le> a then a - b else 2 ^ 64 + a - b)"

lemma size_sub_wraps:
  assumes "a < 2 ^ 64" "b < 2 ^ 64"
  shows "size_sub a b = unat (word_of_nat a - word_of_nat b :: 64 word)"
  using assms by (auto simp: size_sub_def unat_sub_if' unat_of_nat word_size)

lemma size_sub_le [buffer_simps]: "b \<le> a \<Longrightarrow> size_sub a b = a - b"
  by (simp add: size_sub_def)

lemma size_sub_same [simp]: "size_sub a a = 0"
  by (simp add: size_sub_def)

lemma size_sub_add: "n \<le> size_sub w r \<Longrightarrow> size_sub w (r + n) = size_sub w r - n"
  by (auto simp: size_sub_def split: if_splits)

subsection \<open>Searching a string\<close>

text \<open>
  \<open>str_find p s\<close> is the offset of the first occurrence of \<open>p\<close> in \<open>s\<close>, as \<open>std::search\<close>
  and \<open>std::string::find\<close> compute it (None is \<open>npos\<close> or the end iterator).
\<close>

fun str_find :: "string \<Rightarrow> string \<Rightarrow> nat option" where
  "str_find p [] = (if p = [] then Some 0 else None)"
| "str_find p (c # cs) =
     (if take (length p) (c # cs) = p then Some 0 else map_option Suc (str_find p cs))"

lemma str_find_Some:
  "str_find p s = Some i \<Longrightarrow> i + length p \<le> length s \<and> take (length p) (drop i s) = p"
proof (induction p s arbitrary: i rule: str_find.induct)
  case (1 p)
  then show ?case by (auto split: if_splits)
next
  case (2 p c cs)
  show ?case
  proof (cases "take (length p) (c # cs) = p")
    case True
    with "2.prems" have "i = 0" by simp
    moreover from True have "length p \<le> length (c # cs)"
      by (metis length_take min.cobounded1)
    ultimately show ?thesis using True by simp
  next
    case False
    with "2.prems" obtain j where "i = Suc j" "str_find p cs = Some j" by auto
    with "2.IH"[OF False] show ?thesis by simp
  qed
qed

lemma str_find_first:
  "str_find p s = Some i \<Longrightarrow> j < i \<Longrightarrow> take (length p) (drop j s) \<noteq> p"
proof (induction p s arbitrary: i j rule: str_find.induct)
  case (1 p)
  then show ?case by (auto split: if_splits)
next
  case (2 p c cs)
  then show ?case by (cases j) (auto split: if_splits)
qed

lemma str_find_None:
  "str_find p s = None \<longleftrightarrow> (\<forall>j \<le> length s. take (length p) (drop j s) \<noteq> p)"
proof (induction p s rule: str_find.induct)
  case (1 p)
  then show ?case by auto
next
  case (2 p c cs)
  show ?case
  proof (cases "take (length p) (c # cs) = p")
    case True
    then show ?thesis by (auto intro: exI [of _ 0])
  next
    case False
    have "(\<forall>j \<le> length (c # cs). take (length p) (drop j (c # cs)) \<noteq> p) \<longleftrightarrow>
          (\<forall>j \<le> length cs. take (length p) (drop j cs) \<noteq> p)"
    proof (intro iffI allI impI)
      fix j assume "\<forall>j \<le> length (c # cs). take (length p) (drop j (c # cs)) \<noteq> p" "j \<le> length cs"
      then show "take (length p) (drop j cs) \<noteq> p" by (auto dest: spec [of _ "Suc j"])
    next
      fix j assume "\<forall>j \<le> length cs. take (length p) (drop j cs) \<noteq> p" "j \<le> length (c # cs)"
      with False show "take (length p) (drop j (c # cs)) \<noteq> p" by (cases j) auto
    qed
    with False "2.IH"[OF False] show ?thesis by simp
  qed
qed

text \<open>An occurrence that no earlier offset matches is the first one.\<close>

lemma str_find_eqI:
  assumes "take (length p) (drop i s) = p" "i \<le> length s"
    and "\<And>j. j < i \<Longrightarrow> take (length p) (drop j s) \<noteq> p"
  shows "str_find p s = Some i"
proof (cases "str_find p s")
  case None
  with assms(1,2) show ?thesis by (auto simp: str_find_None)
next
  case (Some j)
  have "\<not> j < i" using str_find_Some [OF Some] assms(3) by blast
  moreover have "\<not> i < j" using str_find_first [OF Some] assms(1) by blast
  ultimately show ?thesis using Some by simp
qed

subsection \<open>Decimal numbers\<close>

definition digit :: "nat \<Rightarrow> char" where
  "digit d = char_of (48 + d)"

definition isdigit :: "char \<Rightarrow> bool" where
  "isdigit c \<longleftrightarrow> 48 \<le> (of_char c :: nat) \<and> (of_char c :: nat) \<le> 57"

definition digitVal :: "char \<Rightarrow> nat" where
  "digitVal c = of_char c - 48"

fun digits10 :: "nat \<Rightarrow> string" where
  "digits10 n = (if n < 10 then [digit n] else digits10 (n div 10) @ [digit (n mod 10)])"

declare digits10.simps [simp del]

text \<open>\<open>std::to_string(int)\<close>, which is also what \<open>operator<<\<close> prints.\<close>

definition to_string :: "int \<Rightarrow> string" where
  "to_string i = (if i < 0 then CHR ''-'' # digits10 (nat (- i)) else digits10 (nat i))"

text \<open>The value of a string of digits.\<close>

definition int_of_digits :: "string \<Rightarrow> int" where
  "int_of_digits ds = int (foldl (\<lambda>acc c. acc * 10 + digitVal c) 0 ds)"

text \<open>
  \<open>atoi\<close>: white space, a sign, digits, no error; a number that does not fit saturates as \<open>strtol\<close> does
  and keeps its low 32 bits.
\<close>

definition atoi :: "string \<Rightarrow> int" where
  "atoi s =
     (let t = dropWhile isspace s;
          neg = (t \<noteq> [] \<and> hd t = CHR ''-'');
          u = (if t \<noteq> [] \<and> (hd t = CHR ''-'' \<or> hd t = CHR ''+'') then tl t else t);
          n = (if neg then - int_of_digits (takeWhile isdigit u) else int_of_digits (takeWhile isdigit u))
      in sint (word_of_int (max (- (2 ^ 63)) (min (2 ^ 63 - 1) n)) :: 32 word))"

lemma digit_isdigit [simp]: "d < 10 \<Longrightarrow> isdigit (digit d)"
  by (simp add: isdigit_def digit_def)

lemma digitVal_digit [simp]: "d < 10 \<Longrightarrow> digitVal (digit d) = d"
  by (simp add: digitVal_def digit_def)

lemma digits10_isdigit: "c \<in> set (digits10 n) \<Longrightarrow> isdigit c"
proof (induction n rule: digits10.induct)
  case (1 n)
  then show ?case by (subst (asm) (2) digits10.simps) (auto split: if_splits)
qed

lemma digits10_ne [simp]: "digits10 n \<noteq> []"
  by (subst digits10.simps) simp

lemma isdigit_not_space: "isdigit c \<Longrightarrow> \<not> isspace c"
  by (auto simp: isdigit_def isspace_def)

lemma digits10_value: "foldl (\<lambda>acc c. acc * 10 + digitVal c) 0 (digits10 n) = n"
proof (induction n rule: digits10.induct)
  case (1 n)
  then show ?case by (cases "n < 10") (simp_all add: digits10.simps [of n])
qed

lemma digits10_length: "n < 10 ^ Suc k \<Longrightarrow> length (digits10 n) \<le> Suc k"
proof (induction k arbitrary: n)
  case (Suc k)
  then have "length (digits10 (n div 10)) \<le> Suc k" by (intro Suc.IH) (simp add: div_less_iff_less_mult)
  then show ?case by (subst digits10.simps) simp
qed (simp add: digits10.simps)

lemma digits10_inj: "digits10 m = digits10 n \<Longrightarrow> m = n"
  by (metis digits10_value)

lemma digit_eval: "digit 0 = CHR ''0''" "digit 1 = CHR ''1''" "digit (Suc 0) = CHR ''1''" "digit 2 = CHR ''2''" "digit 3 = CHR ''3''"
  "digit 4 = CHR ''4''" "digit 5 = CHR ''5''" "digit 6 = CHR ''6''" "digit 7 = CHR ''7''" "digit 8 = CHR ''8''" "digit 9 = CHR ''9''"
  by code_simp+

lemmas to_string_eval = to_string_def digits10.simps digit_eval

lemma takeWhile_digits10 [simp]: "takeWhile isdigit (digits10 n) = digits10 n"
  by (simp add: takeWhile_eq_all_conv digits10_isdigit)

lemma int_of_digits10 [simp]: "int_of_digits (digits10 n) = int n"
  by (simp add: int_of_digits_def digits10_value)

lemma digits10_hd: "isdigit (hd (digits10 n))"
  by (rule digits10_isdigit [of _ n]) simp

text \<open>\<open>atoi\<close> reads what \<open>std::to_string\<close> writes.\<close>

lemma atoi_to_string:
  assumes "- (2 ^ 31) \<le> i" "i < 2 ^ 31"
  shows "atoi (to_string i) = i"
proof -
  have s: "sint (word_of_int i :: 32 word) = i"
    using assms by (simp add: sint_sbintrunc' signed_take_bit_int_eq_self)
  have nd: "\<not> isspace (hd (digits10 n))" "hd (digits10 n) \<noteq> CHR ''-''" "hd (digits10 n) \<noteq> CHR ''+''" for n
    using digits10_hd [of n] by (auto simp: isdigit_not_space) (auto simp: isdigit_def)
  have d: "dropWhile isspace (digits10 n) = digits10 n" for n
    using nd(1) [of n] by (cases "digits10 n") simp_all
  show ?thesis
    using assms s nd by (auto simp: atoi_def to_string_def d isspace_def min_def max_def Let_def)
qed
subsection \<open>Lists\<close>

lemma find_append: "List.find P (xs @ ys) =
    (case List.find P xs of None \<Rightarrow> List.find P ys | Some x \<Rightarrow> Some x)"
  by (induction xs) auto

lemma find_None_filter: "List.find P xs = None \<longleftrightarrow> filter P xs = []"
  by (auto simp: find_None_iff filter_empty_conv)

lemma find_SomeE:
  assumes "List.find P xs = Some x"
  obtains us vs where "xs = us @ x # vs" "P x" "filter P us = []"
  using assms
proof (induction xs arbitrary: thesis)
  case Nil
  then show ?case by simp
next
  case (Cons y ys)
  show ?case
  proof (cases "P y")
    case True
    with Cons.prems(2) have "x = y" by simp
    with True show ?thesis by (intro Cons.prems(1) [of "[]" ys]) auto
  next
    case False
    with Cons.prems(2) have "List.find P ys = Some x" by simp
    with Cons.IH obtain us vs where "ys = us @ x # vs" "P x" "filter P us = []" by blast
    with False show ?thesis by (intro Cons.prems(1) [of "y # us" vs]) auto
  qed
qed

lemma last_filter_split:
  "P c \<Longrightarrow> last (filter P (us @ c # vs)) = last (filter P (c # vs))"
  by simp

lemma filter_last_split:
  assumes "P c"
  obtains us vs where "c # xs = us @ last (filter P (c # xs)) # vs" "filter P vs = []"
    "P (last (filter P (c # xs)))"
proof -
  have "\<exists>x \<in> set (c # xs). P x" using assms by simp
  then obtain us x vs where x: "c # xs = us @ x # vs" "P x" "\<forall>z \<in> set vs. \<not> P z"
    by (rule split_list_last_propE)
  then have "filter P vs = []" by simp
  with x(2) have "last (filter P (us @ x # vs)) = x" by simp
  with x \<open>filter P vs = []\<close> show thesis by (intro that [of us vs]) simp_all
qed

subsection \<open>Calls that may throw\<close>

text \<open>What a call of a function object does at its end; an exception is a \<open>std::exception\<close> with its text, or another.\<close>

datatype outcome = Returns | ThrowsException string | ThrowsOther

end
