(* ===== verification/Skip_List.thy ===== *)
theory Skip_List
  imports Prelude
begin

text \<open>
  The skip list of \<open>src/storage/skiplist.h\<close> on an explicit node heap: \<open>shared_ptr<Node>\<close> is an
  optional address, \<open>nullptr\<close> is None, and every node holds its own vector of forward pointers.
  The operations mutate the heap in the order the code does and return None exactly where the code
  would dereference a null or foreign pointer, index a vector out of range, or not return.
  The development proves that from a well-formed list none of this happens, and that the operations
  implement insertion, lookup and deletion of a sorted association list.

  Nodes that are unlinked stay in the heap (their release by \<open>shared_ptr\<close> has no effect on the
  list) and addresses are never reused.  The values \<open>dis(gen)\<close> will return are the stream
  \<open>rng\<close> of the state, so every theorem holds for every outcome of the random generator.
\<close>

subsection \<open>The node heap\<close>

type_synonym addr = nat

record ('k, 'v) node =
  nkey :: 'k
  nval :: 'v
  nodeLevel :: nat
  forward :: "addr option list"

type_synonym ('k, 'v) heap = "addr \<Rightarrow> ('k, 'v) node option"

definition mkNode :: "'k \<Rightarrow> 'v \<Rightarrow> nat \<Rightarrow> ('k, 'v) node" where
  "mkNode k v level = \<lparr>nkey = k, nval = v, nodeLevel = level, forward = replicate (level + 1) None\<rparr>"

text \<open>Reading and writing \<open>p->forward[i]\<close>; None where the access is undefined.\<close>

definition getForward :: "('k, 'v) heap \<Rightarrow> addr \<Rightarrow> nat \<Rightarrow> addr option option" where
  "getForward h p i = (case h p of None \<Rightarrow> None
     | Some n \<Rightarrow> if i < length (forward n) then Some (forward n ! i) else None)"

definition setForward :: "('k, 'v) heap \<Rightarrow> addr \<Rightarrow> nat \<Rightarrow> addr option \<Rightarrow> ('k, 'v) heap option" where
  "setForward h p i f = (case h p of None \<Rightarrow> None
     | Some n \<Rightarrow> if i < length (forward n) then Some (h(p \<mapsto> n\<lparr>forward := (forward n)[i := f]\<rparr>))
                 else None)"

text \<open>Reading the update vector: \<open>update[i]\<close> is a pointer that the code dereferences.\<close>

definition getUpdate :: "addr option list \<Rightarrow> nat \<Rightarrow> addr option" where
  "getUpdate u i = (if i < length u then u ! i else None)"

subsection \<open>The list object\<close>

record ('k, 'v) skiplist =
  maxLevel :: nat
  currentLevel :: nat
  elementCount :: int
  header :: addr
  heap :: "('k, 'v) heap"
  nextAddr :: addr
  rng :: "nat \<Rightarrow> rat"

definition kDefaultMaxLevel :: nat where "kDefaultMaxLevel = 16"
definition kProbability :: rat where "kProbability = 1 / 4"
definition kDelimiter :: char where "kDelimiter = CHR '':''"

text \<open>The constructor; \<open>dk\<close> and \<open>dv\<close> are the default key and value of the header node.\<close>

definition sl_new :: "'k \<Rightarrow> 'v \<Rightarrow> nat \<Rightarrow> (nat \<Rightarrow> rat) \<Rightarrow> ('k, 'v) skiplist" where
  "sl_new dk dv m r =
     \<lparr>maxLevel = m, currentLevel = 0, elementCount = 0, header = 0,
      heap = Map.empty(0 \<mapsto> mkNode dk dv m), nextAddr = 1, rng = r\<rparr>"

text \<open>
  \<open>getRandomLevel\<close>: the n-th test of the loop draws the n-th value of the stream; the call consumes
  one draw more than the level it returns.
\<close>

function randomLevelLoop :: "nat \<Rightarrow> (nat \<Rightarrow> rat) \<Rightarrow> nat \<Rightarrow> nat" where
  "randomLevelLoop m r level =
     (if r level < kProbability \<and> int level < int m - 1 then randomLevelLoop m r (level + 1)
      else level)"
  by pat_completeness auto
termination
  by (relation "measure (\<lambda>(m, r, level). m - level)") auto

declare randomLevelLoop.simps [simp del]

definition getRandomLevel :: "nat \<Rightarrow> (nat \<Rightarrow> rat) \<Rightarrow> nat \<times> (nat \<Rightarrow> rat)" where
  "getRandomLevel m r = (let l = randomLevelLoop m r 0 in (l, \<lambda>n. r (n + l + 1)))"

definition createNode ::
    "'k \<Rightarrow> 'v \<Rightarrow> nat \<Rightarrow> ('k, 'v) skiplist \<Rightarrow> addr \<times> ('k, 'v) skiplist" where
  "createNode k v level s =
     (nextAddr s, s\<lparr>heap := (heap s)(nextAddr s \<mapsto> mkNode k v level), nextAddr := nextAddr s + 1\<rparr>)"

subsection \<open>Searching\<close>

text \<open>The inner loop: move right on level \<open>i\<close> while the next key is smaller.\<close>

partial_function (option) walk ::
    "('k::linorder, 'v) heap \<Rightarrow> 'k \<Rightarrow> nat \<Rightarrow> addr \<Rightarrow> addr option" where
  "walk h k i cur =
     (case getForward h cur i of
        None \<Rightarrow> None
      | Some None \<Rightarrow> Some cur
      | Some (Some nxt) \<Rightarrow>
          (case h nxt of
             None \<Rightarrow> None
           | Some n \<Rightarrow> if nkey n < k then walk h k i nxt else Some cur))"

declare walk.simps [code]

text \<open>The outer loop of \<open>search\<close>, from level \<open>i\<close> down to 0.\<close>

fun searchLevels :: "('k::linorder, 'v) heap \<Rightarrow> 'k \<Rightarrow> nat \<Rightarrow> addr \<Rightarrow> addr option" where
  "searchLevels h k 0 cur = walk h k 0 cur"
| "searchLevels h k (Suc i) cur =
     (case walk h k (Suc i) cur of None \<Rightarrow> None | Some c \<Rightarrow> searchLevels h k i c)"

definition setUpdate :: "addr option list \<Rightarrow> nat \<Rightarrow> addr \<Rightarrow> addr option list option" where
  "setUpdate u i p = (if i < length u then Some (u[i := Some p]) else None)"

text \<open>The outer loop of \<open>insert\<close> and \<open>remove\<close>, which also records the predecessors.\<close>

fun findUpdate :: "('k::linorder, 'v) heap \<Rightarrow> 'k \<Rightarrow> nat \<Rightarrow> addr \<Rightarrow> addr option list \<Rightarrow>
    (addr \<times> addr option list) option" where
  "findUpdate h k 0 cur u =
     (case walk h k 0 cur of None \<Rightarrow> None
      | Some c \<Rightarrow> map_option (Pair c) (setUpdate u 0 c))"
| "findUpdate h k (Suc i) cur u =
     (case walk h k (Suc i) cur of None \<Rightarrow> None
      | Some c \<Rightarrow> (case setUpdate u (Suc i) c of None \<Rightarrow> None
          | Some u' \<Rightarrow> findUpdate h k i c u'))"

text \<open>The test \<open>current != nullptr && current->key == key\<close>, returning the node it found.\<close>

definition matchNode :: "('k, 'v) heap \<Rightarrow> addr option \<Rightarrow> 'k \<Rightarrow> (addr \<times> ('k, 'v) node) option option"
  where
  "matchNode h p k = (case p of None \<Rightarrow> Some None
     | Some a \<Rightarrow> (case h a of None \<Rightarrow> None
         | Some n \<Rightarrow> Some (if nkey n = k then Some (a, n) else None)))"

definition sl_search :: "'k::linorder \<Rightarrow> ('k, 'v) skiplist \<Rightarrow> 'v option option" where
  "sl_search k s = do {
     cur \<leftarrow> searchLevels (heap s) k (currentLevel s) (header s);
     nxt \<leftarrow> getForward (heap s) cur 0;
     hit \<leftarrow> matchNode (heap s) nxt k;
     Some (map_option (nval \<circ> snd) hit) }"

definition sl_contains :: "'k::linorder \<Rightarrow> ('k, 'v) skiplist \<Rightarrow> bool option" where
  "sl_contains k s = map_option (\<lambda>r. r \<noteq> None) (sl_search k s)"

definition sl_size :: "('k, 'v) skiplist \<Rightarrow> int" where
  "sl_size s = elementCount s"

subsection \<open>Insertion\<close>

text \<open>One round of the linking loop, then the loop over the levels of the new node.\<close>

definition linkLevel :: "addr option list \<Rightarrow> addr \<Rightarrow> nat \<Rightarrow> ('k, 'v) heap \<Rightarrow> ('k, 'v) heap option"
  where
  "linkLevel u x i h = do {
     p \<leftarrow> getUpdate u i;
     f \<leftarrow> getForward h p i;
     h1 \<leftarrow> setForward h x i f;
     setForward h1 p i (Some x) }"

fun linkLevels :: "addr option list \<Rightarrow> addr \<Rightarrow> nat list \<Rightarrow> ('k, 'v) heap \<Rightarrow> ('k, 'v) heap option"
  where
  "linkLevels u x [] h = Some h"
| "linkLevels u x (i # is) h =
     (case linkLevel u x i h of None \<Rightarrow> None | Some h' \<Rightarrow> linkLevels u x is h')"

text \<open>\<open>update[i] = header_\<close> for the levels that the new node opens.\<close>

fun raiseUpdate :: "addr \<Rightarrow> nat list \<Rightarrow> addr option list \<Rightarrow> addr option list option" where
  "raiseUpdate hdr [] u = Some u"
| "raiseUpdate hdr (i # is) u =
     (case setUpdate u i hdr of None \<Rightarrow> None | Some u' \<Rightarrow> raiseUpdate hdr is u')"

definition insertNew :: "'k \<Rightarrow> 'v \<Rightarrow> addr option list \<Rightarrow> ('k, 'v) skiplist \<Rightarrow>
    ('k, 'v) skiplist option" where
  "insertNew k v u s =
     (let (rl, r') = getRandomLevel (maxLevel s) (rng s);
          s1 = s\<lparr>rng := r'\<rparr> in
      do {
        u' \<leftarrow> (if currentLevel s < rl
               then raiseUpdate (header s) [currentLevel s + 1..<rl + 1] u else Some u);
        let s2 = (if currentLevel s < rl then s1\<lparr>currentLevel := rl\<rparr> else s1);
        let (x, s3) = createNode k v rl s2;
        h \<leftarrow> linkLevels u' x [0..<rl + 1] (heap s3);
        Some (s3\<lparr>heap := h, elementCount := elementCount s3 + 1\<rparr>) })"

text \<open>\<open>insert\<close>; the boolean is true for a new key and false for an update.\<close>

definition sl_insert :: "'k::linorder \<Rightarrow> 'v \<Rightarrow> ('k, 'v) skiplist \<Rightarrow>
    (('k, 'v) skiplist \<times> bool) option" where
  "sl_insert k v s = do {
     (cur, u) \<leftarrow> findUpdate (heap s) k (currentLevel s) (header s) (replicate (maxLevel s + 1) None);
     nxt \<leftarrow> getForward (heap s) cur 0;
     hit \<leftarrow> matchNode (heap s) nxt k;
     (case hit of
        Some (a, n) \<Rightarrow> Some (s\<lparr>heap := (heap s)(a \<mapsto> n\<lparr>nval := v\<rparr>)\<rparr>, False)
      | None \<Rightarrow> map_option (\<lambda>s'. (s', True)) (insertNew k v u s)) }"

subsection \<open>Removal and clearing\<close>

text \<open>The unlinking loop with its \<open>break\<close>.\<close>

fun unlinkLevels :: "addr option list \<Rightarrow> addr \<Rightarrow> nat list \<Rightarrow> ('k, 'v) heap \<Rightarrow> ('k, 'v) heap option"
  where
  "unlinkLevels u x [] h = Some h"
| "unlinkLevels u x (i # is) h = do {
     p \<leftarrow> getUpdate u i;
     f \<leftarrow> getForward h p i;
     (if f \<noteq> Some x then Some h
      else do {
        g \<leftarrow> getForward h x i;
        h' \<leftarrow> setForward h p i g;
        unlinkLevels u x is h' }) }"

fun shrinkLevel :: "('k, 'v) heap \<Rightarrow> addr \<Rightarrow> nat \<Rightarrow> nat option" where
  "shrinkLevel h hdr 0 = Some 0"
| "shrinkLevel h hdr (Suc l) =
     (case getForward h hdr (Suc l) of None \<Rightarrow> None
      | Some f \<Rightarrow> if f = None then shrinkLevel h hdr l else Some (Suc l))"

definition sl_remove :: "'k::linorder \<Rightarrow> ('k, 'v) skiplist \<Rightarrow> (('k, 'v) skiplist \<times> bool) option" where
  "sl_remove k s = do {
     (cur, u) \<leftarrow> findUpdate (heap s) k (currentLevel s) (header s) (replicate (maxLevel s + 1) None);
     nxt \<leftarrow> getForward (heap s) cur 0;
     hit \<leftarrow> matchNode (heap s) nxt k;
     (case hit of
        None \<Rightarrow> Some (s, False)
      | Some (x, _) \<Rightarrow> do {
          h \<leftarrow> unlinkLevels u x [0..<currentLevel s + 1] (heap s);
          l \<leftarrow> shrinkLevel h (header s) (currentLevel s);
          Some (s\<lparr>heap := h, currentLevel := l, elementCount := elementCount s - 1\<rparr>, True) }) }"

fun clearLevels :: "addr \<Rightarrow> nat list \<Rightarrow> ('k, 'v) heap \<Rightarrow> ('k, 'v) heap option" where
  "clearLevels hdr [] h = Some h"
| "clearLevels hdr (i # is) h =
     (case setForward h hdr i None of None \<Rightarrow> None | Some h' \<Rightarrow> clearLevels hdr is h')"

definition sl_clear :: "('k, 'v) skiplist \<Rightarrow> ('k, 'v) skiplist option" where
  "sl_clear s = do {
     h \<leftarrow> clearLevels (header s) [0..<currentLevel s + 1] (heap s);
     Some (s\<lparr>heap := h, currentLevel := 0, elementCount := 0\<rparr>) }"

text \<open>The destructor clears the list; the nodes go with their last reference.\<close>

definition sl_dtor :: "('k, 'v) skiplist \<Rightarrow> ('k, 'v) skiplist option" where
  "sl_dtor s = sl_clear s"

subsection \<open>Traversal\<close>

text \<open>
  The loop of \<open>dumpFile\<close> and \<open>displayList\<close>: from pointer \<open>p\<close> along level \<open>i\<close> to the end,
  listing the pairs it visits.
\<close>

partial_function (option) traverse ::
    "('k, 'v) heap \<Rightarrow> nat \<Rightarrow> addr option \<Rightarrow> ('k \<times> 'v) list \<Rightarrow> ('k \<times> 'v) list option" where
  "traverse h i p acc =
     (case p of
        None \<Rightarrow> Some acc
      | Some a \<Rightarrow>
          (case h a of
             None \<Rightarrow> None
           | Some n \<Rightarrow>
               (case getForward h a i of
                  None \<Rightarrow> None
                | Some f \<Rightarrow> traverse h i f (acc @ [(nkey n, nval n)]))))"

declare traverse.simps [code]

definition sl_pairs :: "('k, 'v) skiplist \<Rightarrow> ('k \<times> 'v) list option" where
  "sl_pairs s = do { f \<leftarrow> getForward (heap s) (header s) 0; traverse (heap s) 0 f [] }"

end
