(* ===== verification/Skip_List_Shape.thy ===== *)
theory Skip_List_Shape
  imports Skip_List
begin

text \<open>
  The shape of a well-formed node heap and what the loops of the skip list do to it.  One predicate,
  \<open>linked h (hdr # as)\<close>, describes all levels at once: the forward pointer of a node on level \<open>i\<close>
  is the next node of the list that reaches level \<open>i\<close>.  Writes are described by what reads return
  afterwards (\<open>getForward\<close>) and by what they keep (\<open>shape\<close>: keys, values, levels, vector sizes).
\<close>

subsection \<open>Reading the heap\<close>

definition lvl :: "('k, 'v) heap \<Rightarrow> addr \<Rightarrow> nat" where
  "lvl h a = (case h a of None \<Rightarrow> 0 | Some n \<Rightarrow> nodeLevel n)"

definition keyAt :: "('k, 'v) heap \<Rightarrow> addr \<Rightarrow> 'k" where
  "keyAt h a = nkey (the (h a))"

definition pairAt :: "('k, 'v) heap \<Rightarrow> addr \<Rightarrow> 'k \<times> 'v" where
  "pairAt h a = (nkey (the (h a)), nval (the (h a)))"

definition shape :: "('k, 'v) heap \<Rightarrow> addr \<Rightarrow> ('k \<times> 'v \<times> nat \<times> nat) option" where
  "shape h a = map_option (\<lambda>n. (nkey n, nval n, nodeLevel n, length (forward n))) (h a)"

definition wfNode :: "('k, 'v) heap \<Rightarrow> addr \<Rightarrow> bool" where
  "wfNode h a \<longleftrightarrow> (\<exists>n. h a = Some n \<and> length (forward n) = Suc (nodeLevel n))"

lemma fst_pairAt [simp]: "fst (pairAt h a) = keyAt h a"
  by (simp add: pairAt_def keyAt_def)

lemma wfNode_shape: "wfNode h a \<longleftrightarrow> (\<exists>k v l. shape h a = Some (k, v, l, Suc l))"
  by (auto simp: wfNode_def shape_def)

lemma shape_None [simp]: "shape h a = None \<longleftrightarrow> h a = None"
  by (simp add: shape_def)

lemma same_lvl: "shape h' a = shape h a \<Longrightarrow> lvl h' a = lvl h a"
  by (auto simp: shape_def lvl_def map_option_case split: option.splits)

lemma same_pairAt: "shape h' a = shape h a \<Longrightarrow> h a \<noteq> None \<Longrightarrow> pairAt h' a = pairAt h a"
  by (auto simp: shape_def pairAt_def map_option_case split: option.splits)

lemma same_wfNode: "shape h' a = shape h a \<Longrightarrow> wfNode h' a = wfNode h a"
  by (simp add: wfNode_shape)

lemma same_None: "shape h' = shape h \<Longrightarrow> h' a = None \<longleftrightarrow> h a = None"
  by (metis shape_None)

lemma wfNode_Some: "wfNode h a \<Longrightarrow> h a \<noteq> None"
  by (auto simp: wfNode_def)

lemma wfNode_get: "wfNode h a \<Longrightarrow> i \<le> lvl h a \<Longrightarrow> getForward h a i \<noteq> None"
  by (auto simp: wfNode_def getForward_def lvl_def)

lemma setForward_ok:
  assumes "getForward h p i \<noteq> None"
  obtains h' where "setForward h p i f = Some h'" "shape h' = shape h"
    "\<And>b l. getForward h' b l = (if b = p \<and> l = i then Some f else getForward h b l)"
proof -
  from assms obtain n where n: "h p = Some n" "i < length (forward n)"
    by (auto simp: getForward_def split: option.splits if_splits)
  let ?h = "h(p \<mapsto> n\<lparr>forward := (forward n)[i := f]\<rparr>)"
  show thesis
  proof (rule that [of ?h])
    show "setForward h p i f = Some ?h" using n by (simp add: setForward_def)
    show "shape ?h = shape h" using n by (auto simp: shape_def)
    show "getForward ?h b l = (if b = p \<and> l = i then Some f else getForward h b l)" for b l
      using n by (auto simp: getForward_def)
  qed
qed

subsection \<open>Linked lists with levels\<close>

definition nextAt :: "('k, 'v) heap \<Rightarrow> nat \<Rightarrow> addr list \<Rightarrow> addr option" where
  "nextAt h i as = List.find (\<lambda>b. i \<le> lvl h b) as"

definition nodeOk :: "('k, 'v) heap \<Rightarrow> addr \<Rightarrow> addr list \<Rightarrow> bool" where
  "nodeOk h a as \<longleftrightarrow> wfNode h a \<and> (\<forall>i \<le> lvl h a. getForward h a i = Some (nextAt h i as))"

fun linked :: "('k, 'v) heap \<Rightarrow> addr list \<Rightarrow> bool" where
  "linked h [] \<longleftrightarrow> True"
| "linked h (a # as) \<longleftrightarrow> nodeOk h a as \<and> linked h as"

lemma linked_append:
  "linked h (xs @ ys) \<longleftrightarrow>
     linked h ys \<and> (\<forall>us a ws. xs = us @ a # ws \<longrightarrow> nodeOk h a (ws @ ys))"
  by (induction xs) (auto simp: Cons_eq_append_conv)

lemma linked_nodeOk: "linked h (us @ a # vs) \<Longrightarrow> nodeOk h a vs"
  by (simp add: linked_append)

lemma linked_get:
  "linked h (us @ a # vs) \<Longrightarrow> i \<le> lvl h a \<Longrightarrow> getForward h a i = Some (nextAt h i vs)"
  by (drule linked_nodeOk) (simp add: nodeOk_def)

lemma linked_wf: "linked h xs \<Longrightarrow> a \<in> set xs \<Longrightarrow> wfNode h a"
  by (auto simp: linked_append nodeOk_def dest!: split_list)

lemma nextAt_cong: "(\<And>b. b \<in> set as \<Longrightarrow> lvl h' b = lvl h b) \<Longrightarrow> nextAt h' i as = nextAt h i as"
  unfolding nextAt_def by (induction as) auto

lemma linked_cong:
  assumes "\<And>a. a \<in> set xs \<Longrightarrow> shape h' a = shape h a"
    and "\<And>a i. a \<in> set xs \<Longrightarrow> i \<le> lvl h a \<Longrightarrow> getForward h' a i = getForward h a i"
  shows "linked h' xs = linked h xs"
  using assms
proof (induction xs)
  case Nil
  then show ?case by simp
next
  case (Cons a as)
  have "nextAt h' i as = nextAt h i as" for i
    by (intro nextAt_cong same_lvl Cons.prems(1)) simp
  moreover have "lvl h' a = lvl h a" "wfNode h' a = wfNode h a"
    by (rule same_lvl same_wfNode, rule Cons.prems(1), simp)+
  moreover have "i \<le> lvl h a \<Longrightarrow> getForward h' a i = getForward h a i" for i
    using Cons.prems(2) [of a i] by simp
  moreover have "linked h' as = linked h as"
    using Cons.prems by (intro Cons.IH) simp_all
  ultimately show ?case unfolding nodeOk_def linked.simps by metis
qed

lemma nextAt_0: "nextAt h 0 as = (case as of [] \<Rightarrow> None | a # _ \<Rightarrow> Some a)"
  by (simp add: nextAt_def split: list.splits)

lemma nextAt_append:
  "nextAt h i (as @ bs) = (case nextAt h i as of None \<Rightarrow> nextAt h i bs | Some a \<Rightarrow> Some a)"
  by (simp add: nextAt_def find_append split: option.split)

lemma nextAt_None: "nextAt h i as = None \<longleftrightarrow> filter (\<lambda>a. i \<le> lvl h a) as = []"
  by (simp add: nextAt_def find_None_filter)

lemma nextAt_Some: "nextAt h i as = Some a \<Longrightarrow> a \<in> set as \<and> i \<le> lvl h a"
  unfolding nextAt_def by (erule find_SomeE) simp

subsection \<open>The search loops\<close>

text \<open>The last node of a list prefix that reaches level \<open>i\<close>: what \<open>update[i]\<close> must hold.\<close>

definition predAt :: "('k, 'v) heap \<Rightarrow> nat \<Rightarrow> addr list \<Rightarrow> addr" where
  "predAt h i as = last (filter (\<lambda>a. i \<le> lvl h a) as)"

lemma predAt_in: "i \<le> lvl h c \<Longrightarrow> predAt h i (c # as) \<in> set (c # as) \<and> i \<le> lvl h (predAt h i (c # as))"
proof -
  assume "i \<le> lvl h c"
  then have "filter (\<lambda>a. i \<le> lvl h a) (c # as) \<noteq> []" by simp
  from last_in_set [OF this] show ?thesis
    unfolding predAt_def by (auto simp only: set_filter mem_Collect_eq)
qed

lemma predAt_split:
  assumes "i \<le> lvl h c"
  obtains us vs where "c # as = us @ predAt h i (c # as) # vs" "filter (\<lambda>a. i \<le> lvl h a) vs = []"
  using filter_last_split [of "\<lambda>a. i \<le> lvl h a" c as] assms unfolding predAt_def by blast

lemma predAt_next:
  assumes lk: "linked h (c # as @ bs)" and i: "i \<le> lvl h c"
  shows "getForward h (predAt h i (c # as)) i = Some (nextAt h i bs)"
proof -
  obtain us vs where s: "c # as = us @ predAt h i (c # as) # vs" "filter (\<lambda>a. i \<le> lvl h a) vs = []"
    using predAt_split [OF i] by metis
  have "linked h ((c # as) @ bs)" using lk by simp
  then have "linked h (us @ predAt h i (c # as) # vs @ bs)" by (subst (asm) s) simp
  then have "getForward h (predAt h i (c # as)) i = Some (nextAt h i (vs @ bs))"
    using predAt_in [OF i] by (intro linked_get) auto
  with s(2) show ?thesis by (simp add: nextAt_append nextAt_None [THEN iffD2])
qed

lemma walk_spec:
  assumes "linked h (c # as @ bs)" "i \<le> lvl h c"
    and "\<And>a. a \<in> set as \<Longrightarrow> keyAt h a < k"
    and "\<And>b. b \<in> set bs \<Longrightarrow> \<not> keyAt h b < k"
  shows "walk h k i c = Some (predAt h i (c # as))"
  using assms
proof (induction as arbitrary: c rule: length_induct)
  case (1 as)
  have get: "getForward h c i = Some (nextAt h i (as @ bs))"
    using linked_get [of h "[]" c "as @ bs" i] "1.prems" by simp
  show ?case
  proof (cases "nextAt h i as")
    case None
    then have pred: "predAt h i (c # as) = c"
      using "1.prems"(2) by (simp add: nextAt_None predAt_def)
    show ?thesis
    proof (cases "nextAt h i bs")
      case None
      with get \<open>nextAt h i as = None\<close> pred show ?thesis
        by (simp add: nextAt_append walk.simps)
    next
      case (Some b)
      then have b: "b \<in> set bs" by (auto simp: nextAt_def find_Some_iff)
      then have "wfNode h b" using linked_wf [OF "1.prems"(1)] by simp
      then obtain n where "h b = Some n" by (auto simp: wfNode_def)
      moreover from this have "\<not> nkey n < k" using "1.prems"(4) [OF b] by (simp add: keyAt_def)
      ultimately show ?thesis using get Some \<open>nextAt h i as = None\<close> pred
        by (simp add: nextAt_append walk.simps)
    qed
  next
    case (Some a)
    then obtain us vs where split: "as = us @ a # vs" "i \<le> lvl h a"
        "filter (\<lambda>b. i \<le> lvl h b) us = []"
      unfolding nextAt_def by (rule find_SomeE)
    have "wfNode h a" using linked_wf [OF "1.prems"(1)] split by simp
    then obtain n where n: "h a = Some n" by (auto simp: wfNode_def)
    have "keyAt h a < k" using "1.prems"(3) split by simp
    with n have lt: "nkey n < k" by (simp add: keyAt_def)
    have "linked h (a # vs @ bs)" using "1.prems"(1) split by (simp add: linked_append)
    then have "walk h k i a = Some (predAt h i (a # vs))"
      using "1.IH" split "1.prems"(3,4) by simp
    moreover have "predAt h i (c # as) = predAt h i (a # vs)"
      using split unfolding predAt_def by simp
    ultimately show ?thesis using get Some n lt by (subst walk.simps) (simp add: nextAt_append)
  qed
qed

text \<open>Going down one level from the predecessor on level \<open>Suc i\<close> loses nothing.\<close>

lemma predAt_down:
  assumes "c # as = us @ p # vs" "i \<le> lvl h p"
  shows "predAt h i (c # as) = predAt h i (p # vs)"
  using assms(2) unfolding predAt_def assms(1) by simp

lemma tail_subset: "c # as = us @ p # vs \<Longrightarrow> set vs \<subseteq> set as"
  by (cases us) auto

lemma searchLevels_spec:
  assumes "linked h (c # as @ bs)" "i \<le> lvl h c"
    and "\<And>a. a \<in> set as \<Longrightarrow> keyAt h a < k"
    and "\<And>b. b \<in> set bs \<Longrightarrow> \<not> keyAt h b < k"
  shows "searchLevels h k i c = Some (predAt h 0 (c # as))"
  using assms
proof (induction i arbitrary: c as)
  case 0
  then show ?case by (simp add: walk_spec)
next
  case (Suc i)
  let ?p = "predAt h (Suc i) (c # as)"
  obtain us vs where s: "c # as = us @ ?p # vs" using predAt_split Suc.prems(2) by metis
  have p: "Suc i \<le> lvl h ?p" using predAt_in [OF Suc.prems(2)] by blast
  have "linked h ((c # as) @ bs)" using Suc.prems(1) by simp
  then have l: "linked h (?p # vs @ bs)" by (subst (asm) s) (simp add: linked_append)
  have vs: "set vs \<subseteq> set as" using s by (rule tail_subset)
  have "searchLevels h k i ?p = Some (predAt h 0 (?p # vs))"
    using vs p by (intro Suc.IH [OF l]) (auto intro: Suc.prems(3) dest: Suc.prems(4))
  then show ?case using walk_spec [OF Suc.prems] predAt_down [OF s, of 0 h] by simp
qed

lemma findUpdate_spec:
  assumes "linked h (c # as @ bs)" "i \<le> lvl h c"
    and "\<And>a. a \<in> set as \<Longrightarrow> keyAt h a < k"
    and "\<And>b. b \<in> set bs \<Longrightarrow> \<not> keyAt h b < k"
    and "i < length u"
  shows "\<exists>u'. findUpdate h k i c u = Some (predAt h 0 (c # as), u') \<and> length u' = length u \<and>
     (\<forall>j \<le> i. u' ! j = Some (predAt h j (c # as))) \<and> (\<forall>j > i. u' ! j = u ! j)"
  using assms
proof (induction i arbitrary: c as u)
  case 0
  then show ?case by (auto simp: walk_spec setUpdate_def)
next
  case (Suc i)
  let ?p = "predAt h (Suc i) (c # as)" and ?u = "u[Suc i := Some (predAt h (Suc i) (c # as))]"
  obtain us vs where s: "c # as = us @ ?p # vs" using predAt_split Suc.prems(2) by metis
  have p: "Suc i \<le> lvl h ?p" using predAt_in [OF Suc.prems(2)] by blast
  have "linked h ((c # as) @ bs)" using Suc.prems(1) by simp
  then have l: "linked h (?p # vs @ bs)" by (subst (asm) s) (simp add: linked_append)
  have vs: "set vs \<subseteq> set as" using s by (rule tail_subset)
  have "\<exists>u'. findUpdate h k i ?p ?u = Some (predAt h 0 (?p # vs), u') \<and> length u' = length ?u \<and>
     (\<forall>j \<le> i. u' ! j = Some (predAt h j (?p # vs))) \<and> (\<forall>j > i. u' ! j = ?u ! j)"
    using vs p Suc.prems(5) by (intro Suc.IH [OF l]) (auto intro: Suc.prems(3) dest: Suc.prems(4))
  then obtain u' where u': "findUpdate h k i ?p ?u = Some (predAt h 0 (?p # vs), u')"
    "length u' = length ?u" "\<forall>j \<le> i. u' ! j = Some (predAt h j (?p # vs))"
    "\<forall>j > i. u' ! j = ?u ! j" by blast
  have down: "j \<le> i \<Longrightarrow> predAt h j (?p # vs) = predAt h j (c # as)" for j
    using predAt_down [OF s, of j h] p by simp
  show ?case
    using u' down walk_spec [OF Suc.prems(1-4)] Suc.prems(5)
    by (auto simp: setUpdate_def le_Suc_eq)
qed

subsection \<open>The linking loop of \<open>insert\<close>\<close>

lemma linkLevel_spec:
  assumes "i < length u" "u ! i = Some p" "p \<noteq> x" "getForward h p i \<noteq> None" "getForward h x i \<noteq> None"
  shows "\<exists>h'. linkLevel u x i h = Some h' \<and> shape h' = shape h \<and>
     (\<forall>a l. getForward h' a l =
        (if l = i \<and> a = p then Some (Some x) else if l = i \<and> a = x then getForward h p i
         else getForward h a l))"
proof -
  obtain f where f: "getForward h p i = Some f" using assms(4) by auto
  obtain h1 where h1: "setForward h x i f = Some h1" "shape h1 = shape h"
    "\<And>b l. getForward h1 b l = (if b = x \<and> l = i then Some f else getForward h b l)"
    using setForward_ok [OF assms(5), of f] by blast
  have "getForward h1 p i \<noteq> None" using assms(4) by (simp add: h1(3))
  then obtain h2 where h2: "setForward h1 p i (Some x) = Some h2" "shape h2 = shape h1"
    "\<And>b l. getForward h2 b l = (if b = p \<and> l = i then Some (Some x) else getForward h1 b l)"
    using setForward_ok [of h1 p i "Some x"] by blast
  have "linkLevel u x i h = Some h2"
    using assms(1,2) f h1(1) h2(1) by (simp add: linkLevel_def getUpdate_def)
  moreover have "shape h2 = shape h" using h1(2) h2(2) by simp
  ultimately show ?thesis using f by (auto simp: h1(3) h2(3))
qed

lemma linkLevels_spec:
  assumes "distinct is"
    and "\<And>i. i \<in> set is \<Longrightarrow> i < length u \<and> (\<exists>p. u ! i = Some p \<and> p \<noteq> x \<and> getForward h p i \<noteq> None) \<and>
           getForward h x i \<noteq> None"
  shows "\<exists>h'. linkLevels u x is h = Some h' \<and> shape h' = shape h \<and>
     (\<forall>a l. getForward h' a l =
        (if l \<in> set is \<and> u ! l = Some a then Some (Some x)
         else if l \<in> set is \<and> a = x then getForward h (the (u ! l)) l
         else getForward h a l))"
  using assms
proof (induction "is" arbitrary: h)
  case Nil
  then show ?case by simp
next
  case (Cons i js)
  obtain p where p: "i < length u" "u ! i = Some p" "p \<noteq> x" "getForward h p i \<noteq> None"
    "getForward h x i \<noteq> None" using Cons.prems(2) [of i] by auto
  from linkLevel_spec [OF p] obtain h1 where h1: "linkLevel u x i h = Some h1" "shape h1 = shape h"
    "\<And>a l. getForward h1 a l =
        (if l = i \<and> a = p then Some (Some x) else if l = i \<and> a = x then getForward h p i
         else getForward h a l)" by blast
  have i: "i \<notin> set js" using Cons.prems(1) by simp
  have get: "getForward h1 a j = getForward h a j" if "j \<in> set js" for a j
    using that i by (auto simp: h1(3))
  have "\<exists>h'. linkLevels u x js h1 = Some h' \<and> shape h' = shape h1 \<and>
     (\<forall>a l. getForward h' a l =
        (if l \<in> set js \<and> u ! l = Some a then Some (Some x)
         else if l \<in> set js \<and> a = x then getForward h1 (the (u ! l)) l
         else getForward h1 a l))"
    using Cons.prems by (intro Cons.IH) (simp_all add: get)
  then obtain h' where h': "linkLevels u x js h1 = Some h'" "shape h' = shape h1"
    "\<And>a l. getForward h' a l =
        (if l \<in> set js \<and> u ! l = Some a then Some (Some x)
         else if l \<in> set js \<and> a = x then getForward h1 (the (u ! l)) l
         else getForward h1 a l)" by blast
  have "getForward h' a l =
        (if l \<in> set (i # js) \<and> u ! l = Some a then Some (Some x)
         else if l \<in> set (i # js) \<and> a = x then getForward h (the (u ! l)) l
         else getForward h a l)" for a l
    using i p(2,3) by (auto simp: h'(3) h1(3))
  with h1 h'(1,2) show ?case by simp
qed

lemma raiseUpdate_spec:
  assumes "\<And>i. i \<in> set is \<Longrightarrow> i < length u"
  shows "\<exists>u'. raiseUpdate hdr is u = Some u' \<and> length u' = length u \<and>
     (\<forall>i < length u. u' ! i = (if i \<in> set is then Some hdr else u ! i))"
  using assms
proof (induction "is" arbitrary: u)
  case Nil
  then show ?case by simp
next
  case (Cons i js)
  let ?u = "u[i := Some hdr]"
  have "\<exists>u'. raiseUpdate hdr js ?u = Some u' \<and> length u' = length ?u \<and>
     (\<forall>l < length ?u. u' ! l = (if l \<in> set js then Some hdr else ?u ! l))"
    using Cons.prems by (intro Cons.IH) simp
  with Cons.prems [of i] show ?case by (auto simp: setUpdate_def nth_list_update)
qed

text \<open>Splicing node \<open>x\<close> behind its predecessors on levels up to its own gives a linked list.\<close>

lemma linked_splice:
  assumes lk: "linked h (c # as @ bs)" and dist: "distinct (c # as @ bs)"
    and x: "x \<notin> set (c # as @ bs)" "wfNode h x"
    and m: "lvl h x \<le> lvl h c"
    and sh: "shape h' = shape h"
    and get: "\<And>a l. getForward h' a l =
        (if l \<le> lvl h x \<and> a = predAt h l (c # as) then Some (Some x)
         else if l \<le> lvl h x \<and> a = x then getForward h (predAt h l (c # as)) l
         else getForward h a l)"
  shows "linked h' (c # as @ x # bs)"
proof -
  have lvl: "lvl h' a = lvl h a" for a by (rule same_lvl) (simp add: sh)
  have nx: "nextAt h' i zs = nextAt h i zs" for i zs by (rule nextAt_cong) (rule lvl)
  have wf: "wfNode h' a = wfNode h a" for a by (rule same_wfNode) (simp add: sh)
  have predin: "i \<le> lvl h x \<Longrightarrow> predAt h i (c # as) \<in> set (c # as)" for i
    using predAt_in [of i h c as] m by simp
  have "linked h' bs = linked h bs"
  proof (rule linked_cong)
    fix a i assume "a \<in> set bs"
    with dist x have "a \<noteq> x" "a \<notin> set (c # as)" by auto
    then show "getForward h' a i = getForward h a i" using predin [of i] by (auto simp: get)
  qed (simp add: sh)
  then have bs: "linked h' bs" using lk by (simp add: linked_append)
  have "getForward h (predAt h i (c # as)) i = Some (nextAt h i bs)" if i: "i \<le> lvl h x" for i
    using predAt_next [OF lk, of i] m i by simp
  moreover have "i \<le> lvl h x \<Longrightarrow> predAt h i (c # as) \<noteq> x" for i using predin [of i] x by auto
  ultimately have okx: "nodeOk h' x bs" using x by (auto simp: nodeOk_def wf lvl nx get)
  have "nodeOk h' a (ws @ x # bs)" if s: "c # as = us @ a # ws" for us a ws
  proof -
    have "linked h ((c # as) @ bs)" using lk by simp
    then have ok: "nodeOk h a (ws @ bs)" unfolding linked_append using s by blast
    have notx: "a \<noteq> x" and "a \<notin> set ws" using s x dist by (auto simp: Cons_eq_append_conv)
    have "getForward h' a i = Some (nextAt h i (ws @ x # bs))" if i: "i \<le> lvl h a" for i
    proof (cases "filter (\<lambda>b. i \<le> lvl h b) ws = []")
      case True
      with i have "predAt h i (c # as) = a" unfolding s by (simp add: predAt_def)
      with True ok i notx show ?thesis
        by (auto simp: get nextAt_append nextAt_None [THEN iffD2] nodeOk_def)
           (simp_all add: nextAt_def)
    next
      case False
      have "predAt h i (c # as) = last (filter (\<lambda>b. i \<le> lvl h b) ws)"
        unfolding s using False by (simp add: predAt_def)
      with last_in_set [OF False] have "predAt h i (c # as) \<in> set ws"
        by (auto simp only: set_filter mem_Collect_eq)
      with \<open>a \<notin> set ws\<close> have "predAt h i (c # as) \<noteq> a" by auto
      moreover obtain b where "nextAt h i ws = Some b" using False nextAt_None [of h i ws] by auto
      ultimately show ?thesis using ok i notx by (auto simp: get nextAt_append nodeOk_def)
    qed
    with ok show ?thesis by (simp add: nodeOk_def wf lvl nx)
  qed
  then have "linked h' ((c # as) @ x # bs)"
    unfolding linked_append using okx bs by simp
  then show ?thesis by simp
qed

subsection \<open>The unlinking loop of \<open>remove\<close>\<close>

text \<open>The loop unlinks \<open>x\<close> on the levels up to \<open>m\<close>, the last one on which it is linked, and stops.\<close>

lemma unlinkLevels_spec:
  assumes "sorted is" "distinct is"
    and "\<And>i. i \<in> set is \<Longrightarrow> i < length u \<and> (\<exists>p f. u ! i = Some p \<and> p \<noteq> x \<and>
           getForward h p i = Some f \<and> (f = Some x \<longleftrightarrow> i \<le> m)) \<and>
           (i \<le> m \<longrightarrow> getForward h x i \<noteq> None)"
  shows "\<exists>h'. unlinkLevels u x is h = Some h' \<and> shape h' = shape h \<and>
     (\<forall>a l. getForward h' a l =
        (if l \<in> set is \<and> l \<le> m \<and> u ! l = Some a then getForward h x l else getForward h a l))"
  using assms
proof (induction "is" arbitrary: h)
  case Nil
  then show ?case by simp
next
  case (Cons i js)
  obtain p f where p: "i < length u" "u ! i = Some p" "p \<noteq> x" "getForward h p i = Some f"
    "f = Some x \<longleftrightarrow> i \<le> m" "i \<le> m \<Longrightarrow> getForward h x i \<noteq> None"
    using Cons.prems(3) [of i] by auto
  show ?case
  proof (cases "i \<le> m")
    case False
    with Cons.prems(1) have "\<forall>l \<in> set (i # js). \<not> l \<le> m" by auto
    with False p show ?thesis by (auto simp: getUpdate_def)
  next
    case True
    then obtain g where g: "getForward h x i = Some g" using p(6) by auto
    obtain h1 where h1: "setForward h p i g = Some h1" "shape h1 = shape h"
      "\<And>b l. getForward h1 b l = (if b = p \<and> l = i then Some g else getForward h b l)"
      using setForward_ok [of h p i g] p(4) by auto
    have i: "i \<notin> set js" using Cons.prems(2) by simp
    have get: "getForward h1 a j = getForward h a j" if "j \<in> set js" for a j
      using that i by (auto simp: h1(3))
    have "\<exists>h'. unlinkLevels u x js h1 = Some h' \<and> shape h' = shape h1 \<and>
     (\<forall>a l. getForward h' a l =
        (if l \<in> set js \<and> l \<le> m \<and> u ! l = Some a then getForward h1 x l else getForward h1 a l))"
      using Cons.prems by (intro Cons.IH) (simp_all add: get)
    then obtain h' where h': "unlinkLevels u x js h1 = Some h'" "shape h' = shape h1"
      "\<And>a l. getForward h' a l =
        (if l \<in> set js \<and> l \<le> m \<and> u ! l = Some a then getForward h1 x l else getForward h1 a l)"
      by blast
    have "getForward h' a l = (if l \<in> set (i # js) \<and> l \<le> m \<and> u ! l = Some a
        then getForward h x l else getForward h a l)" for a l
      using i p(2,3) g True by (auto simp: h'(3) h1(3))
    moreover have "unlinkLevels u x (i # js) h = Some h'"
      using p True g h1(1) h'(1) by (simp add: getUpdate_def)
    ultimately show ?thesis using h1(2) h'(2) by simp
  qed
qed

lemma linked_unsplice:
  assumes lk: "linked h (c # as @ x # bs)" and dist: "distinct (c # as @ x # bs)"
    and m: "lvl h x \<le> lvl h c"
    and sh: "shape h' = shape h"
    and get: "\<And>a l. getForward h' a l =
        (if l \<le> lvl h x \<and> a = predAt h l (c # as) then getForward h x l else getForward h a l)"
  shows "linked h' (c # as @ bs)"
proof -
  have lvl: "lvl h' a = lvl h a" for a by (rule same_lvl) (simp add: sh)
  have nx: "nextAt h' i zs = nextAt h i zs" for i zs by (rule nextAt_cong) (rule lvl)
  have wf: "wfNode h' a = wfNode h a" for a by (rule same_wfNode) (simp add: sh)
  have predin: "i \<le> lvl h x \<Longrightarrow> predAt h i (c # as) \<in> set (c # as)" for i
    using predAt_in [of i h c as] m by simp
  have lk': "linked h ((c # as) @ x # bs)" using lk by simp
  then have bs0: "linked h bs" and okx: "nodeOk h x bs" by (simp_all add: linked_append)
  have "linked h' bs = linked h bs"
  proof (rule linked_cong)
    fix a i assume "a \<in> set bs"
    with dist have "a \<notin> set (c # as)" by auto
    then show "getForward h' a i = getForward h a i" using predin [of i] by (auto simp: get)
  qed (simp add: sh)
  with bs0 have bs: "linked h' bs" by simp
  have "nodeOk h' a (ws @ bs)" if s: "c # as = us @ a # ws" for us a ws
  proof -
    have ok: "nodeOk h a (ws @ x # bs)" using lk' s unfolding linked_append by blast
    have "a \<notin> set ws" using s dist by (auto simp: Cons_eq_append_conv)
    have "getForward h' a i = Some (nextAt h i (ws @ bs))" if i: "i \<le> lvl h a" for i
    proof (cases "filter (\<lambda>b. i \<le> lvl h b) ws = []")
      case True
      with i have "predAt h i (c # as) = a" unfolding s by (simp add: predAt_def)
      with True ok okx i show ?thesis
        by (auto simp: get nextAt_append nextAt_None [THEN iffD2] nodeOk_def)
           (simp add: nextAt_def)
    next
      case False
      have "predAt h i (c # as) = last (filter (\<lambda>b. i \<le> lvl h b) ws)"
        unfolding s using False by (simp add: predAt_def)
      with last_in_set [OF False] have "predAt h i (c # as) \<in> set ws"
        by (auto simp only: set_filter mem_Collect_eq)
      with \<open>a \<notin> set ws\<close> have "predAt h i (c # as) \<noteq> a" by auto
      moreover obtain b where "nextAt h i ws = Some b" using False nextAt_None [of h i ws] by auto
      ultimately show ?thesis using ok i by (auto simp: get nextAt_append nodeOk_def)
    qed
    with ok show ?thesis by (simp add: nodeOk_def wf lvl nx)
  qed
  then have "linked h' ((c # as) @ bs)" unfolding linked_append using bs by simp
  then show ?thesis by simp
qed

lemma shrinkLevel_spec:
  assumes "\<And>i. i \<le> n \<Longrightarrow> getForward h hdr i = Some (nextAt h i as)"
  shows "\<exists>l \<le> n. shrinkLevel h hdr n = Some l \<and> (0 < l \<longrightarrow> nextAt h l as \<noteq> None) \<and>
     (\<forall>i. l < i \<and> i \<le> n \<longrightarrow> nextAt h i as = None)"
  using assms
proof (induction n)
  case 0
  then show ?case by simp
next
  case (Suc n)
  show ?case
  proof (cases "nextAt h (Suc n) as")
    case None
    from Suc obtain l where "l \<le> n" "shrinkLevel h hdr n = Some l" "0 < l \<longrightarrow> nextAt h l as \<noteq> None"
      "\<forall>i. l < i \<and> i \<le> n \<longrightarrow> nextAt h i as = None" by auto
    with None Suc.prems [of "Suc n"] show ?thesis by (auto simp: le_Suc_eq)
  next
    case (Some a)
    with Suc.prems [of "Suc n"] show ?thesis by auto
  qed
qed

lemma clearLevels_spec:
  assumes "\<And>i. i \<in> set is \<Longrightarrow> getForward h hdr i \<noteq> None"
  shows "\<exists>h'. clearLevels hdr is h = Some h' \<and> shape h' = shape h \<and>
     (\<forall>a l. getForward h' a l = (if a = hdr \<and> l \<in> set is then Some None else getForward h a l))"
  using assms
proof (induction "is" arbitrary: h)
  case Nil
  then show ?case by simp
next
  case (Cons i js)
  obtain h1 where h1: "setForward h hdr i None = Some h1" "shape h1 = shape h"
    "\<And>b l. getForward h1 b l = (if b = hdr \<and> l = i then Some None else getForward h b l)"
    using setForward_ok [of h hdr i None] Cons.prems by auto
  have "\<exists>h'. clearLevels hdr js h1 = Some h' \<and> shape h' = shape h1 \<and>
     (\<forall>a l. getForward h' a l = (if a = hdr \<and> l \<in> set js then Some None else getForward h1 a l))"
    using Cons.prems by (intro Cons.IH) (simp add: h1(3))
  with h1 show ?case by (auto simp: h1(3))
qed

subsection \<open>Traversing a level\<close>

lemma traverse_spec:
  assumes "linked h as"
  shows "traverse h i (nextAt h i as) acc = Some (acc @ map (pairAt h) (filter (\<lambda>a. i \<le> lvl h a) as))"
  using assms
proof (induction as arbitrary: acc rule: length_induct)
  case (1 as)
  show ?case
  proof (cases "nextAt h i as")
    case None
    then have "filter (\<lambda>a. i \<le> lvl h a) as = []" by (simp add: nextAt_None)
    with None show ?thesis by (simp add: traverse.simps)
  next
    case (Some a)
    then obtain us vs where s: "as = us @ a # vs" "i \<le> lvl h a" "filter (\<lambda>b. i \<le> lvl h b) us = []"
      unfolding nextAt_def by (rule find_SomeE)
    with "1.prems" have a: "nodeOk h a vs" "linked h vs" by (simp_all add: linked_append)
    then obtain n where n: "h a = Some n" by (auto simp: nodeOk_def wfNode_def)
    have "traverse h i (nextAt h i vs) (acc @ [pairAt h a]) =
        Some ((acc @ [pairAt h a]) @ map (pairAt h) (filter (\<lambda>a. i \<le> lvl h a) vs))"
      using "1.IH" s a by simp
    with Some n a s show ?thesis
      by (subst traverse.simps) (simp add: nodeOk_def pairAt_def)
  qed
qed

end
