(* ===== verification/Ordered_Map.thy ===== *)
theory Ordered_Map
  imports Prelude
begin

text \<open>
  The contract of an ordered map, which the skip list provides and the storage engine relies on:
  the abstract value is the list of its pairs in strictly increasing key order, on which insertion
  and deletion are \<open>alInsert\<close> and \<open>alDelete\<close>.  Operations that may fail return an option; the
  contract says that from a well-formed state they do not fail.
\<close>

subsection \<open>Sorted association lists\<close>

definition alInsert :: "'k::linorder \<Rightarrow> 'v \<Rightarrow> ('k \<times> 'v) list \<Rightarrow> ('k \<times> 'v) list" where
  "alInsert k v ps = filter (\<lambda>p. fst p < k) ps @ (k, v) # filter (\<lambda>p. k < fst p) ps"

definition alDelete :: "'k::linorder \<Rightarrow> ('k \<times> 'v) list \<Rightarrow> ('k \<times> 'v) list" where
  "alDelete k ps = filter (\<lambda>p. fst p \<noteq> k) ps"

definition alSorted :: "('k::linorder \<times> 'v) list \<Rightarrow> bool" where
  "alSorted ps \<longleftrightarrow> sorted_wrt (<) (map fst ps)"

lemma alSorted_Nil [simp]: "alSorted []" by (simp add: alSorted_def)

lemma alSorted_distinct: "alSorted ps \<Longrightarrow> distinct (map fst ps)"
  by (simp add: alSorted_def strict_sorted_iff)

lemma alSorted_filter: "alSorted ps \<Longrightarrow> alSorted (filter P ps)"
  by (induction ps) (auto simp: alSorted_def)

lemma map_of_filter_fst: "map_of (filter (\<lambda>p. Q (fst p)) ps) x = (if Q x then map_of ps x else None)"
  by (induction ps) auto

lemma map_of_alInsert: "map_of (alInsert k v ps) = (map_of ps)(k \<mapsto> v)"
  by (rule ext) (auto simp: alInsert_def map_add_def map_of_filter_fst [of "\<lambda>x. x < k"]
      map_of_filter_fst [of "\<lambda>x. k < x"] split: option.splits)

lemma map_of_alDelete: "map_of (alDelete k ps) = (map_of ps)(k := None)"
  by (rule ext) (simp add: alDelete_def map_of_filter_fst [of "\<lambda>x. x \<noteq> k"])

lemma alSorted_alInsert: "alSorted ps \<Longrightarrow> alSorted (alInsert k v ps)"
  using alSorted_filter [of ps "\<lambda>p. fst p < k"] alSorted_filter [of ps "\<lambda>p. k < fst p"]
  by (auto simp: alInsert_def alSorted_def sorted_wrt_append)

lemma alSorted_alDelete: "alSorted ps \<Longrightarrow> alSorted (alDelete k ps)"
  by (simp add: alDelete_def alSorted_filter)

lemma set_alInsert: "set (alInsert k v ps) = insert (k, v) {p \<in> set ps. fst p \<noteq> k}"
  by (auto simp: alInsert_def)

text \<open>A strictly sorted association list is determined by its map.\<close>

lemma alSorted_unique:
  assumes "alSorted ps" "alSorted qs" "map_of ps = map_of qs"
  shows "ps = qs"
proof -
  have rebuild: "map (\<lambda>k. (k, the (map_of rs k))) (map fst rs) = rs" if "alSorted rs" for rs :: "('a \<times> 'b) list"
    unfolding map_map using alSorted_distinct [OF that] by (intro map_idI) auto
  have "set ps = set qs"
    using assms by (metis alSorted_distinct map_of_inject_set)
  then have "map fst ps = map fst qs"
    using assms(1,2) by (metis alSorted_def list.set_map strict_sorted_equal)
  then show ?thesis using rebuild [OF assms(1)] rebuild [OF assms(2)] assms(3) by simp
qed

subsection \<open>The contract\<close>

locale ordered_map =
  fixes good :: "'s \<Rightarrow> bool"
    and pairs :: "'s \<Rightarrow> ('k::linorder \<times> 'v) list"
    and ins :: "'k \<Rightarrow> 'v \<Rightarrow> 's \<Rightarrow> ('s \<times> bool) option"
    and lookup :: "'k \<Rightarrow> 's \<Rightarrow> 'v option option"
    and del :: "'k \<Rightarrow> 's \<Rightarrow> ('s \<times> bool) option"
    and clear :: "'s \<Rightarrow> 's option"
    and count :: "'s \<Rightarrow> int"
  assumes sorted: "good s \<Longrightarrow> alSorted (pairs s)"
    and ins: "good s \<Longrightarrow> \<exists>s'. ins k v s = Some (s', map_of (pairs s) k = None) \<and> good s' \<and>
                pairs s' = alInsert k v (pairs s)"
    and lookup: "good s \<Longrightarrow> lookup k s = Some (map_of (pairs s) k)"
    and del: "good s \<Longrightarrow> \<exists>s'. del k s = Some (s', map_of (pairs s) k \<noteq> None) \<and> good s' \<and>
                pairs s' = alDelete k (pairs s)"
    and clear: "good s \<Longrightarrow> \<exists>s'. clear s = Some s' \<and> good s' \<and> pairs s' = []"
    and count: "good s \<Longrightarrow> count s = int (length (pairs s))"
begin

lemma insE:
  assumes "good s"
  obtains s' where "ins k v s = Some (s', map_of (pairs s) k = None)" "good s'"
    "pairs s' = alInsert k v (pairs s)" "map_of (pairs s') = (map_of (pairs s))(k \<mapsto> v)"
  using ins [OF assms, of k v] map_of_alInsert [of k v "pairs s"] by metis

lemma delE:
  assumes "good s"
  obtains s' where "del k s = Some (s', map_of (pairs s) k \<noteq> None)" "good s'"
    "pairs s' = alDelete k (pairs s)" "map_of (pairs s') = (map_of (pairs s))(k := None)"
  using del [OF assms, of k] map_of_alDelete [of k "pairs s"] by metis

lemma count_card: "good s \<Longrightarrow> count s = int (card (dom (map_of (pairs s))))"
proof -
  assume s: "good s"
  then have "distinct (map fst (pairs s))" by (simp add: sorted alSorted_distinct)
  then have "card (fst ` set (pairs s)) = length (pairs s)"
    using distinct_card [of "map fst (pairs s)"] by simp
  with s show ?thesis by (simp add: count dom_map_of_conv_image_fst)
qed

text \<open>Inserting a batch, later pairs winning, as loading a file does.\<close>

lemma ins_batch:
  assumes "good s"
    and nil: "\<And>s. batch [] s = Some s"
    and cons: "\<And>k v kvs s. batch ((k, v) # kvs) s = Option.bind (ins k v s) (\<lambda>(s', b). batch kvs s')"
  shows "\<exists>s'. batch kvs s = Some s' \<and> good s' \<and> map_of (pairs s') = map_of (pairs s) ++ map_of (rev kvs)"
  using assms(1)
proof (induction kvs arbitrary: s)
  case Nil
  then show ?case by (simp add: nil)
next
  case (Cons kv kvs)
  obtain k v where kv: "kv = (k, v)" by (cases kv)
  obtain s1 where s1: "ins k v s = Some (s1, map_of (pairs s) k = None)" "good s1"
    "map_of (pairs s1) = (map_of (pairs s))(k \<mapsto> v)" using Cons.prems by (rule insE)
  from Cons.IH [OF s1(2)] obtain s' where "batch kvs s1 = Some s'" "good s'"
    "map_of (pairs s') = map_of (pairs s1) ++ map_of (rev kvs)" by blast
  with s1 kv show ?case by (simp add: cons)
qed

end

end
