(* ===== verification/Skip_List_Correct.thy ===== *)
theory Skip_List_Correct
  imports Skip_List_Shape Ordered_Map "HOL-Library.Sublist"
begin

text \<open>
  Correctness of the skip list: the representation invariant \<open>sl_rep\<close>, its preservation by every
  operation, and the interpretation of the ordered map contract on the code's operations.
\<close>

subsection \<open>The representation invariant\<close>

text \<open>\<open>as\<close> is the list of the node addresses in key order, the header left out.\<close>

definition sl_rep :: "('k::linorder, 'v) skiplist \<Rightarrow> addr list \<Rightarrow> bool" where
  "sl_rep s as \<longleftrightarrow>
     linked (heap s) (header s # as) \<and> distinct (header s # as) \<and>
     sorted_wrt (<) (map (keyAt (heap s)) as) \<and>
     lvl (heap s) (header s) = maxLevel s \<and>
     currentLevel s \<le> maxLevel s \<and>
     (\<forall>a \<in> set as. lvl (heap s) a \<le> currentLevel s) \<and>
     (0 < currentLevel s \<longrightarrow> (\<exists>a \<in> set as. lvl (heap s) a = currentLevel s)) \<and>
     elementCount s = int (length as) \<and>
     (\<forall>a. heap s a \<noteq> None \<longrightarrow> a < nextAddr s)"

definition sl_inv :: "('k::linorder, 'v) skiplist \<Rightarrow> bool" where
  "sl_inv s \<longleftrightarrow> (\<exists>as. sl_rep s as)"

text \<open>The abstract value: the pairs that a traversal of level 0 finds.\<close>

definition sl_list :: "('k::linorder, 'v) skiplist \<Rightarrow> ('k \<times> 'v) list" where
  "sl_list s = (case sl_pairs s of None \<Rightarrow> [] | Some ps \<Rightarrow> ps)"

abbreviation sl_map :: "('k::linorder, 'v) skiplist \<Rightarrow> 'k \<Rightarrow> 'v option" where
  "sl_map s \<equiv> map_of (sl_list s)"

lemma sl_pairs_rep: "sl_rep s as \<Longrightarrow> sl_pairs s = Some (map (pairAt (heap s)) as)"
proof -
  assume "sl_rep s as"
  then have "linked (heap s) (header s # as)" by (simp add: sl_rep_def)
  then have "nodeOk (heap s) (header s) as" "linked (heap s) as" by simp_all
  then show ?thesis
    using traverse_spec [of "heap s" as 0 "[]"] by (simp add: sl_pairs_def nodeOk_def)
qed

lemma sl_list_rep: "sl_rep s as \<Longrightarrow> sl_list s = map (pairAt (heap s)) as"
  by (simp add: sl_list_def sl_pairs_rep)

lemma sl_rep_sorted: "sl_rep s as \<Longrightarrow> alSorted (map (pairAt (heap s)) as)"
  by (simp add: sl_rep_def alSorted_def comp_def)

subsection \<open>Splitting a sorted list at a key\<close>

lemma split_at_key:
  "sorted_wrt (<) (map f as) \<Longrightarrow> as = filter (\<lambda>a. f a < k) as @ filter (\<lambda>a. \<not> f a < (k::'k::linorder)) as"
proof (induction as)
  case (Cons a as)
  show ?case
  proof (cases "f a < k")
    case True
    with Cons show ?thesis by simp
  next
    case False
    with Cons.prems have "\<forall>b \<in> set as. \<not> f b < k" by (auto dest: less_trans)
    then have "filter (\<lambda>a. f a < k) as = []" "filter (\<lambda>a. \<not> f a < k) as = as"
      by (auto simp: filter_empty_conv filter_id_conv)
    with False show ?thesis by simp
  qed
qed simp

lemma split_at_key_hit:
  assumes "sorted_wrt (<) (map f as)" "as = us @ b # vs"
    "\<forall>a \<in> set us. f a < (k::'k::linorder)" "\<forall>a \<in> set (b # vs). \<not> f a < k"
  shows "filter (\<lambda>a. f a < k) as = us" "\<forall>a \<in> set vs. k < f a"
    "f b \<noteq> k \<Longrightarrow> k < f b"
  using assms by (auto simp: sorted_wrt_append filter_empty_conv dest: le_less_trans)

text \<open>
  What the search loops find: the list splits into the nodes below the key, a first node not below
  it (if any) and the rest.
\<close>

lemma sl_rep_split:
  assumes "sl_rep s as"
  obtains us vs where "as = us @ vs" "\<forall>a \<in> set us. keyAt (heap s) a < k"
    "\<forall>a \<in> set vs. \<not> keyAt (heap s) a < k" "linked (heap s) (header s # us @ vs)"
    "getForward (heap s) (predAt (heap s) 0 (header s # us)) 0 =
       Some (case vs of [] \<Rightarrow> None | b # _ \<Rightarrow> Some b)"
proof -
  let ?h = "heap s"
  let ?us = "filter (\<lambda>a. keyAt ?h a < k) as" and ?vs = "filter (\<lambda>a. \<not> keyAt ?h a < k) as"
  have as: "as = ?us @ ?vs" using assms by (intro split_at_key) (simp add: sl_rep_def)
  have l: "linked ?h (header s # ?us @ ?vs)" using assms by (simp add: sl_rep_def as [symmetric])
  have p: "predAt ?h 0 (header s # ?us) = last (header s # ?us)" by (simp add: predAt_def)
  have "linked ?h ((butlast (header s # ?us) @ [last (header s # ?us)]) @ ?vs)"
    by (simp only: append_butlast_last_id [OF list.distinct(2)] append_Cons l)
  then have "linked ?h (butlast (header s # ?us) @ predAt ?h 0 (header s # ?us) # ?vs)"
    by (simp only: p append_assoc append_Cons append_Nil)
  then have "getForward ?h (predAt ?h 0 (header s # ?us)) 0 = Some (nextAt ?h 0 ?vs)"
    by (rule linked_get) simp
  with as l show thesis by (intro that [of ?us ?vs]) (auto simp: nextAt_0)
qed

lemma matchNode_spec:
  fixes h :: "('k::linorder, 'v) heap"
  assumes "linked h (us @ vs)" "\<forall>b \<in> set vs. \<not> keyAt h b < k" "sorted_wrt (<) (map (keyAt h) vs)"
  shows "matchNode h (case vs of [] \<Rightarrow> None | b # _ \<Rightarrow> Some b) k =
    Some (case vs of [] \<Rightarrow> None | b # _ \<Rightarrow> if keyAt h b = k then Some (b, the (h b)) else None)"
proof (cases vs)
  case (Cons b bs)
  then have "wfNode h b" using linked_wf [OF assms(1)] by simp
  then show ?thesis using Cons by (auto simp: matchNode_def wfNode_def keyAt_def)
qed (simp add: matchNode_def)

lemma map_of_pairs_split:
  fixes h :: "('k::linorder, 'v) heap"
  assumes "sorted_wrt (<) (map (keyAt h) (us @ vs))" "\<forall>a \<in> set us. keyAt h a < k"
    "\<forall>a \<in> set vs. \<not> keyAt h a < k"
  shows "map_of (map (pairAt h) (us @ vs)) k =
    (case vs of [] \<Rightarrow> None | b # _ \<Rightarrow> if keyAt h b = k then Some (snd (pairAt h b)) else None)"
proof -
  have us: "map_of (map (pairAt h) us) k = None"
    using assms(2) by (auto simp: map_of_eq_None_iff image_image)
  show ?thesis
  proof (cases vs)
    case Nil
    with us show ?thesis by simp
  next
    case (Cons b bs)
    have "keyAt h b \<noteq> k \<Longrightarrow> map_of (map (pairAt h) bs) k = None"
      using assms Cons by (simp add: map_of_eq_None_iff image_image sorted_wrt_append) force
    then show ?thesis using us Cons by (auto simp: map_add_def pairAt_def keyAt_def)
  qed
qed

subsection \<open>Search\<close>

lemma sl_search_rep:
  assumes "sl_rep s as"
  shows "sl_search k s = Some (map_of (sl_list s) k)"
proof -
  let ?h = "heap s"
  obtain us vs where s: "as = us @ vs" "\<forall>a \<in> set us. keyAt ?h a < k" "\<forall>a \<in> set vs. \<not> keyAt ?h a < k"
    "linked ?h (header s # us @ vs)"
    "getForward ?h (predAt ?h 0 (header s # us)) 0 = Some (case vs of [] \<Rightarrow> None | b # _ \<Rightarrow> Some b)"
    using assms by (rule sl_rep_split)
  have "searchLevels ?h k (currentLevel s) (header s) = Some (predAt ?h 0 (header s # us))"
    using s assms by (intro searchLevels_spec) (auto simp: sl_rep_def)
  moreover have "matchNode ?h (case vs of [] \<Rightarrow> None | b # _ \<Rightarrow> Some b) k =
    Some (case vs of [] \<Rightarrow> None | b # _ \<Rightarrow> if keyAt ?h b = k then Some (b, the (?h b)) else None)"
    using s assms by (intro matchNode_spec [of _ "header s # us"]) (auto simp: sl_rep_def sorted_wrt_append)
  moreover have "map_of (sl_list s) k =
    (case vs of [] \<Rightarrow> None | b # _ \<Rightarrow> if keyAt ?h b = k then Some (snd (pairAt ?h b)) else None)"
    unfolding sl_list_rep [OF assms] s(1)
    using s(1-3) assms by (intro map_of_pairs_split) (simp_all add: sl_rep_def)
  ultimately show ?thesis
    using s(5) by (simp add: sl_search_def pairAt_def split: list.splits)
qed

subsection \<open>Insertion\<close>

lemma alInsert_split:
  fixes h :: "('k::linorder, 'v) heap"
  assumes "sorted_wrt (<) (map (keyAt h) (us @ vs))" "\<forall>a \<in> set us. keyAt h a < k"
    "\<forall>a \<in> set vs. \<not> keyAt h a < k"
  shows "alInsert k v (map (pairAt h) (us @ vs)) = map (pairAt h) us @ (k, v) #
    map (pairAt h) (case vs of [] \<Rightarrow> [] | b # bs \<Rightarrow> if keyAt h b = k then bs else vs)"
proof -
  have "filter (\<lambda>a. keyAt h a < k) us = us" "filter (\<lambda>a. k < keyAt h a) us = []"
    "filter (\<lambda>a. keyAt h a < k) vs = []"
    using assms(2,3) by (auto simp: filter_id_conv filter_empty_conv)
  moreover have "filter (\<lambda>a. k < keyAt h a) vs =
      (case vs of [] \<Rightarrow> [] | b # bs \<Rightarrow> if keyAt h b = k then bs else vs)"
    using assms(1,3) by (cases vs) (auto simp: filter_id_conv sorted_wrt_append)
  ultimately show ?thesis by (simp add: alInsert_def filter_map comp_def)
qed

lemma randomLevelLoop_bound: "level \<le> m \<Longrightarrow> randomLevelLoop m r level \<le> max level (m - 1)"
proof (induction m r level rule: randomLevelLoop.induct)
  case (1 m r level)
  show ?case
  proof (cases "r level < kProbability \<and> int level < int m - 1")
    case True
    then have "level + 1 \<le> m - 1" by linarith
    with "1.IH"[OF True] True show ?thesis by (subst randomLevelLoop.simps) auto
  next
    case False
    then show ?thesis by (subst randomLevelLoop.simps) auto
  qed
qed

lemma randomLevelLoop_draws:
  "(level \<le> i \<longrightarrow> i < randomLevelLoop m r level \<longrightarrow> r i < kProbability) \<and>
   (randomLevelLoop m r level < m - 1 \<longrightarrow> \<not> r (randomLevelLoop m r level) < kProbability)"
proof (induction m r level rule: randomLevelLoop.induct)
  case (1 m r level)
  show ?case
  proof (cases "r level < kProbability \<and> int level < int m - 1")
    case True
    then have "randomLevelLoop m r level = randomLevelLoop m r (level + 1)" by (simp add: randomLevelLoop.simps [of m r level])
    then show ?thesis using 1 [OF True] True by (cases "i = level") auto
  next
    case False
    then have "randomLevelLoop m r level = level" by (auto simp: randomLevelLoop.simps [of m r level])
    then show ?thesis using False by auto
  qed
qed

lemma getRandomLevel_bound: "fst (getRandomLevel m r) \<le> m - 1"
  using randomLevelLoop_bound [of 0 m r] by (simp add: getRandomLevel_def Let_def)

text \<open>Overwriting a value changes no link.\<close>

lemma setVal_same:
  assumes "h b = Some n"
  shows "lvl (h(b \<mapsto> n\<lparr>nval := v\<rparr>)) = lvl h" "wfNode (h(b \<mapsto> n\<lparr>nval := v\<rparr>)) = wfNode h"
    "getForward (h(b \<mapsto> n\<lparr>nval := v\<rparr>)) = getForward h" "keyAt (h(b \<mapsto> n\<lparr>nval := v\<rparr>)) = keyAt h"
  using assms by (auto simp: fun_eq_iff lvl_def wfNode_def getForward_def keyAt_def)

lemma linked_same:
  "lvl h' = lvl h \<Longrightarrow> wfNode h' = wfNode h \<Longrightarrow> getForward h' = getForward h \<Longrightarrow> linked h' as = linked h as"
  by (induction as) (simp_all add: nodeOk_def nextAt_def)

lemma sl_insert_hit:
  fixes v :: 'v and s :: "('k::linorder, 'v) skiplist"
  assumes rep: "sl_rep s (us @ b # bs)" and n: "heap s b = Some n"
    and less: "\<forall>a \<in> set us. keyAt (heap s) a < nkey n" "\<forall>a \<in> set (b # bs). \<not> keyAt (heap s) a < nkey n"
  defines "s' \<equiv> s\<lparr>heap := (heap s)(b \<mapsto> n\<lparr>nval := v\<rparr>)\<rparr>"
  shows "sl_rep s' (us @ b # bs)" "sl_list s' = alInsert (nkey n) v (sl_list s)"
proof -
  note same = setVal_same [of "heap s" b n v, OF n]
  have heap: "heap s' = (heap s)(b \<mapsto> n\<lparr>nval := v\<rparr>)" by (simp add: s'_def)
  have lnk: "linked (heap s') = linked (heap s)"
    by (rule ext, rule linked_same) (simp_all only: heap same)
  have flds: "header s' = header s" "maxLevel s' = maxLevel s" "currentLevel s' = currentLevel s"
    "elementCount s' = elementCount s" "nextAddr s' = nextAddr s" by (simp_all add: s'_def)
  have dom: "heap s' a \<noteq> None \<longleftrightarrow> heap s a \<noteq> None" for a using n by (simp add: heap)
  show rep': "sl_rep s' (us @ b # bs)"
    using rep unfolding sl_rep_def lnk dom flds unfolding heap same .
  have "b \<notin> set us" "b \<notin> set bs" using rep by (auto simp: sl_rep_def)
  then have "map (pairAt (heap s')) (us @ b # bs) =
      map (pairAt (heap s)) us @ (nkey n, v) # map (pairAt (heap s)) bs"
    by (auto simp: s'_def pairAt_def)
  also have "\<dots> = alInsert (nkey n) v (map (pairAt (heap s)) (us @ b # bs))"
    using rep n less by (subst alInsert_split) (auto simp: sl_rep_def keyAt_def)
  finally show "sl_list s' = alInsert (nkey n) v (sl_list s)"
    by (simp add: sl_list_rep [OF rep] sl_list_rep [OF rep'])
qed

text \<open>Allocating a node at a fresh address keeps everything that is linked.\<close>

lemma alloc_linked:
  assumes "linked h xs" "h x = None"
  shows "linked (h(x \<mapsto> n)) xs" "a \<in> set xs \<Longrightarrow> lvl (h(x \<mapsto> n)) a = lvl h a"
    "a \<in> set xs \<Longrightarrow> pairAt (h(x \<mapsto> n)) a = pairAt h a" "x \<notin> set xs"
proof -
  show x: "x \<notin> set xs" using linked_wf [OF assms(1), of x] assms(2) by (auto simp: wfNode_def)
  show "linked (h(x \<mapsto> n)) xs"
  proof (subst linked_cong)
    show "a \<in> set xs \<Longrightarrow> shape (h(x \<mapsto> n)) a = shape h a" for a using x by (auto simp: shape_def)
    show "a \<in> set xs \<Longrightarrow> getForward (h(x \<mapsto> n)) a i = getForward h a i" for a i
      using x by (auto simp: getForward_def)
  qed (rule assms(1))
  show "a \<in> set xs \<Longrightarrow> lvl (h(x \<mapsto> n)) a = lvl h a" using x by (auto simp: lvl_def)
  show "a \<in> set xs \<Longrightarrow> pairAt (h(x \<mapsto> n)) a = pairAt h a" using x by (auto simp: pairAt_def)
qed

lemma predAt_cong: "(\<And>a. a \<in> set as \<Longrightarrow> lvl h' a = lvl h a) \<Longrightarrow> predAt h' i as = predAt h i as"
  unfolding predAt_def by (metis (mono_tags, lifting) filter_cong)

lemma predAt_above:
  "\<forall>a \<in> set as. lvl h a < i \<Longrightarrow> i \<le> lvl h c \<Longrightarrow> predAt h i (c # as) = c"
  by (auto simp: predAt_def filter_empty_conv)

text \<open>The update vector once \<open>insert\<close> has raised it to the level of the new node.\<close>

lemma raised_update:
  assumes rep: "sl_rep s (us @ vs)" and len: "length u = maxLevel s + 1"
    and u: "\<forall>j \<le> currentLevel s. u ! j = Some (predAt (heap s) j (header s # us))"
    and rl: "rl \<le> maxLevel s"
  shows "\<exists>u'. (if currentLevel s < rl
               then raiseUpdate (header s) [currentLevel s + 1..<rl + 1] u else Some u) = Some u' \<and>
      length u' = maxLevel s + 1 \<and> (\<forall>j \<le> rl. u' ! j = Some (predAt (heap s) j (header s # us)))"
proof (cases "currentLevel s < rl")
  case False
  with len u show ?thesis by auto
next
  case True
  have "i \<in> set [currentLevel s + 1..<rl + 1] \<Longrightarrow> i < length u" for i using rl len by auto
  from raiseUpdate_spec [where hdr = "header s", OF this] obtain u' where
    u': "raiseUpdate (header s) [currentLevel s + 1..<rl + 1] u = Some u'" "length u' = length u"
      "\<forall>i < length u. u' ! i = (if i \<in> set [currentLevel s + 1..<rl + 1] then Some (header s) else u ! i)"
    by blast
  have "u' ! j = Some (predAt (heap s) j (header s # us))" if j: "j \<le> rl" for j
  proof (cases "j \<le> currentLevel s")
    case True
    with u'(3) u len rl j show ?thesis by simp
  next
    case False
    have "\<forall>a \<in> set us. lvl (heap s) a \<le> currentLevel s" using rep by (simp add: sl_rep_def)
    moreover have "lvl (heap s) (header s) = maxLevel s" using rep by (simp add: sl_rep_def)
    ultimately have "predAt (heap s) j (header s # us) = header s"
      using False rl j by (intro predAt_above) auto
    with False u'(3) len rl j show ?thesis by simp
  qed
  with True u'(1,2) len show ?thesis by auto
qed

lemma insertNew_rep:
  assumes rep: "sl_rep s (us @ vs)"
    and less: "\<forall>a \<in> set us. keyAt (heap s) a < k" "\<forall>a \<in> set vs. k < keyAt (heap s) a"
    and len: "length u = maxLevel s + 1"
    and u: "\<forall>j \<le> currentLevel s. u ! j = Some (predAt (heap s) j (header s # us))"
  shows "\<exists>s'. insertNew k v u s = Some s' \<and> sl_rep s' (us @ nextAddr s # vs) \<and>
     sl_list s' = alInsert k v (sl_list s)"
proof -
  let ?h = "heap s" and ?c = "header s" and ?x = "nextAddr s" and ?m = "maxLevel s"
  obtain rl r' where g: "getRandomLevel ?m (rng s) = (rl, r')" by (cases "getRandomLevel ?m (rng s)")
  have rl: "rl \<le> ?m" using getRandomLevel_bound [of ?m "rng s"] g by simp
  obtain u' where u': "(if currentLevel s < rl
        then raiseUpdate ?c [currentLevel s + 1..<rl + 1] u else Some u) = Some u'"
    "length u' = ?m + 1" "\<forall>j \<le> rl. u' ! j = Some (predAt ?h j (?c # us))"
    using raised_update [OF rep len u rl] by blast
  define h0 where "h0 = ?h(?x \<mapsto> mkNode k v rl)"
  have lk: "linked ?h (?c # us @ vs)" and dist: "distinct (?c # us @ vs)" and lc: "lvl ?h ?c = ?m"
    using rep by (simp_all add: sl_rep_def)
  have "\<forall>a. ?h a \<noteq> None \<longrightarrow> a < ?x" using rep by (simp add: sl_rep_def)
  then have fresh: "?h ?x = None" by (metis less_irrefl)
  note al = alloc_linked(1-3) [where n = "mkNode k v rl", OF lk fresh, folded h0_def]
    alloc_linked(4) [OF lk fresh]
  have x: "lvl h0 ?x = rl" "wfNode h0 ?x" "keyAt h0 ?x = k" "pairAt h0 ?x = (k, v)"
    by (auto simp: h0_def lvl_def wfNode_def keyAt_def pairAt_def mkNode_def)
  have pred: "predAt h0 j (?c # us) = predAt ?h j (?c # us)" for j
    by (rule predAt_cong) (auto intro: al(2))
  have predin: "predAt ?h j (?c # us) \<in> set (?c # us) \<and> j \<le> lvl ?h (predAt ?h j (?c # us))"
    if "j \<le> rl" for j using predAt_in [of j ?h ?c us] lc rl that by simp
  have link: "i < length u' \<and> (\<exists>p. u' ! i = Some p \<and> p \<noteq> ?x \<and> getForward h0 p i \<noteq> None) \<and>
      getForward h0 ?x i \<noteq> None" if "i \<in> set [0..<rl + 1]" for i
  proof -
    have i: "i \<le> rl" using that by auto
    let ?p = "predAt ?h i (?c # us)"
    have "?p \<in> set (?c # us @ vs)" using predin [OF i] by auto
    moreover from this have "wfNode h0 ?p" "lvl h0 ?p = lvl ?h ?p"
      using linked_wf [OF al(1)] al(2) by blast+
    ultimately show ?thesis
      using i rl u'(2,3) predin [OF i] al(4) x(1,2) wfNode_get [of h0 ?p i] wfNode_get [of h0 ?x i]
      by auto
  qed
  obtain h' where h': "linkLevels u' ?x [0..<rl + 1] h0 = Some h'" "shape h' = shape h0"
    "\<And>a l. getForward h' a l =
        (if l \<in> set [0..<rl + 1] \<and> u' ! l = Some a then Some (Some ?x)
         else if l \<in> set [0..<rl + 1] \<and> a = ?x then getForward h0 (the (u' ! l)) l
         else getForward h0 a l)"
    using linkLevels_spec [of "[0..<rl + 1]" u' ?x h0, OF _ link] by auto
  have "linked h' (?c # us @ ?x # vs)"
    using al dist lc rl u'(3) x(1,2) by (intro linked_splice [OF al(1) dist _ _ _ h'(2)])
      (auto simp: h'(3) pred)
  have sh: "lvl h' a = lvl h0 a" for a by (rule same_lvl) (simp add: h'(2))
  have pa: "pairAt h' a = pairAt h0 a" if "a \<in> set (?c # us @ ?x # vs)" for a
  proof (rule same_pairAt)
    have "wfNode h0 a" using that x(2) linked_wf [OF al(1), of a] by auto
    then show "h0 a \<noteq> None" by (rule wfNode_Some)
  qed (simp add: h'(2))
  define s' where "s' = s\<lparr>heap := h', nextAddr := ?x + 1, rng := r', elementCount := elementCount s + 1,
      currentLevel := max (currentLevel s) rl\<rparr>"
  have ins: "insertNew k v u s = Some s'"
    using g u'(1) h'(1) unfolding insertNew_def createNode_def s'_def h0_def
    by (auto simp: Let_def max_def split: if_splits)
  have pa': "pairAt h' a = pairAt ?h a" if "a \<in> set us \<union> set vs" for a
    using that pa [of a] al(3) [of a] by simp
  have keys: "keyAt h' a = keyAt ?h a" if "a \<in> set us \<union> set vs" for a
    using pa' [OF that] by (simp flip: fst_pairAt)
  have px: "pairAt h' ?x = (k, v)" using pa [of ?x] x(4) by simp
  then have kx: "keyAt h' ?x = k" by (simp flip: fst_pairAt)
  have flds: "heap s' = h'" "header s' = ?c" "maxLevel s' = ?m" "nextAddr s' = ?x + 1"
    "elementCount s' = elementCount s + 1" "currentLevel s' = max (currentLevel s) rl"
    by (simp_all add: s'_def)
  have lv: "lvl h' a = lvl ?h a" if "a \<in> set (?c # us @ vs)" for a using that sh al(2) by simp
  have srt: "sorted_wrt (<) (map (keyAt h') (us @ ?x # vs))"
  proof -
    have eq: "map (keyAt h') (us @ ?x # vs) = map (keyAt ?h) us @ k # map (keyAt ?h) vs"
      using keys kx by simp
    have "sorted_wrt (<) (map (keyAt ?h) (us @ vs))" using rep by (simp add: sl_rep_def)
    then show ?thesis unfolding eq using less by (auto simp: sorted_wrt_append)
  qed
  have lvs: "\<forall>a \<in> set (us @ ?x # vs). lvl h' a \<le> max (currentLevel s) rl"
  proof
    fix a assume a: "a \<in> set (us @ ?x # vs)"
    show "lvl h' a \<le> max (currentLevel s) rl"
    proof (cases "a = ?x")
      case True
      then show ?thesis using sh [of ?x] x(1) by simp
    next
      case False
      with a have "a \<in> set (us @ vs)" by auto
      moreover from this have "lvl ?h a \<le> currentLevel s" using rep by (simp add: sl_rep_def)
      ultimately show ?thesis using lv [of a] by (simp add: le_max_iff_disj)
    qed
  qed
  have top: "0 < max (currentLevel s) rl \<longrightarrow> (\<exists>a \<in> set (us @ ?x # vs). lvl h' a = max (currentLevel s) rl)"
  proof (cases "currentLevel s < rl")
    case True
    then show ?thesis using sh [of ?x] x(1) by auto
  next
    case False
    moreover have "0 < currentLevel s \<longrightarrow> (\<exists>a \<in> set (us @ vs). lvl ?h a = currentLevel s)"
      using rep by (simp add: sl_rep_def)
    ultimately show ?thesis using lv by (auto simp: max_def)
  qed
  have dom: "h' a \<noteq> None \<longrightarrow> a < ?x + 1" for a
    using rep same_None [OF h'(2), of a] by (auto simp: h0_def sl_rep_def less_Suc_eq split: if_splits)
  have "currentLevel s \<le> ?m" "elementCount s = int (length (us @ vs))"
    using rep by (simp_all add: sl_rep_def)
  then have rep': "sl_rep s' (us @ ?x # vs)"
    unfolding sl_rep_def flds
    using \<open>linked h' (?c # us @ ?x # vs)\<close> dist al(4) srt lvs top dom rl lc lv [of ?c] by auto
  have "sl_list s' = map (pairAt ?h) us @ (k, v) # map (pairAt ?h) vs"
    unfolding sl_list_rep [OF rep'] flds using pa' px by simp
  also have "\<dots> = alInsert k v (sl_list s)"
    unfolding sl_list_rep [OF rep] using rep less
    by (subst alInsert_split) (auto simp: sl_rep_def split: list.split)
  finally have "sl_list s' = alInsert k v (sl_list s)" .
  with rep' ins show ?thesis by blast
qed

text \<open>The common start of \<open>insert\<close> and \<open>remove\<close>: the search with its update vector.\<close>

lemma sl_find_rep:
  assumes rep: "sl_rep s as"
  obtains us vs u where "as = us @ vs" "\<forall>a \<in> set us. keyAt (heap s) a < k"
    "\<forall>a \<in> set vs. \<not> keyAt (heap s) a < k"
    "findUpdate (heap s) k (currentLevel s) (header s) (replicate (maxLevel s + 1) None) =
       Some (predAt (heap s) 0 (header s # us), u)"
    "getForward (heap s) (predAt (heap s) 0 (header s # us)) 0 =
       Some (case vs of [] \<Rightarrow> None | b # _ \<Rightarrow> Some b)"
    "matchNode (heap s) (case vs of [] \<Rightarrow> None | b # _ \<Rightarrow> Some b) k =
       Some (case vs of [] \<Rightarrow> None | b # _ \<Rightarrow> if keyAt (heap s) b = k then Some (b, the (heap s b)) else None)"
    "length u = maxLevel s + 1"
    "\<forall>j \<le> currentLevel s. u ! j = Some (predAt (heap s) j (header s # us))"
proof -
  let ?h = "heap s"
  obtain us vs where s: "as = us @ vs" "\<forall>a \<in> set us. keyAt ?h a < k" "\<forall>a \<in> set vs. \<not> keyAt ?h a < k"
    "linked ?h (header s # us @ vs)"
    "getForward ?h (predAt ?h 0 (header s # us)) 0 = Some (case vs of [] \<Rightarrow> None | b # _ \<Rightarrow> Some b)"
    using rep by (rule sl_rep_split)
  have "\<exists>u. findUpdate ?h k (currentLevel s) (header s) (replicate (maxLevel s + 1) None) =
       Some (predAt ?h 0 (header s # us), u) \<and> length u = length (replicate (maxLevel s + 1) (None :: addr option)) \<and>
     (\<forall>j \<le> currentLevel s. u ! j = Some (predAt ?h j (header s # us))) \<and>
     (\<forall>j > currentLevel s. u ! j = replicate (maxLevel s + 1) None ! j)"
    using s rep by (intro findUpdate_spec) (auto simp: sl_rep_def)
  then obtain u where "findUpdate ?h k (currentLevel s) (header s) (replicate (maxLevel s + 1) None) =
       Some (predAt ?h 0 (header s # us), u)" "length u = maxLevel s + 1"
     "\<forall>j \<le> currentLevel s. u ! j = Some (predAt ?h j (header s # us))" by auto
  moreover have "matchNode ?h (case vs of [] \<Rightarrow> None | b # _ \<Rightarrow> Some b) k =
    Some (case vs of [] \<Rightarrow> None | b # _ \<Rightarrow> if keyAt ?h b = k then Some (b, the (?h b)) else None)"
    using s rep by (intro matchNode_spec [of _ "header s # us"]) (auto simp: sl_rep_def sorted_wrt_append)
  ultimately show thesis using s by (intro that [of us vs u])
qed

lemma sl_map_split:
  assumes rep: "sl_rep s (us @ vs)" and "\<forall>a \<in> set us. keyAt (heap s) a < k"
    "\<forall>a \<in> set vs. \<not> keyAt (heap s) a < k"
  shows "sl_map s k =
    (case vs of [] \<Rightarrow> None | b # _ \<Rightarrow> if keyAt (heap s) b = k then Some (snd (pairAt (heap s) b)) else None)"
  unfolding sl_list_rep [OF rep]
  using assms by (intro map_of_pairs_split) (simp_all add: sl_rep_def)

lemma sl_insert_rep:
  assumes rep: "sl_rep s as"
  shows "\<exists>s'. sl_insert k v s = Some (s', sl_map s k = None) \<and> sl_inv s' \<and>
     sl_list s' = alInsert k v (sl_list s)"
  using rep
proof (rule sl_find_rep [where k = k])
  let ?h = "heap s"
  fix us vs u
  assume s: "as = us @ vs" "\<forall>a \<in> set us. keyAt ?h a < k" "\<forall>a \<in> set vs. \<not> keyAt ?h a < k"
    and f: "findUpdate ?h k (currentLevel s) (header s) (replicate (maxLevel s + 1) None) =
       Some (predAt ?h 0 (header s # us), u)"
    "getForward ?h (predAt ?h 0 (header s # us)) 0 = Some (case vs of [] \<Rightarrow> None | b # _ \<Rightarrow> Some b)"
    "matchNode ?h (case vs of [] \<Rightarrow> None | b # _ \<Rightarrow> Some b) k =
       Some (case vs of [] \<Rightarrow> None | b # _ \<Rightarrow> if keyAt ?h b = k then Some (b, the (?h b)) else None)"
    and u: "length u = maxLevel s + 1" "\<forall>j \<le> currentLevel s. u ! j = Some (predAt ?h j (header s # us))"
  note m = sl_map_split [OF rep [unfolded s(1)] s(2,3)]
  show ?thesis
  proof (cases "\<exists>b bs. vs = b # bs \<and> keyAt ?h b = k")
    case True
    then obtain b bs where b: "vs = b # bs" "keyAt ?h b = k" by blast
    have "wfNode ?h b" using rep s(1) b(1) linked_wf [of ?h "header s # as" b] by (simp add: sl_rep_def)
    then obtain n where n: "?h b = Some n" by (auto simp: wfNode_def)
    then have k: "nkey n = k" using b(2) by (simp add: keyAt_def)
    note hit = sl_insert_hit [of s us b bs n v]
    have "sl_insert k v s = Some (s\<lparr>heap := ?h(b \<mapsto> n\<lparr>nval := v\<rparr>)\<rparr>, False)"
      using f b n by (simp add: sl_insert_def)
    then show ?thesis using hit rep s b n k m by (auto simp: sl_inv_def)
  next
    case False
    then have none: "(case vs of [] \<Rightarrow> None | b # _ \<Rightarrow>
        if keyAt ?h b = k then Some (b, the (?h b)) else None) = None" by (auto split: list.split)
    have "sorted_wrt (<) (map (keyAt ?h) vs)" using rep s(1) by (simp add: sl_rep_def sorted_wrt_append)
    with False s(3) have "\<forall>a \<in> set vs. k < keyAt ?h a" by (cases vs) auto
    then obtain s' where "insertNew k v u s = Some s'" "sl_rep s' (us @ nextAddr s # vs)"
      "sl_list s' = alInsert k v (sl_list s)"
      using insertNew_rep [OF rep [unfolded s(1)] s(2) _ u] by blast
    moreover have "sl_map s k = None" using False m by (auto split: list.splits)
    ultimately show ?thesis using f none by (auto simp: sl_insert_def sl_inv_def)
  qed
qed

subsection \<open>Removal\<close>

lemma alDelete_split:
  fixes h :: "('k::linorder, 'v) heap"
  assumes "sorted_wrt (<) (map (keyAt h) (us @ b # bs))" "keyAt h b = k"
  shows "alDelete k (map (pairAt h) (us @ b # bs)) = map (pairAt h) (us @ bs)"
proof -
  have "filter (\<lambda>a. keyAt h a \<noteq> k) us = us" "filter (\<lambda>a. keyAt h a \<noteq> k) bs = bs"
    using assms by (auto simp: filter_id_conv sorted_wrt_append)
  then show ?thesis using assms(2) by (simp add: alDelete_def filter_map comp_def)
qed

lemma alDelete_id: "map_of ps k = None \<Longrightarrow> alDelete k ps = ps"
  by (auto simp: alDelete_def filter_id_conv map_of_eq_None_iff)

lemma unlink_rep:
  assumes rep: "sl_rep s (us @ x # bs)" and len: "length u = maxLevel s + 1"
    and u: "\<forall>j \<le> currentLevel s. u ! j = Some (predAt (heap s) j (header s # us))"
  shows "\<exists>h'. unlinkLevels u x [0..<currentLevel s + 1] (heap s) = Some h' \<and> shape h' = shape (heap s) \<and>
     linked h' (header s # us @ bs)"
proof -
  let ?h = "heap s" and ?c = "header s"
  have lk: "linked ?h (?c # us @ x # bs)" and dist: "distinct (?c # us @ x # bs)"
    and lc: "lvl ?h ?c = maxLevel s" "currentLevel s \<le> maxLevel s" and lx: "lvl ?h x \<le> currentLevel s"
    using rep by (simp_all add: sl_rep_def)
  have x: "wfNode ?h x" using linked_wf [OF lk, of x] by simp
  have cond: "i < length u \<and> (\<exists>p f. u ! i = Some p \<and> p \<noteq> x \<and> getForward ?h p i = Some f \<and>
      (f = Some x \<longleftrightarrow> i \<le> lvl ?h x)) \<and> (i \<le> lvl ?h x \<longrightarrow> getForward ?h x i \<noteq> None)"
    if "i \<in> set [0..<currentLevel s + 1]" for i
  proof -
    let ?p = "predAt ?h i (?c # us)"
    have i: "i \<le> currentLevel s" "i \<le> lvl ?h ?c" using that lc by auto
    have "?p \<in> set (?c # us)" using predAt_in [OF i(2)] by blast
    then have "?p \<noteq> x" using dist by auto
    moreover have "getForward ?h ?p i = Some (nextAt ?h i (x # bs))" using lk i(2) by (rule predAt_next)
    moreover have "nextAt ?h i (x # bs) = Some x \<longleftrightarrow> i \<le> lvl ?h x"
    proof (cases "i \<le> lvl ?h x")
      case False
      have "nextAt ?h i bs \<noteq> Some x" using dist by (auto simp: nextAt_def find_Some_iff)
      with False show ?thesis by (simp add: nextAt_def)
    qed (simp add: nextAt_def)
    ultimately show ?thesis using u len i lc x wfNode_get by auto
  qed
  obtain h' where h': "unlinkLevels u x [0..<currentLevel s + 1] ?h = Some h'" "shape h' = shape ?h"
    "\<And>a l. getForward h' a l = (if l \<in> set [0..<currentLevel s + 1] \<and> l \<le> lvl ?h x \<and> u ! l = Some a
        then getForward ?h x l else getForward ?h a l)"
    using unlinkLevels_spec [OF sorted_upt distinct_upt cond] by blast
  have "linked h' (?c # us @ bs)"
    using lx lc u by (intro linked_unsplice [OF lk dist _ h'(2)]) (auto simp: h'(3))
  with h'(1,2) show ?thesis by blast
qed

lemma sl_remove_hit:
  assumes rep: "sl_rep s (us @ x # bs)" and sh: "shape h' = shape (heap s)"
    and lk: "linked h' (header s # us @ bs)"
  shows "\<exists>l. shrinkLevel h' (header s) (currentLevel s) = Some l \<and>
    sl_rep (s\<lparr>heap := h', currentLevel := l, elementCount := elementCount s - 1\<rparr>) (us @ bs)"
proof -
  let ?h = "heap s" and ?c = "header s"
  have lv: "lvl h' a = lvl ?h a" for a by (rule same_lvl) (simp add: sh)
  have cl: "currentLevel s \<le> lvl h' ?c" using rep by (simp add: sl_rep_def lv)
  have "i \<le> currentLevel s \<Longrightarrow> getForward h' ?c i = Some (nextAt h' i (us @ bs))" for i
    using lk cl by (simp add: nodeOk_def)
  from shrinkLevel_spec [OF this, of "currentLevel s"]
  obtain l where l: "l \<le> currentLevel s" "shrinkLevel h' ?c (currentLevel s) = Some l"
    "0 < l \<longrightarrow> nextAt h' l (us @ bs) \<noteq> None"
    "\<forall>i. l < i \<and> i \<le> currentLevel s \<longrightarrow> nextAt h' i (us @ bs) = None" by auto
  have lvs: "lvl h' a \<le> l" if a: "a \<in> set (us @ bs)" for a
  proof (rule ccontr)
    assume "\<not> lvl h' a \<le> l"
    moreover have "lvl h' a \<le> currentLevel s" using rep a by (auto simp: sl_rep_def lv)
    ultimately have "nextAt h' (lvl h' a) (us @ bs) = None" using l(4) by simp
    with a show False by (auto simp: nextAt_None filter_empty_conv)
  qed
  have top: "\<exists>a \<in> set (us @ bs). lvl h' a = l" if "0 < l"
  proof -
    obtain a where "nextAt h' l (us @ bs) = Some a" using l(3) \<open>0 < l\<close> by auto
    then have "a \<in> set (us @ bs)" "l \<le> lvl h' a" by (blast dest: nextAt_Some)+
    with lvs [of a] show ?thesis by (intro bexI [of _ a]) auto
  qed
  have keys: "map (keyAt h') (us @ bs) = map (keyAt ?h) (us @ bs)"
  proof (rule map_cong)
    fix a assume "a \<in> set (us @ bs)"
    then have "wfNode ?h a" using rep linked_wf [of ?h "?c # us @ x # bs" a] by (auto simp: sl_rep_def)
    then have "pairAt h' a = pairAt ?h a" by (intro same_pairAt wfNode_Some) (simp_all add: sh)
    then show "keyAt h' a = keyAt ?h a" by (simp flip: fst_pairAt)
  qed simp
  have "\<forall>a. h' a \<noteq> None \<longrightarrow> a < nextAddr s"
    using rep unfolding sl_rep_def same_None [OF sh] by blast
  moreover have "sorted_wrt (<) (map (keyAt h') (us @ bs))"
    unfolding keys using rep by (simp add: sl_rep_def sorted_wrt_append)
  moreover have "distinct (?c # us @ bs)" "lvl h' ?c = maxLevel s" "currentLevel s \<le> maxLevel s"
    "elementCount s = int (length (us @ x # bs))" using rep by (simp_all add: sl_rep_def lv)
  ultimately have "sl_rep (s\<lparr>heap := h', currentLevel := l, elementCount := elementCount s - 1\<rparr>) (us @ bs)"
    unfolding sl_rep_def using lk lvs top l(1) by simp
  with l(2) show ?thesis by blast
qed

lemma sl_remove_rep:
  assumes rep: "sl_rep s as"
  shows "\<exists>s'. sl_remove k s = Some (s', sl_map s k \<noteq> None) \<and> sl_inv s' \<and>
     sl_list s' = alDelete k (sl_list s)"
  using rep
proof (rule sl_find_rep [where k = k])
  let ?h = "heap s"
  fix us vs u
  assume s: "as = us @ vs" "\<forall>a \<in> set us. keyAt ?h a < k" "\<forall>a \<in> set vs. \<not> keyAt ?h a < k"
    and f: "findUpdate ?h k (currentLevel s) (header s) (replicate (maxLevel s + 1) None) =
       Some (predAt ?h 0 (header s # us), u)"
    "getForward ?h (predAt ?h 0 (header s # us)) 0 = Some (case vs of [] \<Rightarrow> None | b # _ \<Rightarrow> Some b)"
    "matchNode ?h (case vs of [] \<Rightarrow> None | b # _ \<Rightarrow> Some b) k =
       Some (case vs of [] \<Rightarrow> None | b # _ \<Rightarrow> if keyAt ?h b = k then Some (b, the (?h b)) else None)"
    and u: "length u = maxLevel s + 1" "\<forall>j \<le> currentLevel s. u ! j = Some (predAt ?h j (header s # us))"
  note m = sl_map_split [OF rep [unfolded s(1)] s(2,3)]
  show ?thesis
  proof (cases "\<exists>b bs. vs = b # bs \<and> keyAt ?h b = k")
    case True
    then obtain b bs where b: "vs = b # bs" "keyAt ?h b = k" by blast
    have rep': "sl_rep s (us @ b # bs)" using rep s(1) b(1) by simp
    obtain h' where h': "unlinkLevels u b [0..<currentLevel s + 1] ?h = Some h'" "shape h' = shape ?h"
      "linked h' (header s # us @ bs)" using unlink_rep [OF rep' u] by blast
    obtain l where l: "shrinkLevel h' (header s) (currentLevel s) = Some l"
      and r: "sl_rep (s\<lparr>heap := h', currentLevel := l, elementCount := elementCount s - 1\<rparr>) (us @ bs)"
      using sl_remove_hit [OF rep' h'(2,3)] by blast
    let ?s' = "s\<lparr>heap := h', currentLevel := l, elementCount := elementCount s - 1\<rparr>"
    have "sl_remove k s = Some (?s', True)" using f b h'(1) l by (simp add: sl_remove_def)
    moreover have "pairAt h' a = pairAt ?h a" if "a \<in> set (us @ bs)" for a
      using that rep' linked_wf [of ?h "header s # us @ b # bs" a]
      by (intro same_pairAt wfNode_Some) (auto simp: sl_rep_def h'(2))
    then have "sl_list ?s' = alDelete k (sl_list s)"
      unfolding sl_list_rep [OF r] sl_list_rep [OF rep']
      using rep' b(2) by (subst alDelete_split) (auto simp: sl_rep_def)
    ultimately show ?thesis using r m b by (auto simp: sl_inv_def)
  next
    case False
    then have "(case vs of [] \<Rightarrow> None | b # _ \<Rightarrow>
        if keyAt ?h b = k then Some (b, the (?h b)) else None) = None" by (auto split: list.split)
    moreover have "sl_map s k = None" using False m by (auto split: list.splits)
    ultimately show ?thesis using f rep by (auto simp: sl_remove_def sl_inv_def alDelete_id)
  qed
qed

subsection \<open>Construction and clearing\<close>

lemma sl_new_rep: "sl_rep (sl_new dk dv m r) []"
  by (auto simp: sl_rep_def sl_new_def mkNode_def nodeOk_def wfNode_def lvl_def getForward_def nextAt_def
      less_Suc_eq nth_Cons')

lemma sl_clear_rep:
  assumes rep: "sl_rep s as"
  shows "\<exists>s'. sl_clear s = Some s' \<and> sl_rep s' []"
proof -
  let ?h = "heap s" and ?c = "header s"
  have c: "nodeOk ?h ?c as" "lvl ?h ?c = maxLevel s" "currentLevel s \<le> maxLevel s"
    "\<forall>a \<in> set as. lvl ?h a \<le> currentLevel s" using rep by (simp_all add: sl_rep_def)
  have "i \<in> set [0..<currentLevel s + 1] \<Longrightarrow> getForward ?h ?c i \<noteq> None" for i
    using c by (auto simp: nodeOk_def)
  then obtain h' where h': "clearLevels ?c [0..<currentLevel s + 1] ?h = Some h'" "shape h' = shape ?h"
    "\<And>a l. getForward h' a l =
       (if a = ?c \<and> l \<in> set [0..<currentLevel s + 1] then Some None else getForward ?h a l)"
    using clearLevels_spec by blast
  have lv: "lvl h' a = lvl ?h a" for a by (rule same_lvl) (simp add: h'(2))
  have wf: "wfNode h' ?c" using c(1) same_wfNode [of h' ?c ?h] by (simp add: h'(2) nodeOk_def)
  have "getForward h' ?c i = Some None" if i: "i \<le> lvl h' ?c" for i
  proof (cases "i \<le> currentLevel s")
    case False
    then have "nextAt ?h i as = None" using c(4) by (auto simp: nextAt_None filter_empty_conv)
    with False i c show ?thesis by (simp add: h'(3) lv nodeOk_def)
  qed (simp add: h'(3))
  then have lk: "linked h' [?c]" using wf by (simp add: nodeOk_def nextAt_def)
  have "\<forall>a. h' a \<noteq> None \<longrightarrow> a < nextAddr s"
    using rep unfolding sl_rep_def same_None [OF h'(2)] by blast
  with lk lv c have "sl_rep (s\<lparr>heap := h', currentLevel := 0, elementCount := 0\<rparr>) []"
    by (simp add: sl_rep_def)
  with h'(1) show ?thesis by (simp add: sl_clear_def)
qed

subsection \<open>The skip list is an ordered map\<close>

interpretation slist: ordered_map sl_inv sl_list sl_insert sl_search sl_remove sl_clear sl_size
proof unfold_locales
  fix s :: "('k::linorder, 'v) skiplist" and k :: 'k and v :: 'v
  assume "sl_inv s"
  then obtain as where rep: "sl_rep s as" by (auto simp: sl_inv_def)
  show "alSorted (sl_list s)" by (simp add: sl_list_rep [OF rep] sl_rep_sorted [OF rep])
  show "\<exists>s'. sl_insert k v s = Some (s', sl_map s k = None) \<and> sl_inv s' \<and>
     sl_list s' = alInsert k v (sl_list s)" using rep by (rule sl_insert_rep)
  show "sl_search k s = Some (sl_map s k)" using rep by (rule sl_search_rep)
  show "\<exists>s'. sl_remove k s = Some (s', sl_map s k \<noteq> None) \<and> sl_inv s' \<and>
     sl_list s' = alDelete k (sl_list s)" using rep by (rule sl_remove_rep)
  show "\<exists>s'. sl_clear s = Some s' \<and> sl_inv s' \<and> sl_list s' = []"
    using sl_clear_rep [OF rep] sl_list_rep by (fastforce simp: sl_inv_def)
  show "sl_size s = int (length (sl_list s))"
    unfolding sl_list_rep [OF rep] using rep by (simp add: sl_size_def sl_rep_def)
qed

lemma sl_new_inv: "sl_inv (sl_new dk dv m r)"
  unfolding sl_inv_def by (rule exI [of _ "[]"]) (rule sl_new_rep)

lemma sl_new_list: "sl_list (sl_new dk dv m r) = []"
  by (simp add: sl_list_rep [OF sl_new_rep])

lemma sl_pairs_inv: "sl_inv s \<Longrightarrow> sl_pairs s = Some (sl_list s)"
  by (auto simp: sl_inv_def sl_pairs_rep sl_list_rep)

lemma sl_contains_inv: "sl_inv s \<Longrightarrow> sl_contains k s = Some (sl_map s k \<noteq> None)"
  by (simp add: sl_contains_def slist.lookup)

subsection \<open>Histories of operations\<close>

datatype ('k, 'v) sl_op = OpInsert 'k 'v | OpRemove 'k | OpSearch 'k | OpContains 'k | OpSize | OpClear

datatype 'v sl_result = RBool bool | RValue "'v option" | RInt int | RUnit

fun sl_step :: "('k::linorder, 'v) sl_op \<Rightarrow> ('k, 'v) skiplist \<Rightarrow> (('k, 'v) skiplist \<times> 'v sl_result) option" where
  "sl_step (OpInsert k v) s = map_option (map_prod id RBool) (sl_insert k v s)"
| "sl_step (OpRemove k) s = map_option (map_prod id RBool) (sl_remove k s)"
| "sl_step (OpSearch k) s = map_option (\<lambda>v. (s, RValue v)) (sl_search k s)"
| "sl_step (OpContains k) s = map_option (\<lambda>b. (s, RBool b)) (sl_contains k s)"
| "sl_step OpSize s = Some (s, RInt (sl_size s))"
| "sl_step OpClear s = map_option (\<lambda>s'. (s', RUnit)) (sl_clear s)"

fun sl_run :: "('k::linorder, 'v) sl_op list \<Rightarrow> ('k, 'v) skiplist \<Rightarrow> (('k, 'v) skiplist \<times> 'v sl_result list) option" where
  "sl_run [] s = Some (s, [])"
| "sl_run (a # ops) s = do { (s1, x) \<leftarrow> sl_step a s; (s2, xs) \<leftarrow> sl_run ops s1; Some (s2, x # xs) }"

text \<open>The same history on a sorted association list.\<close>

fun al_step :: "('k::linorder, 'v) sl_op \<Rightarrow> ('k \<times> 'v) list \<Rightarrow> ('k \<times> 'v) list \<times> 'v sl_result" where
  "al_step (OpInsert k v) ps = (alInsert k v ps, RBool (map_of ps k = None))"
| "al_step (OpRemove k) ps = (alDelete k ps, RBool (map_of ps k \<noteq> None))"
| "al_step (OpSearch k) ps = (ps, RValue (map_of ps k))"
| "al_step (OpContains k) ps = (ps, RBool (map_of ps k \<noteq> None))"
| "al_step OpSize ps = (ps, RInt (int (length ps)))"
| "al_step OpClear ps = ([], RUnit)"

fun al_run :: "('k::linorder, 'v) sl_op list \<Rightarrow> ('k \<times> 'v) list \<Rightarrow> ('k \<times> 'v) list \<times> 'v sl_result list" where
  "al_run [] ps = (ps, [])"
| "al_run (a # ops) ps = (let (ps1, x) = al_step a ps; (ps2, xs) = al_run ops ps1 in (ps2, x # xs))"

lemma sl_step_inv:
  assumes "sl_inv s"
  shows "\<exists>s'. sl_step a s = Some (s', snd (al_step a (sl_list s))) \<and> sl_inv s' \<and>
    sl_list s' = fst (al_step a (sl_list s))"
proof (cases a)
  case (OpInsert k v)
  then show ?thesis using slist.ins [OF assms, of k v] by auto
next
  case (OpRemove k)
  then show ?thesis using slist.del [OF assms, of k] by auto
next
  case OpClear
  then show ?thesis using slist.clear [OF assms] by auto
qed (use assms in \<open>simp_all add: slist.lookup sl_contains_inv slist.count\<close>)

lemma sl_run_inv:
  assumes "sl_inv s"
  shows "\<exists>s'. sl_run ops s = Some (s', snd (al_run ops (sl_list s))) \<and> sl_inv s' \<and>
    sl_list s' = fst (al_run ops (sl_list s))"
  using assms
proof (induction ops arbitrary: s)
  case (Cons a ops)
  obtain s1 where s1: "sl_step a s = Some (s1, snd (al_step a (sl_list s)))" "sl_inv s1"
    "sl_list s1 = fst (al_step a (sl_list s))" using sl_step_inv [OF Cons.prems] by blast
  with Cons.IH [OF s1(2)] show ?case by (auto simp: split_beta Let_def)
qed simp

subsection \<open>Properties\<close>

text \<open>
  C8: any sequence of insertions, removals, lookups, size queries and clears on a new skip list
  runs to its end without an undefined access, for every outcome of the random levels, returns
  exactly what the sorted association list returns, and leaves exactly its pairs on level 0.
\<close>

theorem skiplist_refines_map:
  "\<exists>s. sl_run ops (sl_new dk dv m r) = Some (s, snd (al_run ops [])) \<and> sl_inv s \<and>
     sl_pairs s = Some (fst (al_run ops [])) \<and> alSorted (fst (al_run ops []))"
proof -
  obtain s where s: "sl_run ops (sl_new dk dv m r) = Some (s, snd (al_run ops []))" "sl_inv s"
      "sl_list s = fst (al_run ops [])"
    using sl_run_inv [OF sl_new_inv [of dk dv m r], of ops] by (auto simp: sl_new_list)
  from slist.sorted [OF s(2)] s show ?thesis by (simp add: sl_pairs_inv)
qed

text \<open>
  \<open>insert\<close> into a well-formed list terminates, returns true exactly for a new key, and the list
  is again well formed and holds the pairs of before with \<open>k\<close> bound to \<open>v\<close>, in key order.
\<close>

lemma insert_correct:
  assumes "sl_inv s"
  shows "\<exists>s'. sl_insert k v s = Some (s', sl_search k s = Some None) \<and> sl_inv s' \<and>
    sl_pairs s' = Some (alInsert k v (sl_list s)) \<and> sl_search k s' = Some (Some v) \<and>
    (\<forall>k'. k' \<noteq> k \<longrightarrow> sl_search k' s' = sl_search k' s)"
proof -
  obtain s' where "sl_insert k v s = Some (s', sl_map s k = None)" "sl_inv s'"
    "sl_list s' = alInsert k v (sl_list s)" "sl_map s' = (sl_map s)(k \<mapsto> v)"
    using assms by (rule slist.insE)
  then show ?thesis using assms by (simp add: sl_pairs_inv slist.lookup)
qed

text \<open>
  \<open>remove\<close> terminates, returns true exactly for a key of the list, unlinks its node from every
  level and keeps the list well formed; the other pairs stay.
\<close>

lemma remove_correct:
  assumes "sl_inv s"
  shows "\<exists>s'. sl_remove k s = Some (s', sl_search k s \<noteq> Some None) \<and> sl_inv s' \<and>
    sl_pairs s' = Some (alDelete k (sl_list s)) \<and> sl_search k s' = Some None \<and>
    (\<forall>k'. k' \<noteq> k \<longrightarrow> sl_search k' s' = sl_search k' s)"
proof -
  obtain s' where "sl_remove k s = Some (s', sl_map s k \<noteq> None)" "sl_inv s'"
    "sl_list s' = alDelete k (sl_list s)" "sl_map s' = (sl_map s)(k := None)"
    using assms by (rule slist.delE)
  then show ?thesis using assms by (simp add: sl_pairs_inv slist.lookup)
qed

text \<open>The witness removes a key from a list of two nodes, one of them on level 1.\<close>

text \<open>
  The level drawn for a new node counts the draws below a quarter before the first other one,
  cut at \<open>maxLevel - 1\<close>; so no node outgrows the header.
\<close>

lemma random_level:
  "let l = fst (getRandomLevel m r) in
     l \<le> m - 1 \<and> (\<forall>i < l. r i < kProbability) \<and> (l < m - 1 \<longrightarrow> \<not> r l < kProbability)"
  using randomLevelLoop_draws [of 0 _ m r] getRandomLevel_bound [of m r]
  by (auto simp: getRandomLevel_def Let_def)

text \<open>The pairs that the chain of level \<open>i\<close> visits, from the header to its end.\<close>

definition levelPairs :: "nat \<Rightarrow> ('k, 'v) skiplist \<Rightarrow> ('k \<times> 'v) list option" where
  "levelPairs i s = do { f \<leftarrow> getForward (heap s) (header s) i; traverse (heap s) i f [] }"

lemma levelPairs_rep:
  assumes "sl_rep s as" "i \<le> maxLevel s"
  shows "levelPairs i s = Some (map (pairAt (heap s)) (filter (\<lambda>a. i \<le> lvl (heap s) a) as))"
proof -
  from assms(1) have "nodeOk (heap s) (header s) as" "linked (heap s) as" "lvl (heap s) (header s) = maxLevel s"
    by (simp_all add: sl_rep_def)
  with assms(2) traverse_spec [of "heap s" as i "[]"] show ?thesis by (simp add: levelPairs_def nodeOk_def)
qed

lemma subseq_levels: "subseq (map f (filter (\<lambda>a. Suc i \<le> l a) xs)) (map f (filter (\<lambda>a. i \<le> l a) xs))"
proof -
  have "filter (\<lambda>a. Suc i \<le> l a) xs = filter (\<lambda>a. Suc i \<le> l a) (filter (\<lambda>a. i \<le> l a) xs)"
    by (simp add: Suc_le_eq conj_commute) (metis less_imp_le)
  then show ?thesis by (metis subseq_filter_left subseq_map)
qed

text \<open>
  Every level of a well-formed list is a chain that ends, each level is a subsequence of the
  one below it, level 0 holds all pairs, the current level is not empty unless it is 0, and the
  levels above it are empty.
\<close>

lemma level_chains:
  assumes "sl_inv s"
  shows "\<exists>chain. (\<forall>i \<le> maxLevel s. levelPairs i s = Some (chain i)) \<and> chain 0 = sl_list s \<and>
    (\<forall>i < maxLevel s. subseq (chain (Suc i)) (chain i)) \<and>
    (0 < currentLevel s \<longrightarrow> chain (currentLevel s) \<noteq> []) \<and> (\<forall>i > currentLevel s. chain i = [])"
proof -
  obtain as where rep: "sl_rep s as" using assms by (auto simp: sl_inv_def)
  let ?chain = "\<lambda>i. map (pairAt (heap s)) (filter (\<lambda>a. i \<le> lvl (heap s) a) as)"
  have "\<forall>a \<in> set as. lvl (heap s) a \<le> currentLevel s"
    "0 < currentLevel s \<longrightarrow> (\<exists>a \<in> set as. lvl (heap s) a = currentLevel s)"
    using rep by (simp_all add: sl_rep_def)
  then have "0 < currentLevel s \<longrightarrow> ?chain (currentLevel s) \<noteq> []" "\<forall>i > currentLevel s. ?chain i = []"
    by (auto simp: filter_empty_conv intro: bexI [rotated] eq_refl [OF sym])
  moreover have "\<forall>i < maxLevel s. subseq (?chain (Suc i)) (?chain i)" by (simp only: subseq_levels simp_thms)
  ultimately show ?thesis
    using levelPairs_rep [OF rep] by (intro exI [of _ ?chain]) (simp add: sl_list_rep [OF rep])
qed

end
