(* ===== verification/Persistence.thy ===== *)
theory Persistence
  imports Skip_List_Correct
begin

text \<open>
  Saving and loading the skip list of strings (\<open>dumpFile\<close>, \<open>loadFile\<close>, \<open>parseString\<close> and
  \<open>displayList\<close> of \<open>src/storage/skiplist.h\<close>), on a file system that says which paths can be
  opened for writing, what each readable file holds, and how many bytes the device takes.
\<close>

subsection \<open>Files\<close>

text \<open>
  \<open>fileText p\<close> is None when \<open>std::ifstream\<close> cannot open \<open>p\<close>; \<open>canCreate p\<close> says whether
  \<open>std::ofstream\<close> can; \<open>room p\<close> is the number of bytes that reach the device (a full disk cuts the
  rest, which the code does not notice: it never tests the stream after opening it).
\<close>

record filesys =
  fileText :: "string \<Rightarrow> string option"
  canCreate :: "string \<Rightarrow> bool"
  room :: "string \<Rightarrow> nat"

definition dumpLine :: "string \<times> string \<Rightarrow> string" where
  "dumpLine kv = fst kv @ [kDelimiter] @ snd kv @ [LF]"

definition dumpText :: "(string \<times> string) list \<Rightarrow> string" where
  "dumpText kvs = concat (map dumpLine kvs)"

definition dumpFile :: "string \<Rightarrow> filesys \<Rightarrow> (string, string) skiplist \<Rightarrow> (filesys \<times> bool) option"
  where
  "dumpFile path fs s =
     (if \<not> canCreate fs path then Some (fs, False)
      else do {
        kvs \<leftarrow> sl_pairs s;
        Some (fs\<lparr>fileText := (fileText fs)(path \<mapsto> take (room fs path) (dumpText kvs))\<rparr>, True) })"

text \<open>\<open>std::getline\<close>: the next line and the rest of the stream, None at its end.\<close>

definition getline :: "string \<Rightarrow> (string \<times> string) option" where
  "getline s = (if s = [] then None
     else Some (takeWhile (\<lambda>c. c \<noteq> LF) s, drop 1 (dropWhile (\<lambda>c. c \<noteq> LF) s)))"

definition parseString :: "string \<Rightarrow> (string \<times> string) option" where
  "parseString line =
     (if line = [] then None
      else case str_find [kDelimiter] line of
        None \<Rightarrow> None
      | Some pos \<Rightarrow>
          let key = take pos line; val = drop (pos + 1) line in
          if key = [] then None else Some (key, val))"

lemma getline_shorter: "getline s = Some (l, r) \<Longrightarrow> length r < length s"
proof -
  assume g: "getline s = Some (l, r)"
  then have "s \<noteq> []" "r = drop 1 (dropWhile (\<lambda>c. c \<noteq> LF) s)"
    by (auto simp: getline_def split: if_splits)
  then have "length r = length (dropWhile (\<lambda>c. c \<noteq> LF) s) - 1" "0 < length s" by simp_all
  then show ?thesis using length_dropWhile_le [of "\<lambda>c. c \<noteq> LF" s] by linarith
qed

text \<open>The reading loop of \<open>loadFile\<close>: the pairs of the lines that parse, in file order.\<close>

function readPairs :: "string \<Rightarrow> (string \<times> string) list" where
  "readPairs s =
     (case getline s of
        None \<Rightarrow> []
      | Some (line, rest) \<Rightarrow>
          (case parseString line of
             None \<Rightarrow> readPairs rest
           | Some kv \<Rightarrow> kv # readPairs rest))"
  by pat_completeness auto
termination
  by (relation "measure length") (auto dest: getline_shorter)

declare readPairs.simps [simp del]

fun insertAll :: "('k::linorder \<times> 'v) list \<Rightarrow> ('k, 'v) skiplist \<Rightarrow> ('k, 'v) skiplist option" where
  "insertAll [] s = Some s"
| "insertAll ((k, v) # kvs) s = Option.bind (sl_insert k v s) (\<lambda>(s', b). insertAll kvs s')"

definition loadFile :: "string \<Rightarrow> filesys \<Rightarrow> (string, string) skiplist \<Rightarrow>
    ((string, string) skiplist \<times> bool) option" where
  "loadFile path fs s =
     (case fileText fs path of
        None \<Rightarrow> Some (s, False)
      | Some text \<Rightarrow> map_option (\<lambda>s'. (s', True)) (insertAll (readPairs text) s))"

subsection \<open>Printing the levels\<close>

definition displayNode :: "string \<times> string \<Rightarrow> string" where
  "displayNode kv = fst kv @ '':'' @ snd kv @ '' -> ''"

fun displayLevels :: "(string, string) skiplist \<Rightarrow> nat list \<Rightarrow> string option" where
  "displayLevels s [] = Some []"
| "displayLevels s (i # is) = do {
     f \<leftarrow> getForward (heap s) (header s) i;
     kvs \<leftarrow> traverse (heap s) i f [];
     rest \<leftarrow> displayLevels s is;
     Some (''Level '' @ to_string (int i) @ '': '' @ concat (map displayNode kvs) @ ''NIL'' @ [LF] @ rest) }"

definition displayList :: "(string, string) skiplist \<Rightarrow> string option" where
  "displayList s = map_option
     (\<lambda>levels. [LF] @ ''========== Skip List =========='' @ [LF] @
        ''Element count: '' @ to_string (elementCount s) @ [LF] @
        ''Current level: '' @ to_string (int (currentLevel s)) @ [LF] @ levels @
        ''================================'' @ [LF, LF])
     (displayLevels s (rev [0..<currentLevel s + 1]))"

subsection \<open>Reading back what was written\<close>

text \<open>The pairs whose line reads back as the same pair.\<close>

definition storable :: "string \<times> string \<Rightarrow> bool" where
  "storable kv \<longleftrightarrow> fst kv \<noteq> [] \<and> kDelimiter \<notin> set (fst kv) \<and> LF \<notin> set (fst kv) \<and> LF \<notin> set (snd kv)"

lemma getline_append: "LF \<notin> set l \<Longrightarrow> getline (l @ LF # r) = Some (l, r)"
proof -
  assume l: "LF \<notin> set l"
  then have "takeWhile (\<lambda>c. c \<noteq> LF) (l @ LF # r) = l"
    by (subst takeWhile_append2) auto
  moreover have "dropWhile (\<lambda>c. c \<noteq> LF) (l @ LF # r) = LF # r"
    using l by (subst dropWhile_append2) auto
  ultimately show ?thesis by (simp add: getline_def)
qed

lemma str_find_char: "c \<notin> set l \<Longrightarrow> str_find [c] (l @ c # r) = Some (length l)"
  by (induction l) auto

text \<open>The first delimiter of the line ends the key, wherever it came from.\<close>

lemma parseString_split:
  "k \<noteq> [] \<Longrightarrow> kDelimiter \<notin> set k \<Longrightarrow> parseString (k @ kDelimiter # v) = Some (k, v)"
  by (simp add: parseString_def str_find_char)

lemma readPairs_line:
  assumes "LF \<notin> set l"
  shows "readPairs (l @ LF # r) = (case parseString l of None \<Rightarrow> readPairs r | Some kv \<Rightarrow> kv # readPairs r)"
  by (subst readPairs.simps) (simp add: getline_append [OF assms] split: option.split)

lemma readPairs_dumpText: "\<forall>kv \<in> set kvs. storable kv \<Longrightarrow> readPairs (dumpText kvs) = kvs"
proof (induction kvs)
  case Nil
  then show ?case by (simp add: dumpText_def readPairs.simps getline_def)
next
  case (Cons kv kvs)
  then have kv: "storable kv" "readPairs (dumpText kvs) = kvs" by simp_all
  have "dumpText (kv # kvs) = (fst kv @ kDelimiter # snd kv) @ LF # dumpText kvs"
    by (simp add: dumpText_def dumpLine_def)
  moreover have "LF \<notin> set (fst kv @ kDelimiter # snd kv)"
    using kv(1) by (auto simp: storable_def kDelimiter_def)
  note readPairs_line [OF this, of "dumpText kvs"]
  moreover have "parseString (fst kv @ kDelimiter # snd kv) = Some kv"
    using kv(1) by (simp add: parseString_split storable_def)
  ultimately show ?case using kv(2) by simp
qed

lemma insertAll_inv:
  assumes "sl_inv s"
  shows "\<exists>s'. insertAll kvs s = Some s' \<and> sl_inv s' \<and> sl_map s' = sl_map s ++ map_of (rev kvs)"
  using assms by (rule slist.ins_batch) simp_all

lemma displayLevels_ok:
  assumes "sl_rep s as"
  shows "\<forall>i \<in> set is. i \<le> maxLevel s \<Longrightarrow> displayLevels s is = Some (concat (map (\<lambda>i.
      ''Level '' @ to_string (int i) @ '': '' @
      concat (map displayNode (map (pairAt (heap s)) (filter (\<lambda>a. i \<le> lvl (heap s) a) as))) @
      ''NIL'' @ [LF]) is))"
proof (induction "is")
  case (Cons i js)
  have "linked (heap s) (header s # as)" "lvl (heap s) (header s) = maxLevel s"
    using assms by (simp_all add: sl_rep_def)
  then have "getForward (heap s) (header s) i = Some (nextAt (heap s) i as)" "linked (heap s) as"
    using Cons.prems by (simp_all add: nodeOk_def)
  with Cons show ?case by (simp add: traverse_spec comp_def)
qed simp

lemma loadFile_new:
  assumes "sl_inv s" "sl_list s = []" "fileText fs path = Some body"
  shows "\<exists>s'. loadFile path fs s = Some (s', True) \<and> sl_inv s' \<and> sl_map s' = map_of (rev (readPairs body))"
  using insertAll_inv [OF assms(1), of "readPairs body"] assms(2,3) by (auto simp: loadFile_def)

lemma map_of_rev_alSorted: "alSorted ps \<Longrightarrow> map_of (rev ps) = map_of ps"
  using alSorted_distinct by (metis distinct_rev map_of_inject_set rev_map set_rev)

lemma dumpFile_inv:
  assumes "sl_inv s"
  shows "dumpFile path fs s =
    (if canCreate fs path
     then Some (fs\<lparr>fileText := (fileText fs)(path \<mapsto> take (room fs path) (dumpText (sl_list s)))\<rparr>, True)
     else Some (fs, False))"
  by (simp add: dumpFile_def sl_pairs_inv [OF assms])

subsection \<open>Properties\<close>

text \<open>
  C29: dumping a well-formed list whose keys have no delimiter and whose keys and values have no line
  feed, on a device with room, and loading the file into an empty list gives back the same pairs.
\<close>

theorem dump_load_roundtrip:
  assumes "sl_inv s" "\<forall>kv \<in> set (sl_list s). storable kv"
    and "canCreate fs path" "length (dumpText (sl_list s)) \<le> room fs path"
    and "sl_inv e" "sl_list e = []"
  shows "\<exists>fs' s'. dumpFile path fs s = Some (fs', True) \<and> loadFile path fs' e = Some (s', True) \<and>
    sl_inv s' \<and> sl_pairs s' = sl_pairs s"
proof -
  let ?fs = "fs\<lparr>fileText := (fileText fs)(path \<mapsto> dumpText (sl_list s))\<rparr>"
  have d: "dumpFile path fs s = Some (?fs, True)" using assms(3,4) by (simp add: dumpFile_inv [OF assms(1)])
  obtain s' where s': "loadFile path ?fs e = Some (s', True)" "sl_inv s'"
      "sl_map s' = map_of (rev (readPairs (dumpText (sl_list s))))"
    using loadFile_new [OF assms(5,6), of ?fs path "dumpText (sl_list s)"] by auto
  have "sl_map s' = sl_map s"
    using s'(3) readPairs_dumpText [OF assms(2)] slist.sorted [OF assms(1)] by (simp add: map_of_rev_alSorted)
  then have "sl_list s' = sl_list s"
    using slist.sorted [OF s'(2)] slist.sorted [OF assms(1)] by (intro alSorted_unique)
  with d s' assms(1) show ?thesis by (auto simp: sl_pairs_inv)
qed

theorem dump_load_roundtrip_witness:
  "\<exists>s fs' s'. sl_insert ''k'' ''v w'' (sl_new [] [] 16 (\<lambda>_. 1)) = Some (s, True) \<and>
    dumpFile ''d'' \<lparr>fileText = Map.empty, canCreate = (\<lambda>_. True), room = (\<lambda>_. 100)\<rparr> s = Some (fs', True) \<and>
    loadFile ''d'' fs' (sl_new [] [] 16 (\<lambda>_. 1)) = Some (s', True) \<and> sl_pairs s' = Some [(''k'', ''v w'')]"
proof -
  obtain s where s: "sl_insert ''k'' ''v w'' (sl_new [] [] 16 (\<lambda>_. 1)) = Some (s, True)" "sl_inv s"
      "sl_list s = [(''k'', ''v w'')]"
    using slist.ins [OF sl_new_inv [of "[]::string" "[]" 16 "\<lambda>_. 1"], of "''k''" "''v w''"]
    by (auto simp: sl_new_list alInsert_def)
  have "\<forall>kv \<in> set (sl_list s). storable kv" by (simp add: s(3) storable_def kDelimiter_def)
  from dump_load_roundtrip [OF s(2) this _ _ sl_new_inv sl_new_list,
      of "\<lparr>fileText = Map.empty, canCreate = (\<lambda>_. True), room = (\<lambda>_. 100)\<rparr>" "''d''" "[]" "[]" 16 "\<lambda>_. 1"]
  show ?thesis using s by (auto simp: sl_pairs_inv dumpText_def dumpLine_def)
qed

text \<open>
  A key that contains the delimiter is not escaped: the pair reads back with the key cut at its
  first delimiter and the rest of the key in front of the value.
\<close>

lemma dump_load_colon:
  assumes "sl_inv s" "sl_list s = [(k1 @ kDelimiter # k2, v)]" "k1 \<noteq> []" "kDelimiter \<notin> set k1"
    and "LF \<notin> set k1" "LF \<notin> set k2" "LF \<notin> set v"
    and "canCreate fs path" "length (dumpText (sl_list s)) \<le> room fs path"
    and "sl_inv e" "sl_list e = []"
  shows "\<exists>fs' s'. dumpFile path fs s = Some (fs', True) \<and> loadFile path fs' e = Some (s', True) \<and>
    sl_map s' = [k1 \<mapsto> k2 @ kDelimiter # v]"
proof -
  let ?fs = "fs\<lparr>fileText := (fileText fs)(path \<mapsto> dumpText (sl_list s))\<rparr>"
  have "dumpFile path fs s = Some (?fs, True)" using assms(8,9) by (simp add: dumpFile_inv [OF assms(1)])
  moreover have "dumpText (sl_list s) = (k1 @ kDelimiter # k2 @ kDelimiter # v) @ LF # []"
    by (simp add: assms(2) dumpText_def dumpLine_def)
  moreover have "readPairs ((k1 @ kDelimiter # k2 @ kDelimiter # v) @ LF # []) = [(k1, k2 @ kDelimiter # v)]"
    using assms(3-7) by (subst readPairs_line)
      (auto simp: kDelimiter_def readPairs.simps [of "[]"] getline_def parseString_split [unfolded kDelimiter_def])
  ultimately show ?thesis
    using loadFile_new [OF assms(10,11), of ?fs path "dumpText (sl_list s)"] by auto
qed

end
