(* ===== verification/KV_Store.thy ===== *)
theory KV_Store
  imports Persistence
begin

text \<open>
  The storage engine \<open>KVStore\<close> of \<open>src/storage/kvstore.h\<close> and \<open>kvstore.cpp\<close>: the skip list of
  strings behind checks for empty keys and empty paths, and the contract \<open>kv_engine\<close> that the
  server relies on.  Log output is not modelled.
\<close>

record kvstore = skiplistOf :: "(string, string) skiplist"

definition kv_new :: "nat \<Rightarrow> (nat \<Rightarrow> rat) \<Rightarrow> kvstore" where
  "kv_new m r = \<lparr>skiplistOf = sl_new [] [] m r\<rparr>"

definition kv_put :: "string \<Rightarrow> string \<Rightarrow> kvstore \<Rightarrow> (kvstore \<times> bool) option" where
  "kv_put key val st =
     (if key = [] then Some (st, False)
      else do { (s, isNew) \<leftarrow> sl_insert key val (skiplistOf st);
                Some (st\<lparr>skiplistOf := s\<rparr>, isNew) })"

text \<open>\<open>get\<close> returns the value instead of writing the output parameter; None inside is false.\<close>

definition kv_get :: "string \<Rightarrow> kvstore \<Rightarrow> string option option" where
  "kv_get key st = (if key = [] then Some None else sl_search key (skiplistOf st))"

definition kv_del :: "string \<Rightarrow> kvstore \<Rightarrow> (kvstore \<times> bool) option" where
  "kv_del key st =
     (if key = [] then Some (st, False)
      else do { (s, removed) \<leftarrow> sl_remove key (skiplistOf st);
                Some (st\<lparr>skiplistOf := s\<rparr>, removed) })"

definition kv_exists :: "string \<Rightarrow> kvstore \<Rightarrow> bool option" where
  "kv_exists key st = (if key = [] then Some False else sl_contains key (skiplistOf st))"

definition kv_size :: "kvstore \<Rightarrow> int" where
  "kv_size st = sl_size (skiplistOf st)"

definition kv_clear :: "kvstore \<Rightarrow> kvstore option" where
  "kv_clear st = map_option (\<lambda>s. st\<lparr>skiplistOf := s\<rparr>) (sl_clear (skiplistOf st))"

text \<open>The destructor logs the size and destroys the list.\<close>

definition kv_dtor :: "kvstore \<Rightarrow> kvstore option" where
  "kv_dtor st = map_option (\<lambda>s. st\<lparr>skiplistOf := s\<rparr>) (sl_dtor (skiplistOf st))"

definition kv_save :: "string \<Rightarrow> filesys \<Rightarrow> kvstore \<Rightarrow> (filesys \<times> bool) option" where
  "kv_save path fs st = (if path = [] then Some (fs, False) else dumpFile path fs (skiplistOf st))"

definition kv_load :: "string \<Rightarrow> filesys \<Rightarrow> kvstore \<Rightarrow> (kvstore \<times> bool) option" where
  "kv_load path fs st =
     (if path = [] then Some (st, False)
      else do {
        st1 \<leftarrow> kv_clear st;
        (s, ok) \<leftarrow> loadFile path fs (skiplistOf st1);
        Some (st1\<lparr>skiplistOf := s\<rparr>, ok) })"

definition kv_dump :: "kvstore \<Rightarrow> string option" where
  "kv_dump st = displayList (skiplistOf st)"

subsection \<open>Invariant and abstract value\<close>

definition kv_inv :: "kvstore \<Rightarrow> bool" where
  "kv_inv st \<longleftrightarrow> sl_inv (skiplistOf st) \<and> sl_map (skiplistOf st) [] = None"

definition kv_list :: "kvstore \<Rightarrow> (string \<times> string) list" where
  "kv_list st = sl_list (skiplistOf st)"

abbreviation kv_map :: "kvstore \<Rightarrow> string \<Rightarrow> string option" where
  "kv_map st \<equiv> map_of (kv_list st)"

lemma kv_eqI: "skiplistOf st = skiplistOf st' \<Longrightarrow> st = (st'::kvstore)"
  by simp

lemma kv_new_inv [simp]: "kv_inv (kv_new m r)" "kv_list (kv_new m r) = []"
  by (simp_all add: kv_inv_def kv_new_def kv_list_def sl_new_inv sl_new_list)

lemma kv_put_inv:
  assumes "kv_inv st"
  shows "\<exists>st'. kv_put k v st = Some (st', k \<noteq> [] \<and> kv_map st k = None) \<and> kv_inv st' \<and>
    kv_list st' = (if k = [] then kv_list st else alInsert k v (kv_list st))"
proof (cases "k = []")
  case False
  from assms have "sl_inv (skiplistOf st)" by (simp add: kv_inv_def)
  then obtain s where "sl_insert k v (skiplistOf st) = Some (s, kv_map st k = None)" "sl_inv s"
    "sl_list s = alInsert k v (kv_list st)" "sl_map s = (kv_map st)(k \<mapsto> v)"
    unfolding kv_list_def by (rule slist.insE)
  with False assms show ?thesis by (auto simp: kv_put_def kv_inv_def kv_list_def)
qed (simp add: kv_put_def assms)

lemma kv_del_inv:
  assumes "kv_inv st"
  shows "\<exists>st'. kv_del k st = Some (st', kv_map st k \<noteq> None) \<and> kv_inv st' \<and>
    kv_list st' = alDelete k (kv_list st)"
proof (cases "k = []")
  case True
  with assms show ?thesis by (simp add: kv_del_def kv_inv_def kv_list_def alDelete_id)
next
  case False
  from assms have "sl_inv (skiplistOf st)" by (simp add: kv_inv_def)
  then obtain s where "sl_remove k (skiplistOf st) = Some (s, kv_map st k \<noteq> None)" "sl_inv s"
    "sl_list s = alDelete k (kv_list st)" "sl_map s = (kv_map st)(k := None)"
    unfolding kv_list_def by (rule slist.delE)
  with False assms show ?thesis by (auto simp: kv_del_def kv_inv_def kv_list_def)
qed

lemma kv_get_inv: "kv_inv st \<Longrightarrow> kv_get k st = Some (kv_map st k)"
  by (auto simp: kv_get_def kv_inv_def kv_list_def slist.lookup)

lemma kv_exists_inv: "kv_inv st \<Longrightarrow> kv_exists k st = Some (kv_map st k \<noteq> None)"
  by (auto simp: kv_exists_def kv_inv_def kv_list_def sl_contains_inv)

lemma kv_clear_inv:
  assumes "kv_inv st"
  shows "\<exists>st'. kv_clear st = Some st' \<and> kv_inv st' \<and> kv_list st' = []"
proof -
  from assms have "sl_inv (skiplistOf st)" by (simp add: kv_inv_def)
  from slist.clear [OF this] show ?thesis by (auto simp: kv_clear_def kv_inv_def kv_list_def)
qed

lemma kv_size_inv: "kv_inv st \<Longrightarrow> kv_size st = int (length (kv_list st))"
  by (simp add: kv_inv_def kv_size_def kv_list_def slist.count)

lemma kv_size_card: "kv_inv st \<Longrightarrow> kv_size st = int (card (dom (kv_map st)))"
  by (simp add: kv_inv_def kv_size_def kv_list_def slist.count_card)

lemma kv_sorted: "kv_inv st \<Longrightarrow> alSorted (kv_list st)"
  by (simp add: kv_inv_def kv_list_def slist.sorted)

subsection \<open>The contract the server relies on\<close>

text \<open>
  An engine maps non-empty keys to values.  The laws are those of a finite map: what each operation
  returns and what it does to the map.
\<close>

locale kv_engine =
  fixes ok :: "'s \<Rightarrow> bool"
    and view :: "'s \<Rightarrow> string \<Rightarrow> string option"
    and eput :: "string \<Rightarrow> string \<Rightarrow> 's \<Rightarrow> ('s \<times> bool) option"
    and eget :: "string \<Rightarrow> 's \<Rightarrow> string option option"
    and edel :: "string \<Rightarrow> 's \<Rightarrow> ('s \<times> bool) option"
    and eexists :: "string \<Rightarrow> 's \<Rightarrow> bool option"
    and esize :: "'s \<Rightarrow> int"
    and eclear :: "'s \<Rightarrow> 's option"
  assumes finite_view: "ok s \<Longrightarrow> finite (dom (view s))"
    and no_empty: "ok s \<Longrightarrow> view s [] = None"
    and put: "ok s \<Longrightarrow> k \<noteq> [] \<Longrightarrow>
       \<exists>s'. eput k v s = Some (s', view s k = None) \<and> ok s' \<and> view s' = (view s)(k \<mapsto> v)"
    and put_empty: "eput [] v s = Some (s, False)"
    and get: "ok s \<Longrightarrow> eget k s = Some (view s k)"
    and del: "ok s \<Longrightarrow>
       \<exists>s'. edel k s = Some (s', view s k \<noteq> None) \<and> ok s' \<and> view s' = (view s)(k := None)"
    and exists: "ok s \<Longrightarrow> eexists k s = Some (view s k \<noteq> None)"
    and size: "ok s \<Longrightarrow> esize s = int (card (dom (view s)))"
    and clear: "ok s \<Longrightarrow> \<exists>s'. eclear s = Some s' \<and> ok s' \<and> view s' = Map.empty"
begin

lemma putE:
  assumes "ok s" "k \<noteq> []"
  obtains s' where "eput k v s = Some (s', view s k = None)" "ok s'" "view s' = (view s)(k \<mapsto> v)"
  using put [OF assms, of v] by blast

lemma delE:
  assumes "ok s"
  obtains s' where "edel k s = Some (s', view s k \<noteq> None)" "ok s'" "view s' = (view s)(k := None)"
  using del [OF assms, of k] by blast

lemma clearE:
  assumes "ok s"
  obtains s' where "eclear s = Some s'" "ok s'" "view s' = Map.empty"
  using clear [OF assms] by blast

lemma get_after_put:
  assumes "ok s" "k \<noteq> []" "eput k v s = Some (s', b)"
  shows "eget k' s' = Some (if k' = k then Some v else view s k')"
  using put [OF assms(1,2), of v] assms(3) get by auto

lemma size_after_put:
  assumes "ok s" "k \<noteq> []" "eput k v s = Some (s', b)"
  shows "esize s' = esize s + (if b then 1 else 0)"
proof -
  obtain s1 where s1: "eput k v s = Some (s1, view s k = None)" "ok s1" "view s1 = (view s)(k \<mapsto> v)"
    using assms(1,2) by (rule putE)
  then have "s1 = s'" "b = (k \<notin> dom (view s))" using assms(3) by (auto simp: domIff)
  moreover have "dom (view s1) = insert k (dom (view s))" using s1(3) by simp
  ultimately show ?thesis
    using assms(1) s1(2) finite_view [OF assms(1)] by (simp add: size card_insert_if)
qed

lemma size_after_del:
  assumes "ok s" "edel k s = Some (s', b)"
  shows "esize s' = esize s - (if b then 1 else 0)"
proof -
  obtain s1 where s1: "edel k s = Some (s1, view s k \<noteq> None)" "ok s1" "view s1 = (view s)(k := None)"
    using assms(1) by (rule delE)
  then have "s1 = s'" "b = (k \<in> dom (view s))" using assms(2) by auto
  with s1 show ?thesis
    using assms(1) finite_view [OF assms(1)] card_gt_0_iff [of "dom (view s)"]
    by (auto simp: size card_Diff_singleton_if of_nat_diff)
qed

end

interpretation kv: kv_engine kv_inv kv_map kv_put kv_get kv_del kv_exists kv_size kv_clear
proof unfold_locales
  fix s :: kvstore and k v :: string
  assume ok: "kv_inv s"
  show "finite (dom (kv_map s))" by (rule finite_dom_map_of)
  show "kv_map s [] = None" using ok by (simp add: kv_inv_def kv_list_def)
  show "kv_get k s = Some (kv_map s k)" using ok by (rule kv_get_inv)
  show "\<exists>s'. kv_del k s = Some (s', kv_map s k \<noteq> None) \<and> kv_inv s' \<and> kv_map s' = (kv_map s)(k := None)"
    using kv_del_inv [OF ok, of k] map_of_alDelete by metis
  show "kv_exists k s = Some (kv_map s k \<noteq> None)" using ok by (rule kv_exists_inv)
  show "kv_size s = int (card (dom (kv_map s)))" using ok by (rule kv_size_card)
  show "\<exists>s'. kv_clear s = Some s' \<and> kv_inv s' \<and> kv_map s' = Map.empty"
    using kv_clear_inv [OF ok] by auto
  assume "k \<noteq> []"
  then show "\<exists>s'. kv_put k v s = Some (s', kv_map s k = None) \<and> kv_inv s' \<and> kv_map s' = (kv_map s)(k \<mapsto> v)"
    using kv_put_inv [OF ok, of k v] map_of_alInsert [of k v "kv_list s"] by auto
qed (simp add: kv_put_def)

subsection \<open>Saving and loading\<close>

lemma readPairs_keys: "kv \<in> set (readPairs body) \<Longrightarrow> fst kv \<noteq> []"
proof (induction body rule: readPairs.induct)
  case (1 s)
  have "parseString l = Some kv \<Longrightarrow> fst kv \<noteq> []" for l kv
    by (auto simp: parseString_def Let_def split: if_splits option.splits)
  note key = this
  show ?case
  proof (cases "getline s")
    case None
    with "1.prems" show ?thesis by (simp add: readPairs.simps [of s])
  next
    case (Some lr)
    obtain l r where lr: "lr = (l, r)" by (cases lr)
    show ?thesis
    proof (cases "parseString l")
      case None
      with "1.prems" Some lr have "kv \<in> set (readPairs r)" by (simp add: readPairs.simps [of s])
      then show ?thesis by (rule "1.IH"(1) [OF Some lr [symmetric] None])
    next
      case (Some kv')
      with "1.prems" \<open>getline s = Some lr\<close> lr have "kv = kv' \<or> kv \<in> set (readPairs r)"
        by (simp add: readPairs.simps [of s])
      then show ?thesis using key [OF Some] "1.IH"(2) [OF \<open>getline s = Some lr\<close> lr [symmetric] Some] by blast
    qed
  qed
qed

text \<open>Loading always leaves a good store; what it holds depends only on the file.\<close>

lemma kv_load_inv:
  assumes ok: "kv_inv st" and path: "path \<noteq> []"
  shows "\<exists>st'. kv_load path fs st = Some (st', fileText fs path \<noteq> None) \<and> kv_inv st' \<and>
    kv_map st' = (case fileText fs path of None \<Rightarrow> Map.empty | Some body \<Rightarrow> map_of (rev (readPairs body)))"
proof -
  obtain st1 where st1: "kv_clear st = Some st1" "kv_inv st1" "kv_list st1 = []"
    using kv_clear_inv [OF ok] by blast
  show ?thesis
  proof (cases "fileText fs path")
    case None
    with st1 path show ?thesis by (simp add: kv_load_def loadFile_def)
  next
    case (Some body)
    have "sl_inv (skiplistOf st1)" using st1(2) by (simp add: kv_inv_def)
    from insertAll_inv [OF this, of "readPairs body"] obtain s where
      s: "insertAll (readPairs body) (skiplistOf st1) = Some s" "sl_inv s"
        "sl_map s = sl_map (skiplistOf st1) ++ map_of (rev (readPairs body))" by blast
    have "map_of (rev (readPairs body)) [] = None"
      using readPairs_keys by (fastforce simp: map_of_eq_None_iff)
    with s st1 have "kv_inv (st1\<lparr>skiplistOf := s\<rparr>)" "kv_map (st1\<lparr>skiplistOf := s\<rparr>) = map_of (rev (readPairs body))"
      by (simp_all add: kv_inv_def kv_list_def)
    with s(1) st1(1) Some path show ?thesis by (simp add: kv_load_def loadFile_def)
  qed
qed

lemma kv_save_inv:
  assumes "kv_inv st" "path \<noteq> []" "canCreate fs path"
  shows "kv_save path fs st = Some (fs\<lparr>fileText := (fileText fs)(path \<mapsto>
    take (room fs path) (dumpText (kv_list st)))\<rparr>, True)"
  using assms by (simp add: kv_save_def dumpFile_inv kv_inv_def kv_list_def)

subsection \<open>Properties\<close>

text \<open>
  After \<open>put\<close> of a non-empty key, \<open>get\<close> returns its value for that key and the old answer for
  every other key, \<open>exists\<close> agrees, and \<open>size\<close> has grown exactly when \<open>put\<close> reported a new key.
\<close>

lemma put_then_get:
  assumes "kv_inv st" "k \<noteq> []"
  shows "\<exists>st' isNew. kv_put k v st = Some (st', isNew) \<and> kv_inv st' \<and>
    (\<forall>k'. kv_get k' st' = (if k' = k then Some (Some v) else kv_get k' st)) \<and>
    kv_exists k st' = Some True \<and> kv_exists k st = Some (\<not> isNew) \<and>
    kv_size st' = kv_size st + (if isNew then 1 else 0)"
proof -
  obtain st' where st': "kv_put k v st = Some (st', kv_map st k = None)" "kv_inv st'"
      "kv_map st' = (kv_map st)(k \<mapsto> v)"
    using assms by (rule kv.putE)
  then show ?thesis
    using kv.get_after_put [OF assms st'(1)] kv.size_after_put [OF assms st'(1)] assms(1)
    by (simp add: kv.get kv.exists)
qed

text \<open>
  \<open>del\<close> reports whether the key was there, removes it and nothing else, and the size shrinks
  exactly then; the empty key is never found, stored or removed.
\<close>

lemma del_correct:
  assumes "kv_inv st"
  shows "\<exists>st' removed. kv_del k st = Some (st', removed) \<and> kv_inv st' \<and> kv_exists k st = Some removed \<and>
    (\<forall>k'. kv_get k' st' = (if k' = k then Some None else kv_get k' st)) \<and>
    kv_size st' = kv_size st - (if removed then 1 else 0) \<and>
    kv_put [] v st = Some (st, False) \<and> kv_get [] st = Some None"
proof -
  obtain st' where st': "kv_del k st = Some (st', kv_map st k \<noteq> None)" "kv_inv st'"
      "kv_map st' = (kv_map st)(k := None)"
    using assms by (rule kv.delE)
  then show ?thesis
    using kv.size_after_del [OF assms st'(1)] assms kv.put_empty kv.no_empty [OF assms]
    by (auto simp: kv.get kv.exists)
qed

text \<open>
  \<open>load\<close> replaces the contents: afterwards the store holds exactly the pairs the file's lines
  parse to, later lines winning; when the file cannot be opened it returns false and every key that
  was in the store is gone.
\<close>

lemma load_replaces:
  assumes "kv_inv st" "path \<noteq> []"
  shows "\<exists>st'. kv_load path fs st = Some (st', fileText fs path \<noteq> None) \<and> kv_inv st' \<and>
    (\<forall>k. kv_get k st' = Some (case fileText fs path of None \<Rightarrow> None
                               | Some body \<Rightarrow> map_of (rev (readPairs body)) k))"
  using kv_load_inv [OF assms, of fs] by (auto simp: kv.get split: option.splits)

text \<open>
  \<open>save\<close> reports success as soon as the file opens: on a device that takes only \<open>n\<close> bytes it
  returns true and the file holds the first \<open>n\<close> bytes of the dump.
\<close>

lemma save_ignores_full_disk:
  assumes "kv_inv st" "path \<noteq> []" "canCreate fs path"
  shows "\<exists>fs'. kv_save path fs st = Some (fs', True) \<and>
    fileText fs' path = Some (take (room fs path) (dumpText (kv_list st)))"
  using kv_save_inv [OF assms] by simp

end
