(* ===== verification/Message.thy ===== *)
theory Message
  imports Prelude
begin

text \<open>
  The requests and responses of \<open>src/protocol/message.h\<close>.
\<close>

datatype CommandType = kUnknown | kPut | kGet | kDel | kExists | kSize | kClear | kPing | kQuit

datatype StatusCode = kOk | kNotFound | kError | kPong | kBye

record Request =
  command :: CommandType
  req_key :: string
  req_value :: string

definition Request_default :: Request where
  "Request_default = \<lparr>command = kUnknown, req_key = [], req_value = []\<rparr>"

definition mkRequest :: "CommandType \<Rightarrow> string \<Rightarrow> string \<Rightarrow> Request" where
  "mkRequest cmd k v = \<lparr>command = cmd, req_key = k, req_value = v\<rparr>"

record Response =
  status :: StatusCode
  message :: string

definition resp_ok :: "string \<Rightarrow> Response" where
  "resp_ok msg = \<lparr>status = kOk, message = msg\<rparr>"

definition resp_notFound :: Response where
  "resp_notFound = \<lparr>status = kNotFound, message = []\<rparr>"

definition resp_error :: "string \<Rightarrow> Response" where
  "resp_error msg = \<lparr>status = kError, message = msg\<rparr>"

definition resp_pong :: Response where
  "resp_pong = \<lparr>status = kPong, message = []\<rparr>"

definition resp_bye :: Response where
  "resp_bye = \<lparr>status = kBye, message = []\<rparr>"

lemmas resp_defs [proto_simps] =
  resp_ok_def resp_notFound_def resp_error_def resp_pong_def resp_bye_def

fun commandToString :: "CommandType \<Rightarrow> string" where
  "commandToString kPut = ''PUT''"
| "commandToString kGet = ''GET''"
| "commandToString kDel = ''DEL''"
| "commandToString kExists = ''EXISTS''"
| "commandToString kSize = ''SIZE''"
| "commandToString kClear = ''CLEAR''"
| "commandToString kPing = ''PING''"
| "commandToString kQuit = ''QUIT''"
| "commandToString kUnknown = ''UNKNOWN''"

text \<open>The numbers the enumerators are given.\<close>

fun commandCode :: "CommandType \<Rightarrow> nat" where
  "commandCode kUnknown = 0"
| "commandCode kPut = 1"
| "commandCode kGet = 2"
| "commandCode kDel = 3"
| "commandCode kExists = 4"
| "commandCode kSize = 5"
| "commandCode kClear = 6"
| "commandCode kPing = 7"
| "commandCode kQuit = 8"

lemma commandCode_inj: "commandCode a = commandCode b \<Longrightarrow> a = b"
  by (cases a; cases b; simp)

instantiation CommandType :: linorder
begin

definition less_eq_CommandType :: "CommandType \<Rightarrow> CommandType \<Rightarrow> bool" where
  "less_eq_CommandType a b \<longleftrightarrow> commandCode a \<le> commandCode b"

definition less_CommandType :: "CommandType \<Rightarrow> CommandType \<Rightarrow> bool" where
  "less_CommandType a b \<longleftrightarrow> commandCode a < commandCode b"

instance
proof
  fix a b c :: CommandType
  show "a < b \<longleftrightarrow> a \<le> b \<and> \<not> b \<le> a" by (auto simp: less_eq_CommandType_def less_CommandType_def)
  show "a \<le> a" by (simp add: less_eq_CommandType_def)
  show "a \<le> b \<Longrightarrow> b \<le> c \<Longrightarrow> a \<le> c" by (simp add: less_eq_CommandType_def)
  show "a \<le> b \<Longrightarrow> b \<le> a \<Longrightarrow> a = b" 
    by (rule commandCode_inj) (simp add: less_eq_CommandType_def)
  show "a \<le> b \<or> b \<le> a" by (auto simp: less_eq_CommandType_def)
qed

end

end
