(* ===== verification/Net_Buffer.thy ===== *)
theory Net_Buffer
  imports Prelude
begin

text \<open>
  The byte buffer of \<open>src/net/buffer.h\<close> and \<open>buffer.cpp\<close>: a vector of bytes with a reader and a
  writer index.  The readable bytes between the two indices are its contents; the contract
  \<open>byte_queue\<close> says that appending and retrieving act on the contents as on a queue of bytes,
  whatever moves and reallocations happen underneath.
\<close>

record buffer =
  store :: string
  readerIndex :: nat
  writerIndex :: nat

definition kCheapPrepend :: nat where "kCheapPrepend = 8"
definition kInitialSize :: nat where "kInitialSize = 1024"
definition kExtraBuf :: nat where "kExtraBuf = 65536"

definition buf_new :: "nat \<Rightarrow> buffer" where
  "buf_new initialSize = \<lparr>store = replicate (kCheapPrepend + initialSize) (CHR 0x00),
     readerIndex = kCheapPrepend, writerIndex = kCheapPrepend\<rparr>"

subsection \<open>Capacity and reading\<close>

definition readableBytes :: "buffer \<Rightarrow> nat" where
  "readableBytes b = size_sub (writerIndex b) (readerIndex b)"

definition writableBytes :: "buffer \<Rightarrow> nat" where
  "writableBytes b = size_sub (length (store b)) (writerIndex b)"

definition prependableBytes :: "buffer \<Rightarrow> nat" where
  "prependableBytes b = readerIndex b"

text \<open>The readable bytes, from \<open>peek()\<close> to \<open>beginWrite()\<close>.\<close>

definition content :: "buffer \<Rightarrow> string" where
  "content b = take (readableBytes b) (drop (readerIndex b) (store b))"

text \<open>\<open>findCRLF\<close>, as an offset from \<open>peek()\<close>; None is \<open>nullptr\<close>.\<close>

definition findCRLF :: "buffer \<Rightarrow> nat option" where
  "findCRLF b = str_find [CR, LF] (content b)"

definition retrieveAll :: "buffer \<Rightarrow> buffer" where
  "retrieveAll b = b\<lparr>readerIndex := kCheapPrepend, writerIndex := kCheapPrepend\<rparr>"

definition retrieve :: "nat \<Rightarrow> buffer \<Rightarrow> buffer" where
  "retrieve len b = (if len < readableBytes b then b\<lparr>readerIndex := readerIndex b + len\<rparr>
     else retrieveAll b)"

text \<open>
  \<open>std::string(peek(), len)\<close> reads \<open>len\<close> bytes whatever the writer index is; None where it would
  read past the vector.
\<close>

definition retrieveAsString :: "nat \<Rightarrow> buffer \<Rightarrow> (string \<times> buffer) option" where
  "retrieveAsString len b =
     (if readerIndex b + len \<le> length (store b)
      then Some (take len (drop (readerIndex b) (store b)), retrieve len b) else None)"

definition retrieveAllAsString :: "buffer \<Rightarrow> (string \<times> buffer) option" where
  "retrieveAllAsString b = retrieveAsString (readableBytes b) b"

subsection \<open>Writing\<close>

text \<open>\<open>std::copy\<close> into the vector at index \<open>i\<close>, and \<open>std::vector::resize\<close>.\<close>

definition blit :: "nat \<Rightarrow> string \<Rightarrow> string \<Rightarrow> string" where
  "blit i d s = take i s @ d @ drop (i + length d) s"

definition resize :: "nat \<Rightarrow> string \<Rightarrow> string" where
  "resize n s = take n s @ replicate (n - length s) (CHR 0x00)"

definition makeSpace :: "nat \<Rightarrow> buffer \<Rightarrow> buffer" where
  "makeSpace len b =
     (if writableBytes b + prependableBytes b < len + kCheapPrepend
      then b\<lparr>store := resize (writerIndex b + len) (store b)\<rparr>
      else let readable = readableBytes b in
        b\<lparr>store := blit kCheapPrepend (content b) (store b),
          readerIndex := kCheapPrepend, writerIndex := kCheapPrepend + readable\<rparr>)"

definition ensureWritableBytes :: "nat \<Rightarrow> buffer \<Rightarrow> buffer" where
  "ensureWritableBytes len b = (if writableBytes b < len then makeSpace len b else b)"

definition hasWritten :: "nat \<Rightarrow> buffer \<Rightarrow> buffer" where
  "hasWritten len b = b\<lparr>writerIndex := writerIndex b + len\<rparr>"

definition unwrite :: "nat \<Rightarrow> buffer \<Rightarrow> buffer" where
  "unwrite len b = b\<lparr>writerIndex := size_sub (writerIndex b) len\<rparr>"

definition append_bytes :: "string \<Rightarrow> buffer \<Rightarrow> buffer" where
  "append_bytes d b =
     (let b1 = ensureWritableBytes (length d) b in
      hasWritten (length d) (b1\<lparr>store := blit (writerIndex b1) d (store b1)\<rparr>))"

text \<open>\<open>prepend\<close>; None where the reader index would drop below zero.\<close>

definition prepend :: "string \<Rightarrow> buffer \<Rightarrow> buffer option" where
  "prepend d b =
     (if length d \<le> readerIndex b
      then let r = readerIndex b - length d in
        Some (b\<lparr>readerIndex := r, store := blit r d (store b)\<rparr>)
      else None)"

subsection \<open>Network input and output\<close>

text \<open>
  \<open>readFd\<close>, given what \<open>readv\<close> did: an error number, or the bytes it delivered (none at the end of
  the stream).  It can deliver at most \<open>readCapacity\<close> bytes.  The result is the new buffer, the
  return value and the error number stored.
\<close>

definition readCapacity :: "buffer \<Rightarrow> nat" where
  "readCapacity b = writableBytes b + (if writableBytes b < kExtraBuf then kExtraBuf else 0)"

definition readFd :: "int + string \<Rightarrow> buffer \<Rightarrow> buffer \<times> int \<times> int option" where
  "readFd r b =
     (case r of
        Inl err \<Rightarrow> (b, -1, Some err)
      | Inr d \<Rightarrow>
          let writable = writableBytes b; n = length d;
              b1 = b\<lparr>store := blit (writerIndex b) (take writable d) (store b)\<rparr> in
          if n \<le> writable
          then (b1\<lparr>writerIndex := writerIndex b + n\<rparr>, int n, None)
          else (append_bytes (drop writable d) (b1\<lparr>writerIndex := length (store b1)\<rparr>), int n, None))"

text \<open>\<open>writeFd\<close> offers the contents to the socket; \<open>Inr n\<close> says that it took \<open>n\<close> bytes.\<close>

definition writeFd :: "int + nat \<Rightarrow> buffer \<Rightarrow> int \<times> int option" where
  "writeFd r b = (case r of Inl err \<Rightarrow> (-1, Some err) | Inr n \<Rightarrow> (int n, None))"

subsection \<open>32-bit integers in network order\<close>

definition be32 :: "32 word \<Rightarrow> string" where
  "be32 x = map (\<lambda>i. char_of (unat (drop_bit i x) mod 256)) [24, 16, 8, 0]"

definition be32toh :: "string \<Rightarrow> 32 word" where
  "be32toh s = word_of_nat (foldl (\<lambda>acc c. acc * 256 + of_char c) 0 s)"

definition appendInt32 :: "32 word \<Rightarrow> buffer \<Rightarrow> buffer" where
  "appendInt32 x b = append_bytes (be32 x) b"

definition peekInt32 :: "buffer \<Rightarrow> 32 word option" where
  "peekInt32 b = (if readerIndex b + 4 \<le> length (store b)
     then Some (be32toh (take 4 (drop (readerIndex b) (store b)))) else None)"

definition readInt32 :: "buffer \<Rightarrow> (32 word \<times> buffer) option" where
  "readInt32 b = map_option (\<lambda>x. (x, retrieve 4 b)) (peekInt32 b)"

definition prependInt32 :: "32 word \<Rightarrow> buffer \<Rightarrow> buffer option" where
  "prependInt32 x b = prepend (be32 x) b"

subsection \<open>The invariant and the contents after each operation\<close>

definition buf_inv :: "buffer \<Rightarrow> bool" where
  "buf_inv b \<longleftrightarrow> readerIndex b \<le> writerIndex b \<and> writerIndex b \<le> length (store b) \<and>
     kCheapPrepend \<le> length (store b)"

lemmas buf_defs = buf_inv_def readableBytes_def writableBytes_def prependableBytes_def content_def
  kCheapPrepend_def

lemma readable_content: "buf_inv b \<Longrightarrow> readableBytes b = length (content b)"
  by (auto simp: buf_defs buffer_simps)

lemma content_eq: "buf_inv b \<Longrightarrow> content b = drop (readerIndex b) (take (writerIndex b) (store b))"
  by (simp add: buf_defs buffer_simps drop_take)

lemma writable_eq: "buf_inv b \<Longrightarrow> writableBytes b = length (store b) - writerIndex b"
  by (simp add: buf_defs buffer_simps)

lemma buf_new_inv [simp]: "buf_inv (buf_new n)" "content (buf_new n) = []"
  by (simp_all add: buf_new_def buf_defs)

lemma retrieveAll_inv: "buf_inv b \<Longrightarrow> buf_inv (retrieveAll b) \<and> content (retrieveAll b) = []"
  by (simp add: retrieveAll_def buf_defs)

lemma retrieve_inv: "buf_inv b \<Longrightarrow> buf_inv (retrieve n b) \<and> content (retrieve n b) = drop n (content b)"
proof (cases "n < readableBytes b")
  case True
  assume inv: "buf_inv b"
  with True have "readerIndex b + n \<le> writerIndex b" by (simp add: buf_defs buffer_simps)
  with inv True show ?thesis
    by (simp add: retrieve_def buf_inv_def) (simp add: buf_defs buffer_simps drop_take add.commute)
next
  case False
  assume inv: "buf_inv b"
  with False show ?thesis by (simp add: retrieve_def retrieveAll_inv readable_content)
qed

lemma resize_take: "n \<le> length s \<Longrightarrow> n \<le> m \<Longrightarrow> take n (resize m s) = take n s"
  by (simp add: resize_def)

lemma length_resize [simp]: "length (resize n s) = n"
  by (simp add: resize_def)

lemma length_blit: "i + length d \<le> length s \<Longrightarrow> length (blit i d s) = length s"
  by (simp add: blit_def)

lemma take_blit: "i \<le> length s \<Longrightarrow> take (i + length d) (blit i d s) = take i s @ d"
  by (simp add: blit_def)

lemma makeSpace_inv:
  assumes "buf_inv b" "writableBytes b < n"
  shows "buf_inv (makeSpace n b) \<and> content (makeSpace n b) = content b \<and> n \<le> writableBytes (makeSpace n b)"
proof (cases "writableBytes b + prependableBytes b < n + kCheapPrepend")
  case True
  let ?b = "b\<lparr>store := resize (writerIndex b + n) (store b)\<rparr>"
  have inv: "buf_inv ?b" using assms by (simp add: buf_defs buffer_simps) linarith
  have "content ?b = content b"
    using assms(1) unfolding content_eq [OF inv] content_eq [OF assms(1)]
    by (simp add: resize_take buf_inv_def)
  with inv True show ?thesis by (simp add: makeSpace_def) (simp add: writable_eq)
next
  case False
  let ?b = "b\<lparr>store := blit kCheapPrepend (content b) (store b),
          readerIndex := kCheapPrepend, writerIndex := kCheapPrepend + readableBytes b\<rparr>"
  have len: "kCheapPrepend + length (content b) + n \<le> length (store b)"
    using False assms by (simp add: buf_defs buffer_simps min_absorb2) linarith
  then have inv: "buf_inv ?b" using assms(1) by (simp add: length_blit buf_inv_def readable_content)
  have "content ?b = content b"
    unfolding content_eq [OF inv] using assms(1) len
    by (simp add: take_blit readable_content buf_inv_def)
  moreover have "n \<le> writableBytes ?b"
    using len assms(1) unfolding writable_eq [OF inv] by (simp add: length_blit readable_content)
  ultimately show ?thesis using inv False by (simp add: makeSpace_def Let_def)
qed

lemma ensureWritable_inv:
  assumes "buf_inv b"
  shows "buf_inv (ensureWritableBytes n b) \<and> content (ensureWritableBytes n b) = content b \<and>
    n \<le> writableBytes (ensureWritableBytes n b)"
  using assms makeSpace_inv by (auto simp: ensureWritableBytes_def)

text \<open>Writing inside the writable area and moving the writer index appends to the contents.\<close>

lemma write_inv:
  assumes "buf_inv b" "length d \<le> writableBytes b"
  defines "b' \<equiv> b\<lparr>store := blit (writerIndex b) d (store b), writerIndex := writerIndex b + length d\<rparr>"
  shows "buf_inv b' \<and> content b' = content b @ d"
proof -
  have len: "writerIndex b + length d \<le> length (store b)"
    using assms(1,2) by (simp add: buf_defs buffer_simps) linarith
  then have inv: "buf_inv b'" using assms(1) by (simp add: b'_def buf_inv_def length_blit)
  moreover have "content b' = content b @ d"
    unfolding content_eq [OF inv] content_eq [OF assms(1)] using assms(1) len
    by (simp add: b'_def take_blit buf_inv_def)
  ultimately show ?thesis by blast
qed

lemma append_bytes_inv:
  assumes "buf_inv b"
  shows "buf_inv (append_bytes d b) \<and> content (append_bytes d b) = content b @ d"
  using ensureWritable_inv [OF assms, of "length d"] write_inv [of "ensureWritableBytes (length d) b" d]
  by (simp add: append_bytes_def hasWritten_def Let_def)

text \<open>Overwriting bytes behind the writer index does not touch the contents.\<close>

lemma readFd_ok:
  assumes "buf_inv b" "length d \<le> readCapacity b"
  shows "\<exists>b'. readFd (Inr d) b = (b', int (length d), None) \<and> buf_inv b' \<and> content b' = content b @ d"
proof (cases "length d \<le> writableBytes b")
  case True
  with write_inv [OF assms(1), of d] show ?thesis by (simp add: readFd_def Let_def)
next
  case False
  let ?w = "writableBytes b"
  let ?b1 = "b\<lparr>store := blit (writerIndex b) (take ?w d) (store b)\<rparr>"
  have w: "length (take ?w d) = ?w" using False by simp
  have len: "writerIndex b + ?w = length (store b)" using assms(1) by (simp add: buf_defs buffer_simps)
  then have l1: "length (store ?b1) = length (store b)" using w by (simp add: length_blit)
  have "buf_inv (?b1\<lparr>writerIndex := length (store ?b1)\<rparr>) \<and>
      content (?b1\<lparr>writerIndex := length (store ?b1)\<rparr>) = content b @ take ?w d"
    using write_inv [OF assms(1), of "take ?w d"] w len l1 by simp
  then show ?thesis
    using append_bytes_inv [of "?b1\<lparr>writerIndex := length (store ?b1)\<rparr>" "drop ?w d"] False
    by (simp add: readFd_def Let_def)
qed

lemma prepend_inv:
  assumes "buf_inv b" "length d \<le> readerIndex b"
  shows "\<exists>b'. prepend d b = Some b' \<and> buf_inv b' \<and> content b' = d @ content b"
proof -
  let ?r = "readerIndex b - length d"
  let ?b = "b\<lparr>readerIndex := ?r, store := blit ?r d (store b)\<rparr>"
  have len: "?r + length d = readerIndex b" "readerIndex b \<le> length (store b)"
    using assms by (simp_all add: buf_inv_def)
  then have inv: "buf_inv ?b" using assms(1) by (simp add: buf_inv_def length_blit)
  have "content ?b = d @ content b"
    unfolding content_eq [OF inv] content_eq [OF assms(1)] using assms len
    by (simp add: blit_def buf_inv_def drop_take) linarith
  with inv assms(2) show ?thesis by (simp add: prepend_def Let_def)
qed

lemma retrieveAsString_inv:
  assumes "buf_inv b" "n \<le> length (content b)"
  shows "\<exists>b'. retrieveAsString n b = Some (take n (content b), b') \<and> buf_inv b' \<and>
    content b' = drop n (content b)"
proof -
  have n: "n \<le> readableBytes b" using assms by (simp add: readable_content)
  then have "readerIndex b + n \<le> length (store b)" using assms(1) by (simp add: buf_defs buffer_simps) linarith
  moreover have "take n (content b) = take n (drop (readerIndex b) (store b))"
    using n by (simp add: content_def min_def)
  ultimately show ?thesis using retrieve_inv [OF assms(1), of n] by (simp add: retrieveAsString_def)
qed

subsection \<open>Network-order integers\<close>

lemma length_be32 [simp]: "length (be32 x) = 4"
  by (simp add: be32_def)

lemma be32toh_be32: "be32toh (be32 x) = x"
proof -
  let ?n = "unat x"
  have n: "?n < 4294967296" using unsigned_less [of x, where 'a = nat] by simp
  have d: "unat (drop_bit i x) = ?n div 2 ^ i" for i by (subst unat_drop_bit_eq) (simp add: drop_bit_eq_div)
  have "(((?n div 16777216 mod 256) * 256 + ?n div 65536 mod 256) * 256 + ?n div 256 mod 256) * 256 +
      ?n mod 256 = ?n"
  proof -
    have "?n div 65536 = ?n div 256 div 256" "?n div 16777216 = ?n div 256 div 256 div 256"
      by (simp_all flip: div_mult2_eq)
    moreover have "?n div 256 div 256 div 256 mod 256 = ?n div 256 div 256 div 256"
      using n by (simp add: div_less_iff_less_mult flip: div_mult2_eq)
    ultimately show ?thesis by (simp only: div_mult_mod_eq)
  qed
  moreover have "?n div 16777216 mod 256 = ?n div 16777216"
    using n by (simp add: div_less_iff_less_mult)
  ultimately have "foldl (\<lambda>acc c. acc * 256 + of_char c) 0 (be32 x) = ?n"
    by (simp add: be32_def d of_char_of take_bit_eq_mod)
  then show ?thesis by (simp add: be32toh_def)
qed

lemma readInt32_be32:
  assumes c: "buf_inv c" "content c = be32 x @ rest"
  shows "\<exists>b'. readInt32 c = Some (x, b') \<and> buf_inv b' \<and> content b' = rest"
proof -
  have "4 \<le> readableBytes c" using readable_content [OF c(1)] c(2) by simp
  then have "readerIndex c + 4 \<le> length (store c)" using c(1) by (simp add: buf_defs buffer_simps) linarith
  moreover have "take 4 (drop (readerIndex c) (store c)) = take 4 (content c)"
    using \<open>4 \<le> readableBytes c\<close> by (simp add: content_def min_def)
  ultimately show ?thesis
    using retrieve_inv [OF c(1), of 4] c(2) by (simp add: readInt32_def peekInt32_def be32toh_be32)
qed

subsection \<open>The contract of a byte queue\<close>

locale byte_queue =
  fixes wf :: "'b \<Rightarrow> bool"
    and bytes :: "'b \<Rightarrow> string"
    and put :: "string \<Rightarrow> 'b \<Rightarrow> 'b"
    and drop_front :: "nat \<Rightarrow> 'b \<Rightarrow> 'b"
    and avail :: "'b \<Rightarrow> nat"
  assumes put_wf: "wf b \<Longrightarrow> wf (put d b)"
    and put_bytes: "wf b \<Longrightarrow> bytes (put d b) = bytes b @ d"
    and drop_wf: "wf b \<Longrightarrow> wf (drop_front n b)"
    and drop_bytes: "wf b \<Longrightarrow> bytes (drop_front n b) = drop n (bytes b)"
    and avail: "wf b \<Longrightarrow> avail b = length (bytes b)"
begin

text \<open>Appending pieces one by one is appending their concatenation.\<close>

lemma put_pieces: "wf b \<Longrightarrow> wf (fold put ds b) \<and> bytes (fold put ds b) = bytes b @ concat ds"
  by (induction ds arbitrary: b) (simp_all add: put_wf put_bytes)

text \<open>First in, first out: taking what was there leaves exactly what was put behind it.\<close>

lemma fifo: "wf b \<Longrightarrow> bytes (drop_front (avail b) (fold put ds b)) = concat ds"
  by (simp add: put_pieces drop_bytes avail)

lemma empty_iff: "wf b \<Longrightarrow> avail b = 0 \<longleftrightarrow> bytes b = []"
  by (simp add: avail)

end

interpretation bq: byte_queue buf_inv content append_bytes retrieve readableBytes
  by unfold_locales (simp_all add: append_bytes_inv retrieve_inv readable_content)

lemmas buf_facts = bq.put_wf bq.put_bytes bq.drop_wf bq.drop_bytes bq.avail

subsection \<open>Properties\<close>

text \<open>
  Reading from a socket loses nothing and reorders nothing: whatever the kernel delivered into
  the buffer and the extra stack buffer is appended to the readable bytes, also when it overflows
  the writable area and the vector must grow.
\<close>

lemma readFd_appends:
  assumes "buf_inv b" "length d \<le> readCapacity b"
  shows "\<exists>b'. readFd (Inr d) b = (b', int (length d), None) \<and> buf_inv b' \<and> content b' = content b @ d"
  using assms by (rule readFd_ok)

text \<open>
  C30: the buffer is a queue of bytes: appending any pieces and then retrieving what was there
  before leaves exactly the pieces, whatever was moved to the front or reallocated in between.
\<close>

theorem buffer_fifo:
  assumes "buf_inv b"
  shows "content (fold append_bytes ds b) = content b @ concat ds \<and>
    content (retrieve (readableBytes b) (fold append_bytes ds b)) = concat ds \<and>
    buf_inv (retrieve (readableBytes b) (fold append_bytes ds b))"
  using bq.put_pieces [OF assms] bq.fifo [OF assms] by (simp add: buf_facts)

theorem buffer_fifo_witness:
  "content (retrieve 3 (fold append_bytes [''de'', ''fgh''] (append_bytes ''abc'' (buf_new 4)))) = ''defgh''"
proof -
  have "buf_inv (append_bytes ''abc'' (buf_new 4))" "readableBytes (append_bytes ''abc'' (buf_new 4)) = 3"
    using append_bytes_inv [of "buf_new 4" "''abc''"] by (simp_all add: readable_content)
  with buffer_fifo [of "append_bytes ''abc'' (buf_new 4)" "[''de'', ''fgh'']"] show ?thesis by simp
qed

text \<open>
  A 32-bit integer written in network order reads back, with nothing else taken: appended behind
  an empty buffer, or prepended before any contents when eight bytes of head room are left.
\<close>

lemma int32_roundtrip:
  assumes "buf_inv b"
  shows "(content b = [] \<longrightarrow> (\<exists>b'. readInt32 (appendInt32 x b) = Some (x, b') \<and> buf_inv b' \<and> content b' = [])) \<and>
    (4 \<le> readerIndex b \<longrightarrow> (\<exists>b1 b'. prependInt32 x b = Some b1 \<and> readInt32 b1 = Some (x, b') \<and>
       buf_inv b' \<and> content b' = content b))"
proof (intro conjI impI)
  show "\<exists>b'. readInt32 (appendInt32 x b) = Some (x, b') \<and> buf_inv b' \<and> content b' = []" if "content b = []"
    using append_bytes_inv [OF assms, of "be32 x"] readInt32_be32 [of "append_bytes (be32 x) b" x "[]"] that
    by (simp add: appendInt32_def)
  assume "4 \<le> readerIndex b"
  then obtain b1 where "prepend (be32 x) b = Some b1" "buf_inv b1" "content b1 = be32 x @ content b"
    using prepend_inv [OF assms, of "be32 x"] by auto
  with readInt32_be32 [of b1 x "content b"] show "\<exists>b1 b'. prependInt32 x b = Some b1 \<and> readInt32 b1 = Some (x, b') \<and>
     buf_inv b' \<and> content b' = content b" by (simp add: prependInt32_def)
qed

end
