(* ===== verification/Codec.thy ===== *)
theory Codec
  imports Message Net_Buffer "HOL-Library.Sublist"
begin

text \<open>
  The text protocol of \<open>src/protocol/codec.h\<close>: taking one line from the buffer, splitting it into
  words, recognising the command, and encoding a response.
\<close>

subsection \<open>Words and lines\<close>

text \<open>\<open>split\<close>: the words that \<open>istringstream >> token\<close> delivers.\<close>

function split :: "string \<Rightarrow> string list" where
  "split s =
     (let t = dropWhile isspace s in
      if t = [] then [] else takeWhile (\<lambda>c. \<not> isspace c) t # split (dropWhile (\<lambda>c. \<not> isspace c) t))"
  by pat_completeness auto
termination
proof (relation "measure length")
  fix s t :: string
  assume t: "t = dropWhile isspace s" "t \<noteq> []"
  then have "\<not> isspace (hd t)" by (simp add: hd_dropWhile)
  with t(2) have "length (dropWhile (\<lambda>c. \<not> isspace c) t) < length t"
    by (cases t) (simp_all add: length_dropWhile_le le_imp_less_Suc)
  also have "\<dots> \<le> length s" by (simp add: t(1) length_dropWhile_le)
  finally show "(dropWhile (\<lambda>c. \<not> isspace c) t, s) \<in> measure length" by simp
qed simp

declare split.simps [simp del]

definition toUpper :: "string \<Rightarrow> string" where
  "toUpper s = map toupper s"

text \<open>\<open>line.find(key)\<close> with \<open>npos\<close> for no occurrence.\<close>

definition npos :: nat where "npos = 2 ^ 64 - 1"

definition findPos :: "string \<Rightarrow> string \<Rightarrow> nat" where
  "findPos p s = (case str_find p s of None \<Rightarrow> npos | Some i \<Rightarrow> i)"

text \<open>The loop that moves \<open>valueStart\<close> over white space.\<close>

function skipSpaces :: "string \<Rightarrow> nat \<Rightarrow> nat" where
  "skipSpaces line i = (if i < length line \<and> isspace (line ! i) then skipSpaces line (i + 1) else i)"
  by pat_completeness auto
termination
  by (relation "measure (\<lambda>(line, i). length line - i)") auto

declare skipSpaces.simps [simp del]

subsection \<open>Recognising a command\<close>

definition keyCommand :: "CommandType \<Rightarrow> string list \<Rightarrow> Request \<Rightarrow> Request" where
  "keyCommand cmd parts r =
     (if 2 \<le> length parts then r\<lparr>command := cmd, req_key := parts ! 1\<rparr> else r\<lparr>command := kUnknown\<rparr>)"

definition putCommand :: "string \<Rightarrow> string list \<Rightarrow> Request \<Rightarrow> Request" where
  "putCommand line parts r =
     (if 3 \<le> length parts
      then let valueStart = skipSpaces line (findPos (parts ! 1) line + length (parts ! 1)) in
        r\<lparr>command := kPut, req_key := parts ! 1, req_value := drop valueStart line\<rparr>
      else r\<lparr>command := kUnknown\<rparr>)"

text \<open>\<open>parseLine\<close> fills in the request; its result is always true.\<close>

definition parseLine :: "string \<Rightarrow> Request \<Rightarrow> Request" where
  "parseLine line r =
     (if line = [] then r\<lparr>command := kUnknown\<rparr>
      else let parts = split line in
        if parts = [] then r\<lparr>command := kUnknown\<rparr>
        else let cmd = toUpper (parts ! 0) in
          if cmd = ''PUT'' \<or> cmd = ''SET'' then putCommand line parts r
          else if cmd = ''GET'' then keyCommand kGet parts r
          else if cmd = ''DEL'' \<or> cmd = ''DELETE'' then keyCommand kDel parts r
          else if cmd = ''EXISTS'' then keyCommand kExists parts r
          else if cmd = ''SIZE'' \<or> cmd = ''DBSIZE'' then r\<lparr>command := kSize\<rparr>
          else if cmd = ''CLEAR'' \<or> cmd = ''FLUSHDB'' then r\<lparr>command := kClear\<rparr>
          else if cmd = ''PING'' then r\<lparr>command := kPing\<rparr>
          else if cmd = ''QUIT'' \<or> cmd = ''EXIT'' then r\<lparr>command := kQuit\<rparr>
          else r\<lparr>command := kUnknown\<rparr>)"

text \<open>
  \<open>parseRequest\<close>: positions are offsets from \<open>peek()\<close>, None is \<open>nullptr\<close>.  The result is whether a
  line was found, the buffer without it, and the request.
\<close>

definition lineEndOf :: "nat option \<Rightarrow> nat option \<Rightarrow> nat option" where
  "lineEndOf crlf lf =
     (case crlf of
        Some p \<Rightarrow> (case lf of Some q \<Rightarrow> Some (if p < q then p else q) | None \<Rightarrow> Some p)
      | None \<Rightarrow> lf)"

definition popCR :: "string \<Rightarrow> string" where
  "popCR s = (if s \<noteq> [] \<and> last s = CR then butlast s else s)"

definition parseRequest :: "buffer \<Rightarrow> Request \<Rightarrow> bool \<times> buffer \<times> Request" where
  "parseRequest b r =
     (let data = content b in
      case lineEndOf (findCRLF b) (str_find [LF] data) of
        None \<Rightarrow> (False, b, r)
      | Some lineLen \<Rightarrow>
          let line = popCR (take lineLen data);
              bytesToSkip =
                (if data ! lineLen = CR \<and> lineLen + 1 < length data \<and> data ! (lineLen + 1) = LF
                 then lineLen + 2 else lineLen + 1)
          in (True, retrieve bytesToSkip b, parseLine line r))"

subsection \<open>Encoding a response\<close>

definition encodeResponse :: "Response \<Rightarrow> string" where
  "encodeResponse r =
     (case status r of
        kOk \<Rightarrow> ''+OK'' @ (if message r \<noteq> [] then '' '' @ message r else [])
      | kNotFound \<Rightarrow> ''-NOT_FOUND''
      | kError \<Rightarrow> ''-ERROR'' @ (if message r \<noteq> [] then '' '' @ message r else [])
      | kPong \<Rightarrow> ''+PONG''
      | kBye \<Rightarrow> ''+BYE'') @ [CR, LF]"

subsection \<open>Facts about words\<close>

lemma split_word:
  assumes "w \<noteq> []" "\<forall>c \<in> set w. \<not> isspace c" "\<forall>c \<in> set ws. isspace c" "s = [] \<or> isspace (hd s)"
  shows "split (ws @ w @ s) = w # split s"
proof -
  have d: "dropWhile isspace (ws @ w @ s) = w @ s"
    using assms(1-3) by (cases w) (simp_all add: dropWhile_append2)
  have "takeWhile (\<lambda>c. \<not> isspace c) (w @ s) = w" "dropWhile (\<lambda>c. \<not> isspace c) (w @ s) = s"
    using assms(2,4) by (cases s; simp add: takeWhile_append dropWhile_append; fail)+
  with d assms(1) show ?thesis by (subst split.simps) (simp add: Let_def)
qed

lemma split_spaces: "\<forall>c \<in> set ws. isspace c \<Longrightarrow> split ws = []"
  by (subst split.simps) (simp add: dropWhile_eq_Nil_conv)

lemma split_first: "s \<noteq> [] \<Longrightarrow> \<not> isspace (hd s) \<Longrightarrow> split s \<noteq> []"
  by (subst split.simps) (cases s; simp add: Let_def)

lemma split_words: "w \<in> set (split s) \<Longrightarrow> w \<noteq> [] \<and> (\<forall>c \<in> set w. \<not> isspace c)"
proof (induction s rule: split.induct)
  case (1 s)
  let ?t = "dropWhile isspace s"
  have step: "split s = (if ?t = [] then []
    else takeWhile (\<lambda>c. \<not> isspace c) ?t # split (dropWhile (\<lambda>c. \<not> isspace c) ?t))"
    by (subst split.simps) (simp only: Let_def)
  have ne: "?t \<noteq> []" using "1.prems" step by (metis empty_iff list.set(1))
  then have "\<not> isspace (hd ?t)" by (simp add: hd_dropWhile)
  with ne have a: "takeWhile (\<lambda>c. \<not> isspace c) ?t \<noteq> []" by (cases ?t) simp_all
  have b: "\<forall>c \<in> set (takeWhile (\<lambda>c. \<not> isspace c) ?t). \<not> isspace c"
    by (auto dest: set_takeWhileD)
  have "w = takeWhile (\<lambda>c. \<not> isspace c) ?t \<or> w \<in> set (split (dropWhile (\<lambda>c. \<not> isspace c) ?t))"
    using "1.prems" unfolding step if_not_P [OF ne] by (simp only: list.set insert_iff)
  then show ?case
  proof
    assume w: "w = takeWhile (\<lambda>c. \<not> isspace c) ?t"
    show ?thesis unfolding w using a b by (rule conjI)
  qed (rule "1.IH" [OF refl ne])
qed

lemma skipSpaces_eq: "i \<le> length s \<Longrightarrow> drop (skipSpaces s i) s = dropWhile isspace (drop i s)"
proof (induction s i rule: skipSpaces.induct)
  case (1 s i)
  show ?case
  proof (cases "i < length s")
    case True
    then have "drop i s = s ! i # drop (i + 1) s" by (simp add: Cons_nth_drop_Suc)
    with True 1 show ?thesis by (cases "isspace (s ! i)") (simp_all add: skipSpaces.simps [of s i])
  next
    case False
    then show ?thesis by (subst skipSpaces.simps) simp
  qed
qed

subsection \<open>Taking one line off the buffer\<close>

text \<open>What the parser sees of the characters before the first line feed.\<close>

definition lineText :: "string \<Rightarrow> string" where
  "lineText l = popCR (popCR l)"

lemma find_LF: "LF \<notin> set l \<Longrightarrow> str_find [LF] (l @ LF # r) = Some (length l)"
  by (induction l) auto

lemma find_LF_None: "str_find [LF] s = None \<longleftrightarrow> LF \<notin> set s"
  by (induction s) auto

lemma find_CRLF_None:
  assumes "LF \<notin> set s"
  shows "str_find [CR, LF] s = None"
  unfolding str_find_None
proof (intro allI impI notI)
  fix j assume "take (length [CR, LF]) (drop j s) = [CR, LF]"
  then have "LF \<in> set (take 2 (drop j s))" by (simp add: numeral_2_eq_2)
  with assms show False by (meson in_set_dropD in_set_takeD)
qed

lemma take2_drop:
  assumes "take (length [x, y]) (drop j s) = [x, y]"
  shows "j + 1 < length s \<and> s ! j = x \<and> s ! (j + 1) = y"
proof -
  from assms have t: "take 2 (drop j s) = [x, y]" by (simp add: numeral_2_eq_2)
  then have "length (take 2 (drop j s)) = 2" by simp
  then have len: "j + 1 < length s" by simp
  then have "drop j s = s ! j # s ! (j + 1) # drop (j + 2) s" by (simp add: Cons_nth_drop_Suc)
  with t len show ?thesis by (simp add: numeral_2_eq_2)
qed

lemma find_CRLF:
  assumes l: "LF \<notin> set l"
  shows "lineEndOf (str_find [CR, LF] (l @ LF # r)) (Some (length l)) =
    Some (if l \<noteq> [] \<and> last l = CR then length l - 1 else length l)"
proof (cases "l \<noteq> [] \<and> last l = CR")
  case True
  then obtain l' where l': "l = l' @ [CR]" by (metis append_butlast_last_id)
  have "str_find [CR, LF] (l @ LF # r) = Some (length l')"
  proof (rule str_find_eqI)
    fix j assume j: "j < length l'"
    show "take (length [CR, LF]) (drop j (l @ LF # r)) \<noteq> [CR, LF]"
    proof
      assume "take (length [CR, LF]) (drop j (l @ LF # r)) = [CR, LF]"
      then have "(l @ LF # r) ! (j + 1) = LF" by (rule take2_drop [THEN conjunct2, THEN conjunct2])
      moreover have lt: "j + 1 < length l" using j l' by simp
      ultimately have "l ! (j + 1) = LF" by (metis nth_append)
      with l lt show False using nth_mem by metis
    qed
  qed (simp_all add: l')
  with l' show ?thesis by (simp add: lineEndOf_def)
next
  case False
  have "length l < p" if p: "str_find [CR, LF] (l @ LF # r) = Some p" for p
  proof (rule ccontr)
    assume "\<not> length l < p"
    then have le: "p \<le> length l" by simp
    have c: "(l @ LF # r) ! p = CR" "(l @ LF # r) ! (p + 1) = LF"
      using take2_drop [OF str_find_Some [OF p, THEN conjunct2]] by blast+
    from c(1) le have "p < length l" by (auto simp: nth_append split: if_splits)
    moreover have "\<not> p + 1 < length l" using c(2) l by (metis nth_append nth_mem)
    ultimately have "p = length l - 1" "l \<noteq> []" by auto
    with c(1) \<open>p < length l\<close> have "last l = CR" by (simp add: nth_append last_conv_nth)
    with False \<open>l \<noteq> []\<close> show False by simp
  qed
  note late = this
  show ?thesis
  proof (cases "str_find [CR, LF] (l @ LF # r)")
    case (Some p)
    then show ?thesis unfolding if_not_P [OF False] using late [OF Some] by (simp add: lineEndOf_def)
  qed (use False in \<open>auto simp: lineEndOf_def\<close>)
qed

text \<open>The line is consumed with its terminator, and nothing behind it.\<close>

lemma parseRequest_line:
  assumes inv: "buf_inv b" and c: "content b = l @ LF # r" and l: "LF \<notin> set l"
  shows "\<exists>b'. parseRequest b rq = (True, b', parseLine (lineText l) rq) \<and> buf_inv b' \<and> content b' = r"
proof (cases "l \<noteq> [] \<and> last l = CR")
  case True
  then obtain l' where l': "l = l' @ [CR]" by (metis append_butlast_last_id)
  have "lineText l = popCR l'" by (simp add: lineText_def l' popCR_def)
  moreover have "content b ! length l' = CR" "content b ! (length l' + 1) = LF"
    by (simp_all add: c l' nth_append)
  ultimately have "parseRequest b rq = (True, retrieve (length l' + 2) b, parseLine (lineText l) rq)"
    unfolding parseRequest_def findCRLF_def c find_LF [OF l] find_CRLF [OF l] if_P [OF True] Let_def option.case
    using l' by (simp add: nth_append)
  then show ?thesis using retrieve_inv [OF inv, of "length l' + 2"] by (simp add: c l')
next
  case False
  then have p: "popCR l = l" by (auto simp: popCR_def)
  have "content b ! length l = LF" by (simp add: c)
  then have "parseRequest b rq = (True, retrieve (length l + 1) b, parseLine (lineText l) rq)"
    unfolding parseRequest_def findCRLF_def c find_LF [OF l] find_CRLF [OF l] if_not_P [OF False] Let_def option.case
    using p by (simp add: lineText_def)
  then show ?thesis using retrieve_inv [OF inv, of "length l + 1"] by (simp add: c)
qed

lemma parseRequest_incomplete:
  assumes "LF \<notin> set (content b)"
  shows "parseRequest b rq = (False, b, rq)"
  using assms find_LF_None [of "content b"]
  by (simp add: parseRequest_def findCRLF_def lineEndOf_def find_CRLF_None)

subsection \<open>The contract of framing\<close>

text \<open>
  A framing takes complete lines off a byte queue: it waits while there is no line feed, and
  otherwise consumes exactly the first line.  \<open>value_of\<close> is what one line means.
\<close>

locale line_framing =
  fixes good :: "'b \<Rightarrow> bool"
    and bytes :: "'b \<Rightarrow> string"
    and take_line :: "'b \<Rightarrow> bool \<times> 'b \<times> 'r"
    and value_of :: "string \<Rightarrow> 'r"
  assumes incomplete: "good b \<Longrightarrow> LF \<notin> set (bytes b) \<Longrightarrow> \<not> fst (take_line b) \<and> fst (snd (take_line b)) = b"
    and complete: "good b \<Longrightarrow> bytes b = l @ LF # r \<Longrightarrow> LF \<notin> set l \<Longrightarrow>
       \<exists>b'. take_line b = (True, b', value_of l) \<and> good b' \<and> bytes b' = r"
begin

lemma cases_line:
  assumes "good b"
  obtains (none) "LF \<notin> set (bytes b)" "\<not> fst (take_line b)" "fst (snd (take_line b)) = b"
    | (line) l r b' where "bytes b = l @ LF # r" "LF \<notin> set l" "take_line b = (True, b', value_of l)"
        "good b'" "bytes b' = r"
proof (cases "LF \<in> set (bytes b)")
  case True
  then obtain l r where "bytes b = l @ LF # r" "LF \<notin> set l" by (meson split_list_first)
  with complete [OF assms this] show ?thesis by (auto intro: line)
next
  case False
  with incomplete [OF assms False] show ?thesis by (auto intro: none)
qed

lemma shrinks: "good b \<Longrightarrow> fst (take_line b) \<Longrightarrow> length (bytes (fst (snd (take_line b)))) < length (bytes b)"
  by (erule cases_line) simp_all

end

interpretation framing: line_framing buf_inv content "\<lambda>b. parseRequest b Request_default"
  "\<lambda>l. parseLine (lineText l) Request_default"
  by unfold_locales (simp_all add: parseRequest_line parseRequest_incomplete)

subsection \<open>The value of a PUT\<close>

lemma find_word:
  assumes "\<forall>i < length p. take (length k) (drop i (p @ k @ s)) \<noteq> k"
  shows "findPos k (p @ k @ s) = length p"
proof -
  have "str_find k (p @ k @ s) = Some (length p)"
    using assms by (intro str_find_eqI) auto
  then show ?thesis by (simp add: findPos_def)
qed

lemma split_put:
  assumes cmd: "cmd \<noteq> []" "\<forall>c \<in> set cmd. \<not> isspace c"
    and k: "k \<noteq> []" "\<forall>c \<in> set k. \<not> isspace c"
    and ws: "ws1 \<noteq> []" "ws2 \<noteq> []" "\<forall>c \<in> set ws1. isspace c" "\<forall>c \<in> set ws2. isspace c"
    and v: "v \<noteq> []" "\<not> isspace (hd v)"
  shows "\<exists>w ws. split (cmd @ ws1 @ k @ ws2 @ v) = cmd # k # w # ws"
proof -
  have "split (cmd @ ws1 @ k @ ws2 @ v) = cmd # split (ws1 @ k @ ws2 @ v)"
    using split_word [OF cmd, of "[]" "ws1 @ k @ ws2 @ v"] ws(1,3) by (cases ws1) simp_all
  moreover have "split (ws1 @ k @ ws2 @ v) = k # split (ws2 @ v)"
    using split_word [OF k ws(3), of "ws2 @ v"] ws(2,4) by (cases ws2) simp_all
  moreover have "split (ws2 @ v) \<noteq> []"
  proof -
    obtain c v' where "v = c # v'" "\<not> isspace c" using v by (cases v) auto
    then have "\<not> (\<forall>c \<in> set (ws2 @ v). isspace c)" by auto
    then show ?thesis by (subst split.simps) (simp add: Let_def)
  qed
  ultimately show ?thesis by (cases "split (ws2 @ v)") simp_all
qed

text \<open>
  A key that does not also occur earlier in the line: the value is the rest of the line behind the
  key and the white space after it, inner spaces included.
\<close>

lemma parseLine_put:
  assumes cmd: "cmd \<noteq> []" "\<forall>c \<in> set cmd. \<not> isspace c" "toUpper cmd = ''PUT'' \<or> toUpper cmd = ''SET''"
    and k: "k \<noteq> []" "\<forall>c \<in> set k. \<not> isspace c"
    and ws: "ws1 \<noteq> []" "ws2 \<noteq> []" "\<forall>c \<in> set ws1. isspace c" "\<forall>c \<in> set ws2. isspace c"
    and v: "v \<noteq> []" "\<not> isspace (hd v)"
    and first: "\<forall>i < length (cmd @ ws1). take (length k) (drop i ((cmd @ ws1) @ k @ ws2 @ v)) \<noteq> k"
  shows "parseLine (cmd @ ws1 @ k @ ws2 @ v) r = r\<lparr>command := kPut, req_key := k, req_value := v\<rparr>"
proof -
  define line where "line = (cmd @ ws1) @ k @ ws2 @ v"
  have "line = cmd @ ws1 @ k @ ws2 @ v" by (simp add: line_def)
  then obtain w ws where sp: "split line = cmd # k # w # ws"
    using split_put [OF cmd(1,2) k ws v] by blast
  have "findPos k line = length (cmd @ ws1)" unfolding line_def using first by (rule find_word)
  then have "drop (skipSpaces line (findPos k line + length k)) line = dropWhile isspace (ws2 @ v)"
    by (subst skipSpaces_eq) (simp_all add: line_def)
  also have "\<dots> = v" using ws(4) v by (cases v) (simp_all add: dropWhile_append2)
  finally have "putCommand line (split line) r = r\<lparr>command := kPut, req_key := k, req_value := v\<rparr>"
    by (simp add: putCommand_def sp Let_def)
  moreover have "line \<noteq> []" using cmd(1) by (simp add: line_def)
  ultimately have "parseLine line r = r\<lparr>command := kPut, req_key := k, req_value := v\<rparr>"
    using cmd(3) sp by (auto simp: parseLine_def Let_def)
  then show ?thesis by (simp add: line_def)
qed

text \<open>
  A word cannot straddle the white space behind the command, so the search for the key goes wrong
  exactly when the key occurs in the command word.
\<close>

lemma not_in_command:
  assumes k: "k \<noteq> []" "\<forall>c \<in> set k. \<not> isspace c" and ws: "ws \<noteq> []" "\<forall>c \<in> set ws. isspace c"
    and none: "str_find k cmd = None"
  shows "\<forall>i < length (cmd @ ws). take (length k) (drop i ((cmd @ ws) @ r)) \<noteq> k"
proof (intro allI impI notI)
  fix i assume i: "i < length (cmd @ ws)" and t: "take (length k) (drop i ((cmd @ ws) @ r)) = k"
  show False
  proof (cases "i + length k \<le> length cmd")
    case True
    then have "take (length k) (drop i cmd) = k" using t by simp
    with none True show False by (simp add: str_find_None)
  next
    case False
    define j where "j = max i (length cmd)"
    have j: "i \<le> j" "j < length (cmd @ ws)" "length cmd \<le> j" "j - i < length k"
      using i False k(1) ws(1) by (auto simp: j_def max_def simp flip: length_greater_0_conv)
    have "k ! (j - i) = take (length k) (drop i ((cmd @ ws) @ r)) ! (j - i)" by (simp only: t)
    also have "\<dots> = drop i ((cmd @ ws) @ r) ! (j - i)" using j by (intro nth_take) simp
    also have "\<dots> = ((cmd @ ws) @ r) ! j" using j i by (subst nth_drop) simp_all
    also have "\<dots> = ws ! (j - length cmd)" using j by (auto simp: nth_append)
    finally have "k ! (j - i) = ws ! (j - length cmd)" .
    moreover have "k ! (j - i) \<in> set k" "ws ! (j - length cmd) \<in> set ws" using j by simp_all
    ultimately show False using k(2) ws(2) by metis
  qed
qed

lemma str_find_prefix: "str_find k cmd = Some i \<Longrightarrow> str_find k (cmd @ r) = Some i"
proof -
  assume f: "str_find k cmd = Some i"
  from str_find_Some [OF f] have le: "i + length k \<le> length cmd" "take (length k) (drop i cmd) = k" by simp_all
  have "take (length k) (drop j cmd) \<noteq> k" if "j < i" for j using str_find_first [OF f that] .
  with le show ?thesis by (intro str_find_eqI) auto
qed

text \<open>Then the value that is stored carries the key, and often a piece of the command, in front.\<close>

lemma parseLine_put_hit:
  assumes cmd: "\<forall>c \<in> set cmd. \<not> isspace c" "toUpper cmd = ''PUT'' \<or> toUpper cmd = ''SET''"
    and k: "k \<noteq> []" "\<forall>c \<in> set k. \<not> isspace c"
    and ws: "ws1 \<noteq> []" "ws2 \<noteq> []" "\<forall>c \<in> set ws1. isspace c" "\<forall>c \<in> set ws2. isspace c"
    and v: "v \<noteq> []" "\<not> isspace (hd v)"
    and hit: "str_find k cmd = Some i"
  shows "parseLine (cmd @ ws1 @ k @ ws2 @ v) r = r\<lparr>command := kPut, req_key := k,
    req_value := (if i + length k = length cmd then k @ ws2 @ v
                  else drop (i + length k) cmd @ ws1 @ k @ ws2 @ v)\<rparr>"
proof -
  define line where "line = cmd @ ws1 @ k @ ws2 @ v"
  let ?rest = "drop (i + length k) cmd"
  have ne: "cmd \<noteq> []" using cmd(2) by (auto simp: toUpper_def)
  obtain w ws where sp: "split line = cmd # k # w # ws"
    using split_put [OF ne cmd(1) k ws v] unfolding line_def by blast
  have le: "i + length k \<le> length cmd" using str_find_Some [OF hit] by simp
  have "drop (skipSpaces line (findPos k line + length k)) line = dropWhile isspace (drop (i + length k) line)"
    using le by (subst skipSpaces_eq) (simp_all add: line_def findPos_def str_find_prefix [OF hit])
  also have "drop (i + length k) line = ?rest @ ws1 @ k @ ws2 @ v" using le by (simp add: line_def)
  also have "dropWhile isspace \<dots> = (if i + length k = length cmd then k @ ws2 @ v else ?rest @ ws1 @ k @ ws2 @ v)"
  proof (cases "i + length k = length cmd")
    case True
    then show ?thesis using ws(3) k by (cases k) (simp_all add: dropWhile_append2)
  next
    case False
    then obtain c cs where "?rest = c # cs" using le by (cases ?rest) auto
    moreover from this have "c \<in> set cmd" by (metis in_set_dropD list.set_intros(1))
    ultimately show ?thesis using False cmd(1) by simp
  qed
  finally have "putCommand line (split line) r = r\<lparr>command := kPut, req_key := k,
      req_value := (if i + length k = length cmd then k @ ws2 @ v else ?rest @ ws1 @ k @ ws2 @ v)\<rparr>"
    by (simp add: putCommand_def sp)
  moreover have "line \<noteq> []" using ne by (simp add: line_def)
  ultimately have "parseLine line r = r\<lparr>command := kPut, req_key := k,
      req_value := (if i + length k = length cmd then k @ ws2 @ v else ?rest @ ws1 @ k @ ws2 @ v)\<rparr>"
    using cmd(2) sp by (auto simp: parseLine_def Let_def)
  then show ?thesis by (simp add: line_def)
qed

text \<open>The commands with one key.\<close>

lemma parseLine_key:
  assumes cmd: "cmd \<noteq> []" "\<forall>c \<in> set cmd. \<not> isspace c"
    and k: "k \<noteq> []" "\<forall>c \<in> set k. \<not> isspace c"
    and ws: "ws \<noteq> []" "\<forall>c \<in> set ws. isspace c" "rest = [] \<or> isspace (hd rest)"
    and word: "(toUpper cmd, code) \<in> {(''GET'', kGet), (''DEL'', kDel), (''DELETE'', kDel), (''EXISTS'', kExists)}"
  shows "parseLine (cmd @ ws @ k @ rest) r = r\<lparr>command := code, req_key := k\<rparr>"
proof -
  define line where "line = cmd @ ws @ k @ rest"
  have "split line = cmd # split (ws @ k @ rest)"
    using split_word [OF cmd(1,2), of "[]" "ws @ k @ rest"] ws(1,2) by (cases ws) (simp_all add: line_def)
  moreover have "split (ws @ k @ rest) = k # split rest"
    by (rule split_word [OF k ws(2,3)])
  ultimately have "split line = cmd # k # split rest" "line \<noteq> []" using cmd(1) by (simp_all add: line_def)
  then have "parseLine line r = r\<lparr>command := code, req_key := k\<rparr>"
    using word by (auto simp: parseLine_def keyCommand_def Let_def)
  then show ?thesis by (simp add: line_def)
qed

subsection \<open>Properties\<close>

text \<open>
  C27: framing.  If the buffer holds a line feed, \<open>parseRequest\<close> succeeds, removes exactly the bytes
  up to and with the first one, and the request is the parse of the line without its carriage
  return; if not, it returns false and changes neither the buffer nor the request.
\<close>

theorem framing_exact:
  assumes "buf_inv b"
  shows "(LF \<notin> set (content b) \<longrightarrow> parseRequest b rq = (False, b, rq)) \<and>
    (\<forall>l r. content b = l @ LF # r \<and> LF \<notin> set l \<longrightarrow>
       (\<exists>b'. parseRequest b rq = (True, b', parseLine (lineText l) rq) \<and> buf_inv b' \<and> content b' = r))"
  using parseRequest_incomplete [of b rq] parseRequest_line [OF assms] by blast

theorem framing_exact_witness:
  "\<exists>b'. parseRequest (append_bytes (''PING'' @ [CR, LF] @ ''GE'') (buf_new 16)) Request_default =
      (True, b', Request_default\<lparr>command := kPing\<rparr>) \<and> content b' = ''GE''"
proof -
  have b: "buf_inv (append_bytes (''PING'' @ [CR, LF] @ ''GE'') (buf_new 16))"
    "content (append_bytes (''PING'' @ [CR, LF] @ ''GE'') (buf_new 16)) = (''PING'' @ [CR]) @ LF # ''GE''"
    using append_bytes_inv [of "buf_new 16" "''PING'' @ [CR, LF] @ ''GE''"] by simp_all
  have "parseLine (lineText (''PING'' @ [CR])) Request_default = Request_default\<lparr>command := kPing\<rparr>" by code_simp
  moreover have "LF \<notin> set (''PING'' @ [CR])" by simp
  ultimately show ?thesis using framing_exact [OF b(1), of Request_default] b(2) by metis
qed

text \<open>
  A PUT (or SET, in any case) whose key does not occur inside the command word yields exactly
  that key, and as value everything behind the white space that follows the key, inner spaces and
  all.
\<close>

lemma put_value:
  assumes "cmd \<noteq> []" "\<forall>c \<in> set cmd. \<not> isspace c" "toUpper cmd = ''PUT'' \<or> toUpper cmd = ''SET''"
    and "k \<noteq> []" "\<forall>c \<in> set k. \<not> isspace c" "str_find k cmd = None"
    and "ws1 \<noteq> []" "ws2 \<noteq> []" "\<forall>c \<in> set ws1. isspace c" "\<forall>c \<in> set ws2. isspace c"
    and "v \<noteq> []" "\<not> isspace (hd v)"
  shows "parseLine (cmd @ ws1 @ k @ ws2 @ v) r = r\<lparr>command := kPut, req_key := k, req_value := v\<rparr>"
  by (rule parseLine_put [OF assms(1-5,7-12) not_in_command [OF assms(4,5,7,9,6)]])

text \<open>
  The search for the key starts at the beginning of the line.  When the key occurs inside the
  command word, the value that is parsed is not \<open>v\<close>: it is everything behind that occurrence, the
  key itself included.
\<close>

lemma put_value_hits_command:
  assumes "\<forall>c \<in> set cmd. \<not> isspace c" "toUpper cmd = ''PUT'' \<or> toUpper cmd = ''SET''"
    and "k \<noteq> []" "\<forall>c \<in> set k. \<not> isspace c" "str_find k cmd = Some i"
    and "ws1 \<noteq> []" "ws2 \<noteq> []" "\<forall>c \<in> set ws1. isspace c" "\<forall>c \<in> set ws2. isspace c"
    and "v \<noteq> []" "\<not> isspace (hd v)"
  shows "req_key (parseLine (cmd @ ws1 @ k @ ws2 @ v) r) = k \<and>
    req_value (parseLine (cmd @ ws1 @ k @ ws2 @ v) r) \<noteq> v \<and>
    suffix (k @ ws2 @ v) (req_value (parseLine (cmd @ ws1 @ k @ ws2 @ v) r))"
  unfolding parseLine_put_hit [OF assms(1-4,6-11,5)] using assms(3) by (auto simp: suffix_def)

end
