(* ===== verification/KV_Server.thy ===== *)
theory KV_Server
  imports KV_Store Codec
begin

text \<open>
  The server of \<open>src/server/kv_server.h\<close>, \<open>kv_server.cpp\<close> and \<open>main.cpp\<close>: one request against the
  store, the loop over the requests of an input buffer, saving and loading, and the specification
  it refines: requests acting on a finite map, read off a byte stream line by line.  What the code
  does to the connection (\<open>send\<close>, \<open>shutdown\<close>) is a list of effects.
\<close>

subsection \<open>One request\<close>

definition handleRequest :: "Request \<Rightarrow> kvstore \<Rightarrow> (kvstore \<times> Response) option" where
  "handleRequest r st =
     (case command r of
        kPut \<Rightarrow>
          if req_key r = [] then Some (st, resp_error ''Key cannot be empty'')
          else do { (st', isNew) \<leftarrow> kv_put (req_key r) (req_value r) st;
                    Some (st', resp_ok (if isNew then ''CREATED'' else ''UPDATED'')) }
      | kGet \<Rightarrow> do { v \<leftarrow> kv_get (req_key r) st;
                    Some (st, case v of Some x \<Rightarrow> resp_ok x | None \<Rightarrow> resp_notFound) }
      | kDel \<Rightarrow> do { (st', removed) \<leftarrow> kv_del (req_key r) st;
                    Some (st', if removed then resp_ok ''DELETED'' else resp_notFound) }
      | kExists \<Rightarrow> do { b \<leftarrow> kv_exists (req_key r) st;
                       Some (st, if b then resp_ok ''1'' else resp_ok ''0'') }
      | kSize \<Rightarrow> Some (st, resp_ok (to_string (kv_size st)))
      | kClear \<Rightarrow> do { st' \<leftarrow> kv_clear st; Some (st', resp_ok ''CLEARED'') }
      | kPing \<Rightarrow> Some (st, resp_pong)
      | kQuit \<Rightarrow> Some (st, resp_bye)
      | kUnknown \<Rightarrow> Some (st, resp_error ''Unknown command''))"

subsection \<open>A connection's callbacks\<close>

datatype effect = Send string | Shutdown

definition sendResponse :: "Response \<Rightarrow> effect" where
  "sendResponse r = Send (encodeResponse r)"

definition welcomeText :: string where
  "welcomeText = ''+WELCOME ReactorKV Server'' @ [CR, LF]"

definition onConnection :: "bool \<Rightarrow> effect list" where
  "onConnection conn = (if conn then [Send welcomeText] else [])"

lemma retrieve_less: "0 < n \<Longrightarrow> 0 < readableBytes b \<Longrightarrow> readableBytes (retrieve n b) < readableBytes b"
  by (auto simp: retrieve_def retrieveAll_def readableBytes_def size_sub_add)

lemma parseRequest_shorter:
  assumes "parseRequest b q = (True, b', r)" "0 < readableBytes b"
  shows "readableBytes b' < readableBytes b"
proof -
  from assms(1) obtain n where "b' = retrieve n b" "0 < n"
    by (auto simp: parseRequest_def Let_def split: option.splits if_splits)
  with assms(2) show ?thesis by (simp add: retrieve_less)
qed

text \<open>The loop of \<open>onMessage\<close>: every pass takes at least one byte off the buffer.\<close>

function onMessage :: "buffer \<Rightarrow> kvstore \<Rightarrow> (buffer \<times> kvstore \<times> effect list) option" where
  "onMessage b st =
     (if 0 < readableBytes b then
        (case parseRequest b Request_default of
           (parsed, b1, request) \<Rightarrow>
             if \<not> parsed then Some (b1, st, [])
             else (case handleRequest request st of
                 None \<Rightarrow> None
               | Some (st1, response) \<Rightarrow>
                   if command request = kQuit then Some (b1, st1, [sendResponse response, Shutdown])
                   else map_option (\<lambda>(b2, st2, es). (b2, st2, sendResponse response # es)) (onMessage b1 st1)))
      else Some (b, st, []))"
  by pat_completeness auto
termination
  by (relation "measure (\<lambda>(b, st). readableBytes b)") (auto intro: parseRequest_shorter [OF sym])

declare onMessage.simps [simp del]

text \<open>One readable event: the bytes \<open>d\<close> arrive and the message callback runs.\<close>

definition receive :: "string \<Rightarrow> buffer \<times> kvstore \<Rightarrow> (buffer \<times> kvstore \<times> effect list) option" where
  "receive d = (\<lambda>(b, st). onMessage (fst (readFd (Inr d) b)) st)"

fun receiveAll :: "string list \<Rightarrow> buffer \<times> kvstore \<Rightarrow> (buffer \<times> kvstore \<times> effect list) option" where
  "receiveAll [] s = Some (fst s, snd s, [])"
| "receiveAll (d # ds) s = do {
     (b1, st1, es1) \<leftarrow> receive d s;
     (b2, st2, es2) \<leftarrow> receiveAll ds (b1, st1);
     Some (b2, st2, es1 @ es2) }"

subsection \<open>The server and its data file\<close>

record kvserver =
  store_of :: kvstore
  dataFile :: string

definition srv_new :: "nat \<Rightarrow> (nat \<Rightarrow> rat) \<Rightarrow> kvserver" where
  "srv_new m r = \<lparr>store_of = kv_new m r, dataFile = []\<rparr>"

definition loadData :: "string \<Rightarrow> filesys \<Rightarrow> kvserver \<Rightarrow> (kvserver \<times> bool) option" where
  "loadData path fs s = do {
     (st, ok) \<leftarrow> kv_load path fs (store_of s);
     Some (s\<lparr>dataFile := path, store_of := st\<rparr>, ok) }"

definition saveData :: "string \<Rightarrow> filesys \<Rightarrow> kvserver \<Rightarrow> (filesys \<times> kvserver \<times> bool) option" where
  "saveData path fs s = do {
     (fs', ok) \<leftarrow> kv_save path fs (store_of s);
     Some (fs', s\<lparr>dataFile := path\<rparr>, ok) }"

text \<open>The destructor saves once more; its result is dropped.\<close>

definition srv_dtor :: "filesys \<Rightarrow> kvserver \<Rightarrow> filesys option" where
  "srv_dtor fs s = (if dataFile s \<noteq> [] then map_option fst (kv_save (dataFile s) fs (store_of s)) else Some fs)"

text \<open>
  \<open>main\<close> around its event loop: a server loads the data file if one is named (a failure only
  logs); after the loop it saves under the same name and is destroyed.
\<close>

definition main_start :: "nat \<Rightarrow> (nat \<Rightarrow> rat) \<Rightarrow> string \<Rightarrow> filesys \<Rightarrow> kvserver option" where
  "main_start m r file fs =
     (if file \<noteq> [] then map_option fst (loadData file fs (srv_new m r)) else Some (srv_new m r))"

definition main_exit :: "string \<Rightarrow> filesys \<Rightarrow> kvserver \<Rightarrow> filesys option" where
  "main_exit file fs s =
     (if file \<noteq> [] then do { (fs', s', ok) \<leftarrow> saveData file fs s; srv_dtor fs' s' }
      else srv_dtor fs s)"

subsection \<open>The specification\<close>

type_synonym kvmap = "string \<Rightarrow> string option"

definition spec_request :: "Request \<Rightarrow> kvmap \<Rightarrow> kvmap \<times> Response" where
  "spec_request r m =
     (let k = req_key r in
      case command r of
        kPut \<Rightarrow> if k = [] then (m, resp_error ''Key cannot be empty'')
               else (m(k \<mapsto> req_value r), resp_ok (if m k = None then ''CREATED'' else ''UPDATED''))
      | kGet \<Rightarrow> (m, case m k of Some x \<Rightarrow> resp_ok x | None \<Rightarrow> resp_notFound)
      | kDel \<Rightarrow> (m(k := None), if m k = None then resp_notFound else resp_ok ''DELETED'')
      | kExists \<Rightarrow> (m, resp_ok (if m k = None then ''0'' else ''1''))
      | kSize \<Rightarrow> (m, resp_ok (to_string (int (card (dom m)))))
      | kClear \<Rightarrow> (Map.empty, resp_ok ''CLEARED'')
      | kPing \<Rightarrow> (m, resp_pong)
      | kQuit \<Rightarrow> (m, resp_bye)
      | kUnknown \<Rightarrow> (m, resp_error ''Unknown command''))"

text \<open>The request one line asks for, and the service of a byte stream: rest, map, effects.\<close>

definition request_of :: "string \<Rightarrow> Request" where
  "request_of l = parseLine (lineText l) Request_default"

function serve :: "string \<Rightarrow> kvmap \<Rightarrow> string \<times> kvmap \<times> effect list" where
  "serve s m =
     (if LF \<notin> set s then (s, m, [])
      else let l = takeWhile (\<lambda>c. c \<noteq> LF) s;
               rest = drop (length l + 1) s;
               (m1, response) = spec_request (request_of l) m
        in if command (request_of l) = kQuit then (rest, m1, [sendResponse response, Shutdown])
           else let (s2, m2, es) = serve rest m1 in (s2, m2, sendResponse response # es))"
  by pat_completeness auto
termination
  by (relation "measure (\<lambda>(s, m). length s)") (auto intro: diff_less length_pos_if_in_set)

declare serve.simps [simp del]

subsection \<open>The server refines its specification\<close>

lemma handleRequest_inv:
  assumes ok: "kv_inv st"
  shows "\<exists>st'. handleRequest r st = Some (st', snd (spec_request r (kv_map st))) \<and> kv_inv st' \<and>
    kv_map st' = fst (spec_request r (kv_map st))"
proof (cases "command r")
  case kPut
  then show ?thesis
  proof (cases "req_key r = []")
    case False
    obtain st' where "kv_put (req_key r) (req_value r) st = Some (st', kv_map st (req_key r) = None)"
      "kv_inv st'" "kv_map st' = (kv_map st)(req_key r \<mapsto> req_value r)"
      using kv.putE [OF ok False] by blast
    with kPut False show ?thesis by (simp add: handleRequest_def spec_request_def Let_def)
  qed (simp add: handleRequest_def spec_request_def Let_def ok)
next
  case kGet
  then show ?thesis using ok by (auto simp: handleRequest_def spec_request_def kv.get split: option.split)
next
  case kDel
  obtain st' where "kv_del (req_key r) st = Some (st', kv_map st (req_key r) \<noteq> None)"
    "kv_inv st'" "kv_map st' = (kv_map st)(req_key r := None)"
    using kv.delE [OF ok] by blast
  with kDel show ?thesis by (auto simp: handleRequest_def spec_request_def Let_def)
next
  case kExists
  then show ?thesis using ok by (simp add: handleRequest_def spec_request_def kv.exists)
next
  case kSize
  then show ?thesis using ok by (simp add: handleRequest_def spec_request_def kv.size)
next
  case kClear
  obtain st' where "kv_clear st = Some st'" "kv_inv st'" "kv_map st' = Map.empty"
    using kv.clearE [OF ok] by blast
  with kClear show ?thesis by (simp add: handleRequest_def spec_request_def)
qed (simp_all add: handleRequest_def spec_request_def ok)

lemma handleRequestE:
  assumes "kv_inv st"
  obtains st' where "handleRequest r st = Some (st', snd (spec_request r (kv_map st)))" "kv_inv st'"
    "kv_map st' = fst (spec_request r (kv_map st))"
  using handleRequest_inv [OF assms] by blast

text \<open>The two equations of \<open>serve\<close>.\<close>

lemma serve_stop: "LF \<notin> set s \<Longrightarrow> serve s m = (s, m, [])"
  by (simp add: serve.simps)

lemma serve_line:
  assumes "LF \<notin> set l" "spec_request (request_of l) m = (m1, resp)"
  shows "serve (l @ LF # r) m =
    (if command (request_of l) = kQuit then (r, m1, [sendResponse resp, Shutdown])
     else let (s2, m2, es) = serve r m1 in (s2, m2, sendResponse resp # es))"
proof -
  have "takeWhile (\<lambda>c. c \<noteq> LF) (l @ LF # r) = l" using assms(1) by (subst takeWhile_append2) auto
  with assms(2) show ?thesis by (subst serve.simps) simp
qed

lemma onMessage_spec:
  assumes "buf_inv b" "kv_inv st"
  shows "\<exists>b' st' es. onMessage b st = Some (b', st', es) \<and> buf_inv b' \<and> kv_inv st' \<and>
    serve (content b) (kv_map st) = (content b', kv_map st', es)"
  using assms
proof (induction "length (content b)" arbitrary: b st rule: less_induct)
  case less
  from \<open>buf_inv b\<close> show ?case
  proof (cases rule: framing.cases_line)
    case none
    with less.prems show ?thesis
      by (subst onMessage.simps) (auto simp: serve_stop split: prod.split)
  next
    case (line l r b1)
    obtain st1 where st1: "handleRequest (request_of l) st = Some (st1, snd (spec_request (request_of l) (kv_map st)))"
      "kv_inv st1" "kv_map st1 = fst (spec_request (request_of l) (kv_map st))"
      using less.prems(2) by (rule handleRequestE)
    let ?resp = "snd (spec_request (request_of l) (kv_map st))"
    have sp: "spec_request (request_of l) (kv_map st) = (kv_map st1, ?resp)" using st1(3) by simp
    have "0 < readableBytes b" using line(1) less.prems(1) by (simp add: readable_content)
    then have step: "onMessage b st = (if command (request_of l) = kQuit
        then Some (b1, st1, [sendResponse ?resp, Shutdown])
        else map_option (\<lambda>(b2, st2, es). (b2, st2, sendResponse ?resp # es)) (onMessage b1 st1))"
      using line(3) st1(1) by (subst onMessage.simps) (simp add: request_of_def)
    show ?thesis
    proof (cases "command (request_of l) = kQuit")
      case True
      then show ?thesis using step line st1 serve_line [OF line(2) sp, of r] by simp
    next
      case False
      have "length (content b1) < length (content b)" using line(1,5) by simp
      from less.hyps [OF this line(4) st1(2)] obtain b' st' es where
        "onMessage b1 st1 = Some (b', st', es)" "buf_inv b'" "kv_inv st'"
        "serve (content b1) (kv_map st1) = (content b', kv_map st', es)" by blast
      with False show ?thesis using step line serve_line [OF line(2) sp, of r] by simp
    qed
  qed
qed

text \<open>
  Service can be interrupted and resumed at any byte, as long as nobody asked to quit; after a QUIT
  the bytes behind it stay in the buffer.
\<close>

lemma serve_append:
  assumes "serve s m = (r, m1, es)"
  shows "serve (s @ t) m = (if Shutdown \<in> set es then (r @ t, m1, es)
    else case serve (r @ t) m1 of (r2, m2, es2) \<Rightarrow> (r2, m2, es @ es2))"
  using assms
proof (induction "length s" arbitrary: s m es rule: less_induct)
  case less
  show ?case
  proof (cases "LF \<in> set s")
    case False
    with less.prems show ?thesis by (auto simp: serve_stop split: prod.split)
  next
    case True
    then obtain l s' where s: "s = l @ LF # s'" "LF \<notin> set l" by (meson split_list_first)
    obtain m' resp where sp: "spec_request (request_of l) m = (m', resp)" by (cases "spec_request (request_of l) m")
    obtain r' m'' es' where sv: "serve s' m' = (r', m'', es')" by (cases "serve s' m'")
    show ?thesis
    proof (cases "command (request_of l) = kQuit")
      case True
      then show ?thesis using less.prems s(1) serve_line [OF s(2) sp] by auto
    next
      case nq: False
      with less.prems s(1) serve_line [OF s(2) sp, of s'] sv
      have e: "es = sendResponse resp # es'" "r' = r" "m'' = m1" by auto
      have "serve (s' @ t) m' = (if Shutdown \<in> set es' then (r @ t, m1, es')
          else case serve (r @ t) m1 of (r2, m2, es2) \<Rightarrow> (r2, m2, es' @ es2))"
        by (rule less.hyps) (use s sv e in auto)
      with nq s(1) e serve_line [OF s(2) sp, of "s' @ t"] show ?thesis
        by (simp add: sendResponse_def split: prod.split)
    qed
  qed
qed

text \<open>Without a QUIT only an incomplete line is left over.\<close>

lemma serve_rest: "serve s m = (r, m1, es) \<Longrightarrow> Shutdown \<notin> set es \<Longrightarrow> LF \<notin> set r"
proof (induction "length s" arbitrary: s m es rule: less_induct)
  case less
  show ?case
  proof (cases "LF \<in> set s")
    case True
    then obtain l s' where s: "s = l @ LF # s'" "LF \<notin> set l" by (meson split_list_first)
    obtain m' resp where sp: "spec_request (request_of l) m = (m', resp)" by (cases "spec_request (request_of l) m")
    show ?thesis
    proof (cases "serve s' m'")
      case (fields r' m'' es')
      with less.prems s(1) serve_line [OF s(2) sp, of s'] have "serve s' m' = (r, m1, es')" "Shutdown \<notin> set es'"
        by (auto split: if_splits)
      with less.hyps [of s' m' es'] s(1) show ?thesis by simp
    qed
  qed (use less.prems in \<open>simp add: serve_stop\<close>)
qed

lemma receive_spec:
  assumes "buf_inv b" "kv_inv st" "length d \<le> kExtraBuf"
  shows "\<exists>b' st' es. receive d (b, st) = Some (b', st', es) \<and> buf_inv b' \<and> kv_inv st' \<and>
    serve (content b @ d) (kv_map st) = (content b', kv_map st', es)"
proof -
  have "length d \<le> readCapacity b" using assms(3) by (simp add: readCapacity_def)
  then obtain b1 where "readFd (Inr d) b = (b1, int (length d), None)" "buf_inv b1" "content b1 = content b @ d"
    using readFd_ok [OF assms(1)] by blast
  with onMessage_spec [of b1 st] assms(2) show ?thesis by (simp add: receive_def)
qed

lemma receiveAll_spec:
  assumes "buf_inv b" "kv_inv st" "LF \<notin> set (content b)"
    and "\<forall>d \<in> set ds. length d \<le> kExtraBuf"
    and "serve (content b @ concat ds) (kv_map st) = (r, m, es)" "Shutdown \<notin> set es"
  shows "\<exists>b' st'. receiveAll ds (b, st) = Some (b', st', es) \<and> buf_inv b' \<and> kv_inv st' \<and>
    content b' = r \<and> kv_map st' = m"
  using assms
proof (induction ds arbitrary: b st es)
  case Nil
  then show ?case by (simp add: serve_stop)
next
  case (Cons d ds)
  have "length d \<le> kExtraBuf" using Cons.prems(4) by simp
  then obtain b1 st1 es1 where r1: "receive d (b, st) = Some (b1, st1, es1)" "buf_inv b1" "kv_inv st1"
      "serve (content b @ d) (kv_map st) = (content b1, kv_map st1, es1)"
    using receive_spec [OF Cons.prems(1,2)] by blast
  obtain r2 m2 es2 where r2: "serve (content b1 @ concat ds) (kv_map st1) = (r2, m2, es2)"
    by (cases "serve (content b1 @ concat ds) (kv_map st1)")
  from serve_append [OF r1(4), of "concat ds"] r2 Cons.prems(5,6)
  have eq: "es = es1 @ es2" "r2 = r" "m2 = m" "Shutdown \<notin> set es1" "Shutdown \<notin> set es2"
    by (auto split: if_splits)
  from serve_rest [OF r1(4) eq(4)] have "LF \<notin> set (content b1)" .
  from Cons.IH [OF r1(2,3) this _ r2 [unfolded eq(2,3)] eq(5)] Cons.prems(4)
  obtain b' st' where "receiveAll ds (b1, st1) = Some (b', st', es2)" "buf_inv b'" "kv_inv st'"
    "content b' = r" "kv_map st' = m" by auto
  with r1(1) eq(1) show ?case by simp
qed

subsection \<open>What a restart keeps\<close>

definition allStorable :: "kvmap \<Rightarrow> bool" where
  "allStorable m \<longleftrightarrow> (\<forall>k v. m k = Some v \<longrightarrow> storable (k, v))"

lemma kv_list_storable:
  assumes "kv_inv st" "allStorable (kv_map st)"
  shows "\<forall>kv \<in> set (kv_list st). storable kv"
proof
  fix kv assume "kv \<in> set (kv_list st)"
  then have "kv_map st (fst kv) = Some (snd kv)"
    using alSorted_distinct [OF kv_sorted [OF assms(1)]] by (simp add: map_of_is_SomeI)
  then show "storable kv" using assms(2) by (fastforce simp: allStorable_def)
qed

lemma map_of_rev_sorted: "kv_inv st \<Longrightarrow> map_of (rev (kv_list st)) = kv_map st"
  by (simp add: kv_sorted map_of_rev_alSorted)

lemma main_exit_inv:
  assumes "kv_inv (store_of sv)" "file \<noteq> []" "canCreate fs file"
  shows "\<exists>fs'. main_exit file fs sv = Some fs' \<and>
    fileText fs' file = Some (take (room fs file) (dumpText (kv_list (store_of sv)))) \<and>
    (\<forall>p. p \<noteq> file \<longrightarrow> fileText fs' p = fileText fs p)"
  using assms by (simp add: main_exit_def saveData_def srv_dtor_def kv_save_inv)

lemma main_start_inv:
  assumes "file \<noteq> []"
  shows "\<exists>sv. main_start m r file fs = Some sv \<and> kv_inv (store_of sv) \<and> dataFile sv = file \<and>
    kv_map (store_of sv) =
      (case fileText fs file of None \<Rightarrow> Map.empty | Some body \<Rightarrow> map_of (rev (readPairs body)))"
  using kv_load_inv [OF kv_new_inv(1) assms, of fs m r] assms
  by (auto simp: main_start_def loadData_def srv_new_def)

lemma restart_inv:
  assumes "kv_inv (store_of sv)" "allStorable (kv_map (store_of sv))"
    and "file \<noteq> []" "canCreate fs file" "length (dumpText (kv_list (store_of sv))) \<le> room fs file"
  shows "\<exists>fs' sv'. main_exit file fs sv = Some fs' \<and> main_start m r file fs' = Some sv' \<and>
    kv_inv (store_of sv') \<and> kv_map (store_of sv') = kv_map (store_of sv)"
proof -
  obtain fs' where fs': "main_exit file fs sv = Some fs'"
      "fileText fs' file = Some (dumpText (kv_list (store_of sv)))"
    using main_exit_inv [OF assms(1,3,4)] assms(5) by auto
  obtain sv' where "main_start m r file fs' = Some sv'" "kv_inv (store_of sv')"
      "kv_map (store_of sv') = map_of (rev (readPairs (dumpText (kv_list (store_of sv)))))"
    using main_start_inv [OF assms(3), of m r fs'] fs'(2) by auto
  moreover have "readPairs (dumpText (kv_list (store_of sv))) = kv_list (store_of sv)"
    by (rule readPairs_dumpText) (rule kv_list_storable [OF assms(1,2)])
  ultimately show ?thesis using fs'(1) assms(1) by (simp add: map_of_rev_sorted)
qed

text \<open>Lines without a line feed give keys and values without one.\<close>

lemma split_subset: "w \<in> set (split s) \<Longrightarrow> set w \<subseteq> set s"
proof (induction s rule: split.induct)
  case (1 s)
  let ?t = "dropWhile isspace s"
  have sub: "set ?t \<subseteq> set s" by (auto dest: set_dropWhileD)
  have step: "split s = (if ?t = [] then []
    else takeWhile (\<lambda>c. \<not> isspace c) ?t # split (dropWhile (\<lambda>c. \<not> isspace c) ?t))"
    by (subst split.simps) (simp only: Let_def)
  have ne: "?t \<noteq> []" using "1.prems" step by (metis empty_iff list.set(1))
  have "w = takeWhile (\<lambda>c. \<not> isspace c) ?t \<or> w \<in> set (split (dropWhile (\<lambda>c. \<not> isspace c) ?t))"
    using "1.prems" unfolding step if_not_P [OF ne] by (simp only: list.set insert_iff)
  then show ?case
  proof
    assume "w = takeWhile (\<lambda>c. \<not> isspace c) ?t"
    then show ?thesis using sub by (auto dest: set_takeWhileD)
  next
    assume "w \<in> set (split (dropWhile (\<lambda>c. \<not> isspace c) ?t))"
    from "1.IH" [OF refl ne this] show ?thesis using sub by (meson set_dropWhileD subset_iff)
  qed
qed

lemma set_lineText: "set (lineText l) \<subseteq> set l"
  by (auto simp: lineText_def popCR_def dest: in_set_butlastD)

lemma parseLine_put_words:
  assumes "command (parseLine l Request_default) = kPut"
  shows "3 \<le> length (split l) \<and> req_key (parseLine l Request_default) = split l ! 1 \<and>
    req_value (parseLine l Request_default) = drop (skipSpaces l (findPos (split l ! 1) l + length (split l ! 1))) l"
  using assms
  by (auto simp: parseLine_def putCommand_def keyCommand_def Let_def Request_default_def split: if_splits)

lemma request_storable:
  assumes "LF \<notin> set l" "command (request_of l) = kPut" "kDelimiter \<notin> set (req_key (request_of l))"
  shows "storable (req_key (request_of l), req_value (request_of l))"
proof -
  let ?t = "lineText l"
  from assms(2) have w: "3 \<le> length (split ?t)" "req_key (request_of l) = split ?t ! 1"
      "set (req_value (request_of l)) \<subseteq> set ?t"
    using parseLine_put_words [of ?t] by (auto simp: request_of_def dest: in_set_dropD)
  then have "split ?t ! 1 \<in> set (split ?t)" by simp
  from split_words [OF this] split_subset [OF this] w assms(1,3) set_lineText [of l] show ?thesis
    by (auto simp: storable_def)
qed

lemma spec_request_storable:
  assumes "allStorable m" "command r = kPut \<Longrightarrow> storable (req_key r, req_value r)"
  shows "allStorable (fst (spec_request r m))"
  using assms by (auto simp: allStorable_def spec_request_def Let_def split: CommandType.splits if_splits)

text \<open>The PUT keys of a byte stream, and what serving it leaves in the map.\<close>

function putKeys :: "string \<Rightarrow> string list" where
  "putKeys s =
     (if LF \<notin> set s then []
      else let l = takeWhile (\<lambda>c. c \<noteq> LF) s; ks = putKeys (drop (length l + 1) s)
        in if command (request_of l) = kPut then req_key (request_of l) # ks else ks)"
  by pat_completeness auto
termination
  by (relation "measure length") (auto intro: diff_less length_pos_if_in_set)

declare putKeys.simps [simp del]

lemma putKeys_line:
  assumes "LF \<notin> set l"
  shows "putKeys (l @ LF # r) =
    (if command (request_of l) = kPut then req_key (request_of l) # putKeys r else putKeys r)"
proof -
  have "takeWhile (\<lambda>c. c \<noteq> LF) (l @ LF # r) = l" using assms by (subst takeWhile_append2) auto
  then show ?thesis by (subst putKeys.simps) (simp add: Let_def)
qed

lemma serve_storable:
  assumes "serve s m = (r, m', es)" "allStorable m" "\<forall>k \<in> set (putKeys s). kDelimiter \<notin> set k"
  shows "allStorable m'"
  using assms
proof (induction "length s" arbitrary: s m es rule: less_induct)
  case less
  show ?case
  proof (cases "LF \<in> set s")
    case True
    then obtain l s' where s: "s = l @ LF # s'" "LF \<notin> set l" by (meson split_list_first)
    obtain m1 resp where sp: "spec_request (request_of l) m = (m1, resp)" by (cases "spec_request (request_of l) m")
    have m1: "allStorable m1"
      using spec_request_storable [OF less.prems(2), of "request_of l"] request_storable [OF s(2)] less.prems(3) sp
      by (simp add: s putKeys_line [OF s(2)])
    show ?thesis
    proof (cases "command (request_of l) = kQuit")
      case True
      with less.prems(1) serve_line [OF s(2) sp, of s'] s(1) m1 show ?thesis by auto
    next
      case False
      with less.prems(1) serve_line [OF s(2) sp, of s'] s(1) obtain es' where
        "serve s' m1 = (r, m', es')" by (auto split: prod.splits)
      moreover have "\<forall>k \<in> set (putKeys s'). kDelimiter \<notin> set k"
        using less.prems(3) by (simp add: s putKeys_line [OF s(2)] split: if_splits)
      ultimately show ?thesis using less.hyps [of s' m1 es'] m1 s(1) by simp
    qed
  qed (use less.prems in \<open>simp add: serve_stop\<close>)
qed

subsection \<open>Properties\<close>

text \<open>
  C9: the message callback refines the specification: from a good buffer and store it terminates,
  consumes the same bytes, ends in the same map and has the same effects, in the same order, as
  serving the byte stream line by line on a finite map.
\<close>

theorem onMessage_refines:
  assumes "buf_inv b" "kv_inv st"
  shows "\<exists>b' st' es. onMessage b st = Some (b', st', es) \<and> buf_inv b' \<and> kv_inv st' \<and>
    serve (content b) (kv_map st) = (content b', kv_map st', es)"
  using assms by (rule onMessage_spec)

definition sampleInput :: string where
  "sampleInput = ''PUT a 1'' @ [CR, LF] @ ''GET a'' @ [LF] @ ''SI''"

theorem onMessage_refines_witness:
  "\<exists>b' st'. onMessage (append_bytes sampleInput (buf_new 64)) (kv_new 16 (\<lambda>_. 1)) =
      Some (b', st', [Send (''+OK CREATED'' @ [CR, LF]), Send (''+OK 1'' @ [CR, LF])]) \<and>
    serve sampleInput Map.empty = (content b', kv_map st', [Send (''+OK CREATED'' @ [CR, LF]), Send (''+OK 1'' @ [CR, LF])])"
proof -
  have "buf_inv (append_bytes sampleInput (buf_new 64))" "content (append_bytes sampleInput (buf_new 64)) = sampleInput"
    using append_bytes_inv [of "buf_new 64" sampleInput] by simp_all
  moreover have "map_option (\<lambda>(b, st, es). es) (onMessage (append_bytes sampleInput (buf_new 64)) (kv_new 16 (\<lambda>_. 1))) =
      Some [Send (''+OK CREATED'' @ [CR, LF]), Send (''+OK 1'' @ [CR, LF])]" by code_simp
  ultimately show ?thesis
    using onMessage_refines [of "append_bytes sampleInput (buf_new 64)" "kv_new 16 (\<lambda>_. 1)"] by auto
qed

text \<open>
  How the network cuts the byte stream does not matter: if serving the whole stream meets no
  QUIT, receiving it in any segments that fit one read ends with the same rest, the same map and the
  same responses in the same order.
\<close>

lemma segmentation_independent:
  assumes "buf_inv b" "kv_inv st" "LF \<notin> set (content b)" "\<forall>d \<in> set ds. length d \<le> kExtraBuf"
    and "serve (content b @ concat ds) (kv_map st) = (r, m, es)" "Shutdown \<notin> set es"
  shows "\<exists>b' st'. receiveAll ds (b, st) = Some (b', st', es) \<and> buf_inv b' \<and> kv_inv st' \<and>
    content b' = r \<and> kv_map st' = m"
  using assms by (rule receiveAll_spec)

lemma serve_ping: "serve (''PING'' @ LF # r) m = (let (s2, m2, es) = serve r m in (s2, m2, Send (''+PONG'' @ [CR, LF]) # es))"
proof -
  have "request_of ''PING'' = Request_default\<lparr>command := kPing\<rparr>" by code_simp
  moreover have "encodeResponse resp_pong = ''+PONG'' @ [CR, LF]" by code_simp
  ultimately show ?thesis
    using serve_line [of "''PING''" m m resp_pong r] by (simp add: spec_request_def sendResponse_def Let_def)
qed

text \<open>
  A QUIT answers BYE and starts the shutdown without touching the store, but the bytes behind it
  stay in the input buffer; when the peer sends anything more, they are parsed and executed.
\<close>

lemma quit_defers_rest:
  assumes "buf_inv b" "kv_inv st" "content b = l @ LF # r" "LF \<notin> set l" "command (request_of l) = kQuit"
  shows "\<exists>b1 st1. onMessage b st = Some (b1, st1, [Send (''+BYE'' @ [CR, LF]), Shutdown]) \<and>
    content b1 = r \<and> kv_map st1 = kv_map st \<and>
    (\<forall>d. length d \<le> kExtraBuf \<longrightarrow> (\<exists>b2 st2 es. receive d (b1, st1) = Some (b2, st2, es) \<and>
       serve (r @ d) (kv_map st) = (content b2, kv_map st2, es)))"
proof -
  have bye: "sendResponse resp_bye = Send (''+BYE'' @ [CR, LF])" by code_simp
  have "spec_request (request_of l) (kv_map st) = (kv_map st, resp_bye)" using assms(5) by (simp add: spec_request_def)
  with serve_line [OF assms(4) this, of r] assms(3,5) bye
  have "serve (content b) (kv_map st) = (r, kv_map st, [Send (''+BYE'' @ [CR, LF]), Shutdown])" by simp
  with onMessage_spec [OF assms(1,2)] obtain b1 st1 where
    o: "onMessage b st = Some (b1, st1, [Send (''+BYE'' @ [CR, LF]), Shutdown])" "buf_inv b1" "kv_inv st1"
      "content b1 = r" "kv_map st1 = kv_map st" by auto
  with receive_spec [OF o(2,3)] show ?thesis by metis
qed

text \<open>
  Every command does to the store what it does to the abstract map and answers accordingly:
  CREATED or UPDATED, the value or NOT_FOUND, DELETED or NOT_FOUND, 1 or 0, the number of keys,
  CLEARED, PONG, BYE, and an error for an empty key or an unknown command.
\<close>

lemma handleRequest_refines:
  assumes "kv_inv st"
  shows "\<exists>st'. handleRequest r st = Some (st', snd (spec_request r (kv_map st))) \<and> kv_inv st' \<and>
    kv_map st' = fst (spec_request r (kv_map st))"
  using assms by (rule handleRequest_inv)

end
