(* ===== verification/KV_Client.thy ===== *)
theory KV_Client
  imports KV_Server
begin

text \<open>
  The blocking client of \<open>src/client/kvclient.h\<close> and \<open>kvclient.cpp\<close>.  The socket calls are a record
  of functions on the state of the peer, which an instance connects to the model of the server.
\<close>

subsection \<open>Strings of the standard library\<close>

text \<open>\<open>find_last_not_of\<close>: the index of the last character outside the set.\<close>

definition find_last_not_of :: "string \<Rightarrow> string \<Rightarrow> nat option" where
  "find_last_not_of cs s =
     (let t = dropWhile (\<lambda>c. c \<in> set cs) (rev s) in if t = [] then None else Some (length t - 1))"

text \<open>\<open>std::stoi\<close>: leading white space, a sign, digits; None where it throws.\<close>

definition stoi :: "string \<Rightarrow> int option" where
  "stoi s =
     (let t = dropWhile isspace s;
          neg = (t \<noteq> [] \<and> hd t = CHR ''-'');
          u = (if t \<noteq> [] \<and> (hd t = CHR ''-'' \<or> hd t = CHR ''+'') then tl t else t);
          ds = takeWhile isdigit u;
          n = (if neg then - int_of_digits ds else int_of_digits ds)
      in if ds = [] \<or> n < - (2 ^ 31) \<or> 2 ^ 31 \<le> n then None else Some n)"

subsection \<open>The socket interface\<close>

text \<open>
  \<open>sys_send\<close> returns the count of \<open>send(2)\<close>; \<open>sys_recv\<close> gives Inl for a negative result and the
  bytes otherwise (none: the peer closed), or None when the call never returns.
\<close>

record 'p sockets =
  sys_send :: "string \<Rightarrow> 'p \<Rightarrow> int \<times> 'p"
  sys_recv :: "nat \<Rightarrow> 'p \<Rightarrow> ((int + string) \<times> 'p) option"
  sys_close :: "'p \<Rightarrow> 'p"

record client =
  host :: string
  port :: "16 word"
  sockfd :: int
  lastError :: string

definition client_new :: "string \<Rightarrow> 16 word \<Rightarrow> client" where
  "client_new h p = \<lparr>host = h, port = p, sockfd = -1, lastError = []\<rparr>"

definition isConnected :: "client \<Rightarrow> bool" where
  "isConnected c \<longleftrightarrow> 0 \<le> sockfd c"

text \<open>
  \<open>connect\<close>: the results of \<open>socket\<close>, of resolving the host, and of \<open>connect(2)\<close>, with the texts of
  \<open>strerror\<close> for the two calls that report one.
\<close>

definition cl_connect :: "int \<Rightarrow> string \<Rightarrow> bool \<Rightarrow> bool \<Rightarrow> string \<Rightarrow> client \<Rightarrow> bool \<times> client" where
  "cl_connect fd sockErr resolved accepted connErr c =
     (if isConnected c then (True, c)
      else if fd < 0 then (False, c\<lparr>sockfd := fd, lastError := ''Failed to create socket: '' @ sockErr\<rparr>)
      else if \<not> resolved then (False, c\<lparr>sockfd := -1, lastError := ''Failed to resolve host: '' @ host c\<rparr>)
      else if \<not> accepted then (False, c\<lparr>sockfd := -1, lastError := ''Failed to connect: '' @ connErr\<rparr>)
      else (True, c\<lparr>sockfd := fd\<rparr>))"

definition sendCommand :: "'p sockets \<Rightarrow> string \<Rightarrow> client \<Rightarrow> 'p \<Rightarrow> (string \<times> client \<times> 'p) option" where
  "sendCommand sys cmd c p =
     (if \<not> isConnected c then Some ([], c\<lparr>lastError := ''Not connected''\<rparr>, p)
      else case sys_send sys cmd p of (sent, p1) \<Rightarrow>
        if sent \<noteq> int (length cmd) then Some ([], c\<lparr>lastError := ''Failed to send command''\<rparr>, p1)
        else case sys_recv sys 4095 p1 of
            None \<Rightarrow> None
          | Some (Inl err, p2) \<Rightarrow> Some ([], c\<lparr>lastError := ''Failed to receive response''\<rparr>, p2)
          | Some (Inr d, p2) \<Rightarrow>
              if d = [] then Some ([], c\<lparr>lastError := ''Failed to receive response''\<rparr>, p2)
              else Some (d, c, p2))"

definition cl_disconnect :: "'p sockets \<Rightarrow> client \<Rightarrow> 'p \<Rightarrow> (client \<times> 'p) option" where
  "cl_disconnect sys c p =
     (if 0 \<le> sockfd c
      then do { (_, c1, p1) \<leftarrow> sendCommand sys (''QUIT'' @ [CR, LF]) c p;
                Some (c1\<lparr>sockfd := -1\<rparr>, sys_close sys p1) }
      else Some (c, p))"

definition cl_dtor :: "'p sockets \<Rightarrow> client \<Rightarrow> 'p \<Rightarrow> 'p option" where
  "cl_dtor sys c p = map_option snd (cl_disconnect sys c p)"

subsection \<open>Reading a response\<close>

text \<open>\<open>parseResponse\<close> with a value to fill in; without one only the result and the client count.\<close>

definition parseResponse :: "string \<Rightarrow> client \<Rightarrow> bool \<times> string \<times> client" where
  "parseResponse resp c =
     (if resp = [] then (False, [], c)
      else if hd resp = CHR ''+'' then
        (let start = (if 3 < length resp \<and> take 3 resp = ''+OK''
                      then if 3 < length resp \<and> resp ! 3 = SP then 4 else 3 else 0)
         in (True,
             case find_last_not_of [CR, LF] resp of
               None \<Rightarrow> []
             | Some e \<Rightarrow> if start \<le> e then take (e - start + 1) (drop start resp) else [],
             c))
      else if hd resp = CHR ''-'' then
        (if str_find ''NOT_FOUND'' resp \<noteq> None then (False, [], c\<lparr>lastError := ''Key not found''\<rparr>)
         else let err = drop 1 resp in
           (False, [], c\<lparr>lastError := (case find_last_not_of [CR, LF] err of
                                         None \<Rightarrow> err | Some e \<Rightarrow> take (e + 1) err)\<rparr>))
      else (False, [], c\<lparr>lastError := ''Unknown response format''\<rparr>))"

subsection \<open>The operations\<close>

definition cl_request :: "'p sockets \<Rightarrow> string \<Rightarrow> client \<Rightarrow> 'p \<Rightarrow> (bool \<times> string \<times> client \<times> 'p) option" where
  "cl_request sys cmd c p = do {
     (resp, c1, p1) \<leftarrow> sendCommand sys cmd c p;
     (case parseResponse resp c1 of (ok, v, c2) \<Rightarrow> Some (ok, v, c2, p1)) }"

definition cl_put :: "'p sockets \<Rightarrow> string \<Rightarrow> string \<Rightarrow> client \<Rightarrow> 'p \<Rightarrow> (bool \<times> client \<times> 'p) option" where
  "cl_put sys k v c p = do {
     (ok, _, c1, p1) \<leftarrow> cl_request sys (''PUT '' @ k @ '' '' @ v @ [CR, LF]) c p;
     Some (ok, c1, p1) }"

definition cl_get :: "'p sockets \<Rightarrow> string \<Rightarrow> client \<Rightarrow> 'p \<Rightarrow> (bool \<times> string \<times> client \<times> 'p) option" where
  "cl_get sys k c p = cl_request sys (''GET '' @ k @ [CR, LF]) c p"

definition cl_del :: "'p sockets \<Rightarrow> string \<Rightarrow> client \<Rightarrow> 'p \<Rightarrow> (bool \<times> client \<times> 'p) option" where
  "cl_del sys k c p = do {
     (ok, _, c1, p1) \<leftarrow> cl_request sys (''DEL '' @ k @ [CR, LF]) c p;
     Some (ok, c1, p1) }"

definition cl_exists :: "'p sockets \<Rightarrow> string \<Rightarrow> client \<Rightarrow> 'p \<Rightarrow> (bool \<times> client \<times> 'p) option" where
  "cl_exists sys k c p = do {
     (ok, v, c1, p1) \<leftarrow> cl_request sys (''EXISTS '' @ k @ [CR, LF]) c p;
     Some (if ok then v = ''1'' \<or> v = ''true'' else False, c1, p1) }"

definition cl_size :: "'p sockets \<Rightarrow> client \<Rightarrow> 'p \<Rightarrow> (bool \<times> int \<times> client \<times> 'p) option" where
  "cl_size sys c p = do {
     (ok, v, c1, p1) \<leftarrow> cl_request sys (''SIZE'' @ [CR, LF]) c p;
     Some (if ok then (case stoi v of Some n \<Rightarrow> (True, n, c1, p1) | None \<Rightarrow> (False, 0, c1, p1))
           else (False, 0, c1, p1)) }"

definition cl_clear :: "'p sockets \<Rightarrow> client \<Rightarrow> 'p \<Rightarrow> (bool \<times> client \<times> 'p) option" where
  "cl_clear sys c p = do {
     (ok, _, c1, p1) \<leftarrow> cl_request sys (''CLEAR'' @ [CR, LF]) c p;
     Some (ok, c1, p1) }"

definition cl_ping :: "'p sockets \<Rightarrow> client \<Rightarrow> 'p \<Rightarrow> (bool \<times> client \<times> 'p) option" where
  "cl_ping sys c p = do {
     (resp, c1, p1) \<leftarrow> sendCommand sys (''PING'' @ [CR, LF]) c p;
     Some (str_find ''PONG'' resp \<noteq> None, c1, p1) }"

subsection \<open>A session with the server\<close>

text \<open>
  The peer of a connected client: the server's input buffer and store, and the segments on their
  way to the client, which \<open>recv\<close> delivers one at a time.  A command that fits one read is handled
  before \<open>recv\<close> runs; \<open>recv\<close> with nothing on its way never returns.
\<close>

record session =
  inBuf :: buffer
  srvStore :: kvstore
  toClient :: "string list"

fun sends :: "effect list \<Rightarrow> string list" where
  "sends [] = []"
| "sends (Send s # es) = s # sends es"
| "sends (Shutdown # es) = sends es"

definition session_open :: "kvstore \<Rightarrow> session" where
  "session_open st = \<lparr>inBuf = buf_new kInitialSize, srvStore = st, toClient = sends (onConnection True)\<rparr>"

definition session_send :: "string \<Rightarrow> session \<Rightarrow> int \<times> session" where
  "session_send d s =
     (case receive d (inBuf s, srvStore s) of
        None \<Rightarrow> (-1, s)
      | Some (b, st, es) \<Rightarrow>
          (int (length d), s\<lparr>inBuf := b, srvStore := st, toClient := toClient s @ sends es\<rparr>))"

definition session_recv :: "nat \<Rightarrow> session \<Rightarrow> ((int + string) \<times> session) option" where
  "session_recv n s =
     (case toClient s of
        [] \<Rightarrow> None
      | d # ds \<Rightarrow> Some (Inr (take n d),
          s\<lparr>toClient := (if length d \<le> n then ds else drop n d # ds)\<rparr>))"

definition session_sys :: "session sockets" where
  "session_sys = \<lparr>sys_send = session_send, sys_recv = session_recv, sys_close = (\<lambda>s. s)\<rparr>"

subsection \<open>Round trips of responses\<close>

lemma find_last_not_of_append:
  assumes "s \<noteq> []" "last s \<notin> set cs" "set t \<subseteq> set cs"
  shows "find_last_not_of cs (s @ t) = Some (length s - 1)"
proof -
  have "\<forall>c \<in> set (rev t). c \<in> set cs" using assms(3) by auto
  then have "dropWhile (\<lambda>c. c \<in> set cs) (rev (s @ t)) = dropWhile (\<lambda>c. c \<in> set cs) (rev s)"
    unfolding rev_append by (intro dropWhile_append2) simp
  also have "\<dots> = rev s" using assms(1,2) by (cases s rule: rev_cases) simp_all
  finally have "dropWhile (\<lambda>c. c \<in> set cs) (rev (s @ t)) = rev s" .
  with assms(1) show ?thesis by (simp add: find_last_not_of_def Let_def)
qed

lemma parse_encode_ok:
  assumes "v = [] \<or> last v \<noteq> CR \<and> last v \<noteq> LF"
  shows "parseResponse (encodeResponse (resp_ok v)) c = (True, v, c)"
proof (cases "v = []")
  case True
  have "find_last_not_of [CR, LF] (''+OK'' @ [CR, LF]) = Some 2"
    by (subst find_last_not_of_append) simp_all
  with True show ?thesis by (simp add: parseResponse_def encodeResponse_def resp_ok_def)
next
  case False
  have "find_last_not_of [CR, LF] ((''+OK '' @ v) @ [CR, LF]) = Some (length v + 3)"
    using assms False by (subst find_last_not_of_append) simp_all
  with False show ?thesis
    by (simp add: parseResponse_def encodeResponse_def resp_ok_def Suc_le_eq)
qed

lemma parse_encode_error:
  assumes "str_find ''NOT_FOUND'' (encodeResponse (resp_error msg)) = None"
    and "msg \<noteq> []" "last msg \<noteq> CR" "last msg \<noteq> LF"
  shows "parseResponse (encodeResponse (resp_error msg)) c = (False, [], c\<lparr>lastError := ''ERROR '' @ msg\<rparr>)"
proof -
  have "find_last_not_of [CR, LF] ((''ERROR '' @ msg) @ [CR, LF]) = Some (length msg + 5)"
    using assms(2-4) by (subst find_last_not_of_append) simp_all
  with assms(1,2) show ?thesis
    by (simp add: parseResponse_def encodeResponse_def resp_error_def eval_nat_numeral)
qed

lemma parse_encode_notFound:
  "parseResponse (encodeResponse resp_notFound) c = (False, [], c\<lparr>lastError := ''Key not found''\<rparr>)"
  by (simp add: parseResponse_def encodeResponse_def resp_notFound_def)

lemma stoi_to_string: "0 \<le> n \<Longrightarrow> n < 2 ^ 31 \<Longrightarrow> stoi (to_string n) = Some n"
proof -
  assume n: "0 \<le> n" "n < 2 ^ 31"
  let ?d = "digits10 (nat n)"
  have dig: "\<forall>c \<in> set ?d. isdigit c" by (simp add: digits10_isdigit)
  then have h: "isdigit (hd ?d)" by simp
  moreover have "\<not> isdigit (CHR ''-'')" "\<not> isdigit (CHR ''+'')" by (simp_all add: isdigit_def)
  ultimately have "hd ?d \<noteq> CHR ''-''" "hd ?d \<noteq> CHR ''+''" by metis+
  moreover have "dropWhile isspace ?d = ?d" using h by (cases ?d) (simp_all add: isdigit_not_space)
  moreover have t: "takeWhile isdigit ?d = ?d" using dig by (metis takeWhile_eq_all_conv)
  ultimately show ?thesis
    using n unfolding stoi_def to_string_def by (simp add: int_of_digits_def digits10_value Let_def t)
qed

subsection \<open>One command over an idle session\<close>

definition idle :: "session \<Rightarrow> bool" where
  "idle s \<longleftrightarrow> buf_inv (inBuf s) \<and> content (inBuf s) = [] \<and> kv_inv (srvStore s) \<and> toClient s = []"

lemma session_exchange:
  assumes s: "idle s" and c: "isConnected c"
    and l: "LF \<notin> set l" "l = [] \<or> last l \<noteq> CR" "length l + 2 \<le> kExtraBuf"
    and sp: "spec_request (parseLine l Request_default) (kv_map (srvStore s)) = (m, resp)"
    and nq: "command (parseLine l Request_default) \<noteq> kQuit"
    and fits: "length (encodeResponse resp) \<le> 4095"
  shows "\<exists>s'. sendCommand session_sys (l @ [CR, LF]) c s = Some (encodeResponse resp, c, s') \<and>
    idle s' \<and> kv_map (srvStore s') = m"
proof -
  have line: "lineText (l @ [CR]) = l" using l(2) by (auto simp: lineText_def popCR_def)
  have "serve ((l @ [CR]) @ LF # []) (kv_map (srvStore s)) = ([], m, [sendResponse resp])"
    using serve_line [of "l @ [CR]" "kv_map (srvStore s)" m resp "[]"] l(1) sp nq
    by (simp add: request_of_def line serve_stop)
  moreover have "length (l @ [CR, LF]) \<le> kExtraBuf" using l(3) by simp
  ultimately obtain b st where
    r: "receive (l @ [CR, LF]) (inBuf s, srvStore s) = Some (b, st, [sendResponse resp])"
      "buf_inv b" "kv_inv st" "content b = []" "kv_map st = m"
    using receive_spec [of "inBuf s" "srvStore s" "l @ [CR, LF]"] s by (auto simp: idle_def)
  have ne: "encodeResponse resp \<noteq> []" by (simp add: encodeResponse_def)
  have "idle (s\<lparr>inBuf := b, srvStore := st, toClient := []\<rparr>)" using r by (simp add: idle_def)
  with r s c fits ne show ?thesis
    by (intro exI [of _ "s\<lparr>inBuf := b, srvStore := st, toClient := []\<rparr>"])
      (simp add: sendCommand_def session_sys_def session_send_def session_recv_def idle_def sendResponse_def)
qed

lemma cl_request_idle:
  assumes "idle s" "isConnected c" "LF \<notin> set l" "l = [] \<or> last l \<noteq> CR" "length l + 2 \<le> kExtraBuf"
    and "parseLine l Request_default = rq" "command rq \<noteq> kQuit"
    and "spec_request rq (kv_map (srvStore s)) = (m, resp)" "length (encodeResponse resp) \<le> 4095"
    and "parseResponse (encodeResponse resp) c = (ok, v, c')"
  shows "\<exists>s'. cl_request session_sys (l @ [CR, LF]) c s = Some (ok, v, c', s') \<and>
    idle s' \<and> kv_map (srvStore s') = m"
  using session_exchange [OF assms(1-5), of m resp] assms(6-10) by (auto simp: cl_request_def)

text \<open>Keys and values that survive the way through the text protocol.\<close>

definition wireKey :: "string \<Rightarrow> bool" where
  "wireKey k \<longleftrightarrow> k \<noteq> [] \<and> (\<forall>c \<in> set k. \<not> isspace c)"

definition wireValue :: "string \<Rightarrow> bool" where
  "wireValue v \<longleftrightarrow> v \<noteq> [] \<and> \<not> isspace (hd v) \<and> LF \<notin> set v \<and> last v \<noteq> CR"

lemma upper_words [simp]:
  "toUpper ''PUT'' = ''PUT''" "toUpper ''GET'' = ''GET''" "toUpper ''DEL'' = ''DEL''" "toUpper ''EXISTS'' = ''EXISTS''"
  by (simp_all add: toUpper_def toupper_def)

lemma wireKey_last: "wireKey k \<Longrightarrow> last k \<noteq> CR \<and> last k \<noteq> LF \<and> LF \<notin> set k \<and> CR \<notin> set k"
  by (auto simp: wireKey_def isspace_def)

lemma put_line:
  assumes "wireKey k" "wireValue v" "str_find k ''PUT'' = None"
  shows "parseLine (''PUT '' @ k @ '' '' @ v) r = r\<lparr>command := kPut, req_key := k, req_value := v\<rparr>"
proof -
  have k: "k \<noteq> []" "\<forall>c \<in> set k. \<not> isspace c" using assms(1) by (simp_all add: wireKey_def)
  have "parseLine (''PUT'' @ '' '' @ k @ '' '' @ v) r = r\<lparr>command := kPut, req_key := k, req_value := v\<rparr>"
    by (rule parseLine_put [OF _ _ _ k _ _ _ _ _ _ not_in_command [OF k _ _ assms(3)]])
      (use assms(2) in \<open>simp_all add: wireValue_def isspace_def\<close>)
  then show ?thesis by simp
qed

lemma key_line:
  assumes "wireKey k" "(w, code) \<in> {(''GET'', kGet), (''DEL'', kDel), (''EXISTS'', kExists)}"
  shows "parseLine (w @ '' '' @ k) r = r\<lparr>command := code, req_key := k\<rparr>"
proof -
  from assms(2) have w: "w \<noteq> []" "\<forall>c \<in> set w. \<not> isspace c"
    "(toUpper w, code) \<in> {(''GET'', kGet), (''DEL'', kDel), (''DELETE'', kDel), (''EXISTS'', kExists)}"
    by (auto simp: isspace_def)
  have k: "k \<noteq> []" "\<forall>c \<in> set k. \<not> isspace c" using assms(1) by (simp_all add: wireKey_def)
  from parseLine_key [OF w(1,2) k _ _ _ w(3), of "'' ''" "[]" r] show ?thesis by simp
qed

text \<open>Commands without an argument.\<close>

lemma split_one: "w \<noteq> [] \<Longrightarrow> \<forall>c \<in> set w. \<not> isspace c \<Longrightarrow> split w = [w]"
  using split_word [of w "[]" "[]"] split_spaces [of "[]"] by simp

lemma bare_lines:
  "parseLine ''SIZE'' r = r\<lparr>command := kSize\<rparr>" "parseLine ''CLEAR'' r = r\<lparr>command := kClear\<rparr>"
  "parseLine ''PING'' r = r\<lparr>command := kPing\<rparr>" "parseLine ''QUIT'' r = r\<lparr>command := kQuit\<rparr>"
  by (simp_all add: parseLine_def split_one isspace_def toUpper_def toupper_def)

lemmas encode_short = encodeResponse_def resp_ok_def resp_notFound_def resp_error_def resp_pong_def

lemma request_with:
  "req_key (Request_default\<lparr>command := cmd, req_key := k\<rparr>) = k"
  "command (Request_default\<lparr>command := cmd, req_key := k\<rparr>) = cmd"
  by simp_all

lemma cl_put_idle:
  assumes "idle s" "isConnected c" "wireKey k" "wireValue v" "str_find k ''PUT'' = None"
    and "length k + length v + 7 \<le> kExtraBuf"
  shows "\<exists>s'. cl_put session_sys k v c s = Some (True, c, s') \<and> idle s' \<and>
    kv_map (srvStore s') = (kv_map (srvStore s))(k \<mapsto> v)"
proof -
  let ?l = "''PUT '' @ k @ '' '' @ v" and ?rq = "Request_default\<lparr>command := kPut, req_key := k, req_value := v\<rparr>"
  have p: "parseLine ?l Request_default = ?rq" by (rule put_line) (use assms in simp_all)
  have l: "LF \<notin> set ?l" "?l = [] \<or> last ?l \<noteq> CR" "length ?l + 2 \<le> kExtraBuf"
    using assms(3,4,6) wireKey_last [OF assms(3)] by (simp_all add: wireValue_def)
  define w where "w = (if kv_map (srvStore s) k = None then ''CREATED'' else ''UPDATED'')"
  have sp: "spec_request ?rq (kv_map (srvStore s)) = ((kv_map (srvStore s))(k \<mapsto> v), resp_ok w)"
    using assms(3) by (simp add: spec_request_def wireKey_def w_def)
  have "length (encodeResponse (resp_ok w)) \<le> 4095" by (simp add: encode_short w_def)
  moreover have "parseResponse (encodeResponse (resp_ok w)) c = (True, w, c)"
    by (rule parse_encode_ok) (simp add: w_def)
  ultimately obtain s' where "cl_request session_sys (?l @ [CR, LF]) c s = Some (True, w, c, s')" "idle s'"
      "kv_map (srvStore s') = (kv_map (srvStore s))(k \<mapsto> v)"
    using cl_request_idle [OF assms(1,2) l p _ sp] by auto
  then show ?thesis by (simp add: cl_put_def)
qed

lemma cl_get_idle:
  assumes "idle s" "isConnected c" "wireKey k" "length k + 6 \<le> kExtraBuf"
    and "kv_map (srvStore s) k = Some v" "v = [] \<or> last v \<noteq> CR \<and> last v \<noteq> LF" "length v + 6 \<le> 4095"
  shows "\<exists>s'. cl_get session_sys k c s = Some (True, v, c, s') \<and> idle s' \<and>
    kv_map (srvStore s') = kv_map (srvStore s)"
proof -
  let ?l = "''GET'' @ '' '' @ k" and ?rq = "Request_default\<lparr>command := kGet, req_key := k\<rparr>"
  have p: "parseLine ?l Request_default = ?rq" by (rule key_line) (use assms(3) in simp_all)
  have l: "LF \<notin> set ?l" "?l = [] \<or> last ?l \<noteq> CR" "length ?l + 2 \<le> kExtraBuf"
    using assms(3,4) wireKey_last [OF assms(3)] by (simp_all add: wireKey_def)
  have sp: "spec_request ?rq (kv_map (srvStore s)) = (kv_map (srvStore s), resp_ok v)"
    using assms(5) by (simp add: spec_request_def)
  have "length (encodeResponse (resp_ok v)) \<le> 4095" using assms(7) by (simp add: encode_short)
  from cl_request_idle [OF assms(1,2) l p _ sp this parse_encode_ok [OF assms(6)]]
  show ?thesis by (simp add: cl_get_def)
qed

lemma cl_get_idle_missing:
  assumes "idle s" "isConnected c" "wireKey k" "length k + 6 \<le> kExtraBuf" "kv_map (srvStore s) k = None"
  shows "\<exists>s'. cl_get session_sys k c s = Some (False, [], c\<lparr>lastError := ''Key not found''\<rparr>, s') \<and> idle s' \<and>
    kv_map (srvStore s') = kv_map (srvStore s)"
proof -
  let ?l = "''GET'' @ '' '' @ k" and ?rq = "Request_default\<lparr>command := kGet, req_key := k\<rparr>"
  have p: "parseLine ?l Request_default = ?rq" by (rule key_line) (use assms(3) in simp_all)
  have l: "LF \<notin> set ?l" "?l = [] \<or> last ?l \<noteq> CR" "length ?l + 2 \<le> kExtraBuf"
    using assms(3,4) wireKey_last [OF assms(3)] by (simp_all add: wireKey_def)
  have sp: "spec_request ?rq (kv_map (srvStore s)) = (kv_map (srvStore s), resp_notFound)"
    using assms(5) by (simp add: spec_request_def)
  have "length (encodeResponse resp_notFound) \<le> 4095" by (simp add: encode_short)
  from cl_request_idle [OF assms(1,2) l p _ sp this parse_encode_notFound]
  show ?thesis by (simp add: cl_get_def)
qed

lemma cl_del_idle:
  assumes "idle s" "isConnected c" "wireKey k" "length k + 6 \<le> kExtraBuf"
  shows "\<exists>s' c'. cl_del session_sys k c s = Some (kv_map (srvStore s) k \<noteq> None, c', s') \<and> isConnected c' \<and> idle s' \<and>
    kv_map (srvStore s') = (kv_map (srvStore s))(k := None)"
proof -
  let ?l = "''DEL'' @ '' '' @ k" and ?rq = "Request_default\<lparr>command := kDel, req_key := k\<rparr>"
  have p: "parseLine ?l Request_default = ?rq" by (rule key_line) (use assms(3) in simp_all)
  have l: "LF \<notin> set ?l" "?l = [] \<or> last ?l \<noteq> CR" "length ?l + 2 \<le> kExtraBuf"
    using assms(3,4) wireKey_last [OF assms(3)] by (simp_all add: wireKey_def)
  show ?thesis
  proof (cases "kv_map (srvStore s) k = None")
    case True
    have sp: "spec_request ?rq (kv_map (srvStore s)) = ((kv_map (srvStore s))(k := None), resp_notFound)"
      using True by (simp add: spec_request_def)
    have "length (encodeResponse resp_notFound) \<le> 4095" by (simp add: encode_short)
    from cl_request_idle [OF assms(1,2) l p _ sp this parse_encode_notFound] True assms(2)
    show ?thesis by (auto simp: cl_del_def isConnected_def)
  next
    case False
    have sp: "spec_request ?rq (kv_map (srvStore s)) = ((kv_map (srvStore s))(k := None), resp_ok ''DELETED'')"
      using False by (auto simp: spec_request_def)
    have "length (encodeResponse (resp_ok ''DELETED'')) \<le> 4095" by (simp add: encode_short)
    from cl_request_idle [OF assms(1,2) l p _ sp this parse_encode_ok] False assms(2)
    show ?thesis by (auto simp: cl_del_def)
  qed
qed

lemma cl_exists_idle:
  assumes "idle s" "isConnected c" "wireKey k" "length k + 9 \<le> kExtraBuf"
  shows "\<exists>s'. cl_exists session_sys k c s = Some (kv_map (srvStore s) k \<noteq> None, c, s') \<and> idle s' \<and>
    kv_map (srvStore s') = kv_map (srvStore s)"
proof -
  let ?l = "''EXISTS'' @ '' '' @ k" and ?rq = "Request_default\<lparr>command := kExists, req_key := k\<rparr>"
  have p: "parseLine ?l Request_default = ?rq" by (rule key_line) (use assms(3) in simp_all)
  have l: "LF \<notin> set ?l" "?l = [] \<or> last ?l \<noteq> CR" "length ?l + 2 \<le> kExtraBuf"
    using assms(3,4) wireKey_last [OF assms(3)] by (simp_all add: wireKey_def)
  define w where "w = (if kv_map (srvStore s) k = None then ''0'' else ''1'')"
  have sp: "spec_request ?rq (kv_map (srvStore s)) = (kv_map (srvStore s), resp_ok w)"
    by (simp add: spec_request_def w_def)
  have "length (encodeResponse (resp_ok w)) \<le> 4095" by (simp add: encode_short w_def)
  moreover have "parseResponse (encodeResponse (resp_ok w)) c = (True, w, c)"
    by (rule parse_encode_ok) (simp add: w_def)
  ultimately obtain s' where "cl_request session_sys (?l @ [CR, LF]) c s = Some (True, w, c, s')" "idle s'"
      "kv_map (srvStore s') = kv_map (srvStore s)"
    using cl_request_idle [OF assms(1,2) l p _ sp] by auto
  then show ?thesis by (simp add: cl_exists_def w_def)
qed

lemma last_to_string: "0 \<le> n \<Longrightarrow> isdigit (last (to_string n))"
  using digits10_isdigit [OF last_in_set [OF digits10_ne]] by (simp add: to_string_def)

lemma cl_size_idle:
  assumes "idle s" "isConnected c" "card (dom (kv_map (srvStore s))) < 2 ^ 31"
  shows "\<exists>s'. cl_size session_sys c s = Some (True, int (card (dom (kv_map (srvStore s)))), c, s') \<and> idle s' \<and>
    kv_map (srvStore s') = kv_map (srvStore s)"
proof -
  let ?rq = "Request_default\<lparr>command := kSize\<rparr>"
  define n where "n = card (dom (kv_map (srvStore s)))"
  have p: "parseLine ''SIZE'' Request_default = ?rq" by (rule bare_lines)
  have l: "LF \<notin> set ''SIZE''" "''SIZE'' = [] \<or> last ''SIZE'' \<noteq> CR" "length ''SIZE'' + 2 \<le> kExtraBuf"
    by (simp_all add: kExtraBuf_def)
  have sp: "spec_request ?rq (kv_map (srvStore s)) = (kv_map (srvStore s), resp_ok (to_string (int n)))"
    by (simp add: spec_request_def n_def)
  have "n < 10 ^ Suc 9" using assms(3) by (simp add: n_def)
  then have "length (to_string (int n)) \<le> Suc 9"
    using digits10_length [of n 9] by (simp add: to_string_def)
  then have len: "length (encodeResponse (resp_ok (to_string (int n)))) \<le> 4095" by (simp add: encode_short)
  have "isdigit (last (to_string (int n)))" by (simp add: last_to_string)
  then have "parseResponse (encodeResponse (resp_ok (to_string (int n)))) c = (True, to_string (int n), c)"
    by (intro parse_encode_ok) (auto simp: isdigit_def)
  from cl_request_idle [OF assms(1,2) l p _ sp len this]
  show ?thesis using stoi_to_string [of "int n"] assms(3) by (auto simp: cl_size_def n_def)
qed

lemma cl_clear_idle:
  assumes "idle s" "isConnected c"
  shows "\<exists>s'. cl_clear session_sys c s = Some (True, c, s') \<and> idle s' \<and> kv_map (srvStore s') = Map.empty"
proof -
  let ?rq = "Request_default\<lparr>command := kClear\<rparr>"
  have p: "parseLine ''CLEAR'' Request_default = ?rq" by (rule bare_lines)
  have l: "LF \<notin> set ''CLEAR''" "''CLEAR'' = [] \<or> last ''CLEAR'' \<noteq> CR" "length ''CLEAR'' + 2 \<le> kExtraBuf"
    by (simp_all add: kExtraBuf_def)
  have sp: "spec_request ?rq (kv_map (srvStore s)) = (Map.empty, resp_ok ''CLEARED'')"
    by (simp add: spec_request_def)
  have "length (encodeResponse (resp_ok ''CLEARED'')) \<le> 4095" by (simp add: encode_short)
  from cl_request_idle [OF assms l p _ sp this parse_encode_ok]
  show ?thesis by (auto simp: cl_clear_def)
qed

lemma cl_ping_idle:
  assumes "idle s" "isConnected c"
  shows "\<exists>s'. cl_ping session_sys c s = Some (True, c, s') \<and> idle s' \<and> kv_map (srvStore s') = kv_map (srvStore s)"
proof -
  have p: "parseLine ''PING'' Request_default = Request_default\<lparr>command := kPing\<rparr>" by (rule bare_lines)
  have l: "LF \<notin> set ''PING''" "''PING'' = [] \<or> last ''PING'' \<noteq> CR" "length ''PING'' + 2 \<le> kExtraBuf"
    by (simp_all add: kExtraBuf_def)
  have sp: "spec_request (parseLine ''PING'' Request_default) (kv_map (srvStore s)) = (kv_map (srvStore s), resp_pong)"
    by (simp add: p spec_request_def)
  have "length (encodeResponse resp_pong) \<le> 4095" by (simp add: encode_short)
  moreover have "str_find ''PONG'' (encodeResponse resp_pong) \<noteq> None" by code_simp
  ultimately show ?thesis
    using session_exchange [OF assms l sp] by (auto simp: cl_ping_def p)
qed

subsection \<open>Properties\<close>

text \<open>
  Over an idle session, \<open>put\<close> followed by \<open>get\<close> returns the value, for any key without white space
  that is not part of the word PUT, any value that neither starts with white space nor ends with a
  carriage return nor holds a line feed, and lengths that fit the client's 4095-byte read.
\<close>

lemma client_put_get:
  assumes "idle s" "isConnected c" "wireKey k" "wireValue v" "str_find k ''PUT'' = None"
    and "length k + length v + 7 \<le> kExtraBuf" "length v + 6 \<le> 4095"
  shows "\<exists>s1 s2. cl_put session_sys k v c s = Some (True, c, s1) \<and>
    cl_get session_sys k c s1 = Some (True, v, c, s2) \<and> idle s2 \<and>
    kv_map (srvStore s2) = (kv_map (srvStore s))(k \<mapsto> v)"
proof -
  obtain s1 where s1: "cl_put session_sys k v c s = Some (True, c, s1)" "idle s1"
      "kv_map (srvStore s1) = (kv_map (srvStore s))(k \<mapsto> v)"
    using cl_put_idle [OF assms(1-6)] by blast
  have "kv_map (srvStore s1) k = Some v" "length k + 6 \<le> kExtraBuf" "v = [] \<or> last v \<noteq> CR \<and> last v \<noteq> LF"
    using assms(4,6) s1(3) by (auto simp: wireValue_def dest: last_in_set)
  from cl_get_idle [OF s1(2) assms(2,3) this(2,1,3) assms(7)] s1 show ?thesis by auto
qed

definition sampleSession :: session where
  "sampleSession = \<lparr>inBuf = buf_new 64, srvStore = kv_new 16 (\<lambda>_. 1), toClient = []\<rparr>"

lemma sampleSession_idle: "idle sampleSession" "kv_map (srvStore sampleSession) = Map.empty"
  by (simp_all add: idle_def sampleSession_def)

text \<open>Any command on a new session is answered first by the welcome text.\<close>

lemma first_response:
  assumes "kv_inv st" "isConnected c" "length cmd \<le> kExtraBuf"
  shows "\<exists>s'. sendCommand session_sys cmd c (session_open st) = Some (welcomeText, c, s')"
proof -
  obtain b' st' es where "receive cmd (buf_new kInitialSize, st) = Some (b', st', es)"
    using receive_spec [OF buf_new_inv(1) assms(1,3)] by blast
  moreover have "length welcomeText \<le> 4095" "welcomeText \<noteq> []" by (simp_all add: welcomeText_def)
  ultimately show ?thesis
    using assms(2) by (auto simp: sendCommand_def session_sys_def session_open_def session_send_def session_recv_def onConnection_def)
qed

text \<open>
  \<open>connect\<close> does not read the server's welcome message, so when it arrives on its own the first
  command takes it for its response: \<open>get\<close> of any key succeeds with the welcome text as the value
  and \<open>ping\<close> reports a dead server.
\<close>

lemma first_response_is_welcome:
  assumes "kv_inv st" "isConnected c" "length k + 6 \<le> kExtraBuf"
  shows "\<exists>s1 s2. cl_get session_sys k c (session_open st) = Some (True, ''+WELCOME ReactorKV Server'', c, s1) \<and>
    cl_ping session_sys c (session_open st) = Some (False, c, s2)"
proof -
  obtain s1 where s1: "sendCommand session_sys (''GET '' @ k @ [CR, LF]) c (session_open st) = Some (welcomeText, c, s1)"
    using first_response [OF assms(1,2), of "''GET '' @ k @ [CR, LF]"] assms(3) by auto
  obtain s2 where s2: "sendCommand session_sys (''PING'' @ [CR, LF]) c (session_open st) = Some (welcomeText, c, s2)"
    using first_response [OF assms(1,2), of "''PING'' @ [CR, LF]"] by (auto simp: kExtraBuf_def)
  have "find_last_not_of [CR, LF] welcomeText = Some 24" "str_find ''PONG'' welcomeText = None" by code_simp+
  then have "parseResponse welcomeText c = (True, ''+WELCOME ReactorKV Server'', c)"
    by (simp add: parseResponse_def welcomeText_def)
  with s1 s2 \<open>str_find ''PONG'' welcomeText = None\<close> show ?thesis
    by (simp add: cl_get_def cl_request_def cl_ping_def)
qed

text \<open>
  \<open>put\<close> with an empty value is refused: the line has only two words, so the server answers that
  the command is unknown, \<open>put\<close> returns false, and the key is not stored.
\<close>

lemma put_empty_value_refused:
  assumes "idle s" "isConnected c" "wireKey k" "length k + 7 \<le> kExtraBuf"
  shows "\<exists>s'. cl_put session_sys k [] c s = Some (False, c\<lparr>lastError := ''ERROR Unknown command''\<rparr>, s') \<and>
    idle s' \<and> kv_map (srvStore s') = kv_map (srvStore s)"
proof -
  let ?l = "''PUT'' @ '' '' @ k @ '' ''"
  have k: "k \<noteq> []" "\<forall>c \<in> set k. \<not> isspace c" using assms(3) by (simp_all add: wireKey_def)
  have "split ?l = ''PUT'' # split ('' '' @ k @ '' '')"
    using split_word [of "''PUT''" "[]" "'' '' @ k @ '' ''"] by (simp add: isspace_def)
  also have "split ('' '' @ k @ '' '') = [k]"
    using split_word [OF k, of "'' ''" "'' ''"] split_spaces [of "'' ''"] by simp
  finally have "parseLine ?l Request_default = Request_default\<lparr>command := kUnknown\<rparr>"
    by (simp add: parseLine_def putCommand_def Let_def)
  moreover have "LF \<notin> set ?l" "?l = [] \<or> last ?l \<noteq> CR" "length ?l + 2 \<le> kExtraBuf"
    using assms(3,4) wireKey_last [OF assms(3)] by simp_all
  moreover have "parseResponse (encodeResponse (resp_error ''Unknown command'')) c =
      (False, [], c\<lparr>lastError := ''ERROR Unknown command''\<rparr>)"
  proof -
    have "str_find ''NOT_FOUND'' (encodeResponse (resp_error ''Unknown command'')) = None" by code_simp
    from parse_encode_error [OF this] show ?thesis by simp
  qed
  moreover have "length (encodeResponse (resp_error ''Unknown command'')) \<le> 4095" by (simp add: encode_short)
  ultimately obtain s' where "cl_request session_sys (?l @ [CR, LF]) c s =
      Some (False, [], c\<lparr>lastError := ''ERROR Unknown command''\<rparr>, s')" "idle s'" "kv_map (srvStore s') = kv_map (srvStore s)"
    using cl_request_idle [OF assms(1,2), of ?l "Request_default\<lparr>command := kUnknown\<rparr>" "kv_map (srvStore s)"
        "resp_error ''Unknown command''"] by (auto simp: spec_request_def)
  then show ?thesis by (simp add: cl_put_def)
qed

end
