(* ===== verification/Channel_Poller.thy ===== *)
theory Channel_Poller
  imports Prelude
begin

text \<open>
  \<open>Channel\<close> (\<open>src/net/channel.h\<close>, \<open>channel.cpp\<close>) and \<open>EpollPoller\<close> (\<open>src/net/epoll_poller.cpp\<close>,
  \<open>poller.cpp\<close>): the events a file descriptor is watched for, the three registration states, and the
  dispatch of the events that happened.  \<open>epoll_ctl\<close> is a parameter; the contract \<open>epoll_kernel\<close>
  states what its manual page promises, and \<open>interest_ctl\<close> is the instance on an interest map.
  \<open>LOG_FATAL\<close> aborts the process: such a call is None.
\<close>

unbundle bit_operations_syntax

subsection \<open>Events\<close>

definition EPOLLIN :: "32 word" where "EPOLLIN = 0x001"
definition EPOLLPRI :: "32 word" where "EPOLLPRI = 0x002"
definition EPOLLOUT :: "32 word" where "EPOLLOUT = 0x004"
definition EPOLLERR :: "32 word" where "EPOLLERR = 0x008"
definition EPOLLHUP :: "32 word" where "EPOLLHUP = 0x010"
definition EPOLLRDHUP :: "32 word" where "EPOLLRDHUP = 0x2000"
definition EPOLLET :: "32 word" where "EPOLLET = 0x80000000"

definition kNoneEvent :: "32 word" where "kNoneEvent = 0"
definition kReadEvent :: "32 word" where "kReadEvent = EPOLLIN OR EPOLLPRI"
definition kWriteEvent :: "32 word" where "kWriteEvent = EPOLLOUT"

lemmas event_defs = EPOLLIN_def EPOLLPRI_def EPOLLOUT_def EPOLLERR_def EPOLLHUP_def EPOLLRDHUP_def
  EPOLLET_def kNoneEvent_def kReadEvent_def kWriteEvent_def

subsection \<open>Channels\<close>

text \<open>\<open>cid\<close> is the address of the channel; the \<open>has\<close> fields say which callbacks are set.\<close>

record channel =
  cid :: nat
  fd :: int
  events :: "32 word"
  revents :: "32 word"
  index :: int
  tied :: bool
  eventHandling :: bool
  addedToLoop :: bool
  hasReadCb :: bool
  hasWriteCb :: bool
  hasCloseCb :: bool
  hasErrorCb :: bool

definition kNew :: int where "kNew = -1"
definition kAdded :: int where "kAdded = 1"
definition kDeleted :: int where "kDeleted = 2"

lemmas index_defs = kNew_def kAdded_def kDeleted_def

definition channel_new :: "nat \<Rightarrow> int \<Rightarrow> channel" where
  "channel_new a f = \<lparr>cid = a, fd = f, events = 0, revents = 0, index = -1, tied = False,
     eventHandling = False, addedToLoop = False,
     hasReadCb = False, hasWriteCb = False, hasCloseCb = False, hasErrorCb = False\<rparr>"

definition setCallbacks :: "channel \<Rightarrow> channel" where
  "setCallbacks c = c\<lparr>hasReadCb := True, hasWriteCb := True, hasCloseCb := True, hasErrorCb := True\<rparr>"

definition chan_tie :: "channel \<Rightarrow> channel" where
  "chan_tie c = c\<lparr>tied := True\<rparr>"

definition isWriting :: "channel \<Rightarrow> bool" where
  "isWriting c \<longleftrightarrow> events c AND kWriteEvent \<noteq> 0"

definition isReading :: "channel \<Rightarrow> bool" where
  "isReading c \<longleftrightarrow> events c AND kReadEvent \<noteq> 0"

definition isNoneEvent :: "channel \<Rightarrow> bool" where
  "isNoneEvent c \<longleftrightarrow> events c = kNoneEvent"

text \<open>
  Dispatch: the callbacks that \<open>handleEventWithGuard\<close> calls, in order.  Callbacks do not change
  \<open>revents_\<close>, which only the poller sets, so the four tests see the same value.
\<close>

datatype handler = CloseCb | ErrorCb | ReadCb | WriteCb

definition handleEventWithGuard :: "channel \<Rightarrow> handler list" where
  "handleEventWithGuard c =
     (if revents c AND EPOLLHUP \<noteq> 0 \<and> revents c AND EPOLLIN = 0 \<and> hasCloseCb c then [CloseCb] else []) @
     (if revents c AND EPOLLERR \<noteq> 0 \<and> hasErrorCb c then [ErrorCb] else []) @
     (if revents c AND (EPOLLIN OR EPOLLPRI OR EPOLLRDHUP) \<noteq> 0 \<and> hasReadCb c then [ReadCb] else []) @
     (if revents c AND EPOLLOUT \<noteq> 0 \<and> hasWriteCb c then [WriteCb] else [])"

text \<open>\<open>alive\<close> says whether the tied object can still be locked.\<close>

definition handleEvent :: "bool \<Rightarrow> channel \<Rightarrow> handler list" where
  "handleEvent alive c =
     (if tied c then (if alive then handleEventWithGuard c else []) else handleEventWithGuard c)"

subsection \<open>The poller\<close>

datatype epoll_op = EPOLL_CTL_ADD | EPOLL_CTL_MOD | EPOLL_CTL_DEL

type_synonym 'k epoll_ctl = "epoll_op \<Rightarrow> int \<Rightarrow> 32 word \<times> nat \<Rightarrow> 'k \<Rightarrow> bool \<times> 'k"

record 'k poller =
  channels :: "int \<Rightarrow> nat option"
  kernel :: 'k
  evCapacity :: nat

definition kInitEventListSize :: nat where "kInitEventListSize = 16"

definition poller_new :: "'k \<Rightarrow> 'k poller" where
  "poller_new k = \<lparr>channels = Map.empty, kernel = k, evCapacity = kInitEventListSize\<rparr>"

definition hasChannel :: "channel \<Rightarrow> 'k poller \<Rightarrow> bool" where
  "hasChannel c p \<longleftrightarrow> channels p (fd c) = Some (cid c)"

text \<open>\<open>update(operation, channel)\<close>: a failure is fatal except for a deletion.\<close>

definition ctl_update :: "'k epoll_ctl \<Rightarrow> epoll_op \<Rightarrow> channel \<Rightarrow> 'k poller \<Rightarrow> 'k poller option" where
  "ctl_update ctl oper c p =
     (case ctl oper (fd c) (events c OR EPOLLET, cid c) (kernel p) of (ok, k) \<Rightarrow>
        if \<not> ok \<and> oper \<noteq> EPOLL_CTL_DEL then None else Some (p\<lparr>kernel := k\<rparr>))"

definition updateChannel :: "'k epoll_ctl \<Rightarrow> channel \<Rightarrow> 'k poller \<Rightarrow> (channel \<times> 'k poller) option" where
  "updateChannel ctl c p =
     (if index c = kNew \<or> index c = kDeleted then
        (let p1 = (if index c = kNew then p\<lparr>channels := (channels p)(fd c \<mapsto> cid c)\<rparr> else p);
             c1 = c\<lparr>index := kAdded\<rparr>
         in map_option (Pair c1) (ctl_update ctl EPOLL_CTL_ADD c1 p1))
      else if isNoneEvent c then
        map_option (Pair (c\<lparr>index := kDeleted\<rparr>)) (ctl_update ctl EPOLL_CTL_DEL c p)
      else map_option (Pair c) (ctl_update ctl EPOLL_CTL_MOD c p))"

definition removeChannel :: "'k epoll_ctl \<Rightarrow> channel \<Rightarrow> 'k poller \<Rightarrow> (channel \<times> 'k poller) option" where
  "removeChannel ctl c p =
     (let p1 = p\<lparr>channels := (channels p)(fd c := None)\<rparr> in
      map_option (Pair (c\<lparr>index := kNew\<rparr>))
        (if index c = kAdded then ctl_update ctl EPOLL_CTL_DEL c p1 else Some p1))"

text \<open>
  \<open>poll\<close>: \<open>ready\<close> is what \<open>epoll_wait\<close> returned, at most the capacity of the event list: the channels'
  addresses with their events.  The result is the channels, the active ones, and the poller.
\<close>

fun fillActiveChannels :: "(nat \<times> 32 word) list \<Rightarrow> (nat \<Rightarrow> channel) \<Rightarrow> (nat \<Rightarrow> channel) \<times> nat list" where
  "fillActiveChannels [] chans = (chans, [])"
| "fillActiveChannels ((a, ev) # ready) chans =
     (let (chans', active) = fillActiveChannels ready (chans(a := (chans a)\<lparr>revents := ev\<rparr>))
      in (chans', a # active))"

definition poll :: "(nat \<times> 32 word) list \<Rightarrow> (nat \<Rightarrow> channel) \<Rightarrow> 'k poller \<Rightarrow>
    (nat \<Rightarrow> channel) \<times> nat list \<times> 'k poller" where
  "poll ready chans p =
     (if ready = [] then (chans, [], p)
      else case fillActiveChannels ready chans of (chans', active) \<Rightarrow>
        (chans', active, if length ready = evCapacity p then p\<lparr>evCapacity := evCapacity p * 2\<rparr> else p))"

subsection \<open>Changing the events of a channel\<close>

definition chan_update :: "'k epoll_ctl \<Rightarrow> channel \<Rightarrow> 'k poller \<Rightarrow> (channel \<times> 'k poller) option" where
  "chan_update ctl c p = updateChannel ctl (c\<lparr>addedToLoop := True\<rparr>) p"

definition chan_remove :: "'k epoll_ctl \<Rightarrow> channel \<Rightarrow> 'k poller \<Rightarrow> (channel \<times> 'k poller) option" where
  "chan_remove ctl c p = removeChannel ctl (c\<lparr>addedToLoop := False\<rparr>) p"

definition enableReading :: "'k epoll_ctl \<Rightarrow> channel \<Rightarrow> 'k poller \<Rightarrow> (channel \<times> 'k poller) option" where
  "enableReading ctl c p = chan_update ctl (c\<lparr>events := events c OR kReadEvent\<rparr>) p"

definition disableReading :: "'k epoll_ctl \<Rightarrow> channel \<Rightarrow> 'k poller \<Rightarrow> (channel \<times> 'k poller) option" where
  "disableReading ctl c p = chan_update ctl (c\<lparr>events := events c AND NOT kReadEvent\<rparr>) p"

definition enableWriting :: "'k epoll_ctl \<Rightarrow> channel \<Rightarrow> 'k poller \<Rightarrow> (channel \<times> 'k poller) option" where
  "enableWriting ctl c p = chan_update ctl (c\<lparr>events := events c OR kWriteEvent\<rparr>) p"

definition disableWriting :: "'k epoll_ctl \<Rightarrow> channel \<Rightarrow> 'k poller \<Rightarrow> (channel \<times> 'k poller) option" where
  "disableWriting ctl c p = chan_update ctl (c\<lparr>events := events c AND NOT kWriteEvent\<rparr>) p"

definition disableAll :: "'k epoll_ctl \<Rightarrow> channel \<Rightarrow> 'k poller \<Rightarrow> (channel \<times> 'k poller) option" where
  "disableAll ctl c p = chan_update ctl (c\<lparr>events := kNoneEvent\<rparr>) p"

datatype chan_op = EnableReading | DisableReading | EnableWriting | DisableWriting | DisableAll | RemoveChan

fun chan_step :: "'k epoll_ctl \<Rightarrow> chan_op \<Rightarrow> channel \<Rightarrow> 'k poller \<Rightarrow> (channel \<times> 'k poller) option" where
  "chan_step ctl EnableReading = enableReading ctl"
| "chan_step ctl DisableReading = disableReading ctl"
| "chan_step ctl EnableWriting = enableWriting ctl"
| "chan_step ctl DisableWriting = disableWriting ctl"
| "chan_step ctl DisableAll = disableAll ctl"
| "chan_step ctl RemoveChan = chan_remove ctl"

fun chan_run :: "'k epoll_ctl \<Rightarrow> chan_op list \<Rightarrow> channel \<Rightarrow> 'k poller \<Rightarrow> (channel \<times> 'k poller) option" where
  "chan_run ctl [] c p = Some (c, p)"
| "chan_run ctl (a # as) c p = Option.bind (chan_step ctl a c p) (\<lambda>(c', p'). chan_run ctl as c' p')"

text \<open>What each operation makes of the watched events.\<close>

fun newEvents :: "chan_op \<Rightarrow> 32 word \<Rightarrow> 32 word" where
  "newEvents EnableReading e = e OR kReadEvent"
| "newEvents DisableReading e = e AND NOT kReadEvent"
| "newEvents EnableWriting e = e OR kWriteEvent"
| "newEvents DisableWriting e = e AND NOT kWriteEvent"
| "newEvents DisableAll e = kNoneEvent"
| "newEvents RemoveChan e = e"

lemma chan_step_update:
  "a \<noteq> RemoveChan \<Longrightarrow> chan_step ctl a c p = chan_update ctl (c\<lparr>events := newEvents a (events c)\<rparr>) p"
  by (cases a) (simp_all add: enableReading_def disableReading_def enableWriting_def disableWriting_def disableAll_def)

lemma bit_small: "bit (4::32 word) n \<longleftrightarrow> n = 2" "bit (3::32 word) n \<longleftrightarrow> n = 0 \<or> n = 1"
proof -
  have "bit (2 ^ 2 :: 32 word) n \<longleftrightarrow> n = 2" unfolding bit_exp_iff by (auto simp: possible_bit_word)
  then show "bit (4::32 word) n \<longleftrightarrow> n = 2" by simp
  have "bit (mask 2 :: 32 word) n \<longleftrightarrow> n = 0 \<or> n = 1" unfolding bit_mask_iff by (auto simp: possible_bit_word)
  moreover have "mask 2 = (3::32 word)" by (simp add: mask_eq_exp_minus_1)
  ultimately show "bit (3::32 word) n \<longleftrightarrow> n = 0 \<or> n = 1" by simp
qed

lemma kWriteEvent_ne [simp]: "kWriteEvent \<noteq> 0"
  by (simp add: event_defs)

lemma writing_bits [simp]:
  "(e OR kWriteEvent) AND kWriteEvent \<noteq> 0" "(e AND NOT kWriteEvent) AND kWriteEvent = 0"
  "(e OR kReadEvent) AND kWriteEvent = e AND kWriteEvent" "kReadEvent AND kWriteEvent = 0" "kNoneEvent AND kWriteEvent = 0"
  by (auto simp: event_defs bit_eq_iff [where 'a = "32 word"] bit_simps bit_small simp del: bit_numeral_word_iff)

subsection \<open>The contract of \<open>epoll_ctl\<close>\<close>

text \<open>
  A channel agrees with the kernel: it is registered with its events and its address exactly in the
  state \<open>kAdded\<close>, and known to the poller's table unless it is new.
\<close>

definition chan_ok :: "('k \<Rightarrow> int \<Rightarrow> (32 word \<times> nat) option) \<Rightarrow> channel \<Rightarrow> 'k poller \<Rightarrow> bool" where
  "chan_ok view c p \<longleftrightarrow>
     (if index c = kAdded then view (kernel p) (fd c) = Some (events c OR EPOLLET, cid c) \<and> hasChannel c p
      else if index c = kDeleted then view (kernel p) (fd c) = None \<and> hasChannel c p
      else index c = kNew \<and> view (kernel p) (fd c) = None)"

locale epoll_kernel =
  fixes ctl :: "'k epoll_ctl"
    and view :: "'k \<Rightarrow> int \<Rightarrow> (32 word \<times> nat) option"
  assumes add: "view k f = None \<Longrightarrow> \<exists>k'. ctl EPOLL_CTL_ADD f e k = (True, k') \<and> view k' = (view k)(f \<mapsto> e)"
    and modify: "view k f \<noteq> None \<Longrightarrow> \<exists>k'. ctl EPOLL_CTL_MOD f e k = (True, k') \<and> view k' = (view k)(f \<mapsto> e)"
    and delete: "view k f \<noteq> None \<Longrightarrow> \<exists>k'. ctl EPOLL_CTL_DEL f e k = (True, k') \<and> view k' = (view k)(f := None)"
begin

lemma updateChannel_ok:
  assumes "chan_ok view (c\<lparr>events := ev\<rparr>) p"
  shows "\<exists>c' p'. updateChannel ctl c p = Some (c', p') \<and> chan_ok view c' p' \<and> c' = c\<lparr>index := index c'\<rparr> \<and>
    (\<forall>f. f \<noteq> fd c \<longrightarrow> view (kernel p') f = view (kernel p) f \<and> channels p' f = channels p f)"
proof (cases "index c = kNew \<or> index c = kDeleted")
  case True
  then have "view (kernel p) (fd c) = None" using assms by (auto simp: chan_ok_def index_defs)
  from add [OF this, of "(events c OR EPOLLET, cid c)"] True assms show ?thesis
    by (auto simp: updateChannel_def ctl_update_def chan_ok_def hasChannel_def Let_def index_defs)
next
  case False
  then have "view (kernel p) (fd c) \<noteq> None" "index c = kAdded"
    using assms by (auto simp: chan_ok_def split: if_splits)
  with modify [OF this(1), of "(events c OR EPOLLET, cid c)"] delete [OF this(1), of "(events c OR EPOLLET, cid c)"] assms
  show ?thesis
    by (auto simp: updateChannel_def ctl_update_def chan_ok_def hasChannel_def index_defs)
qed

lemma chan_update_ok:
  assumes "chan_ok view c p"
  shows "\<exists>c' p'. chan_update ctl (c\<lparr>events := e\<rparr>) p = Some (c', p') \<and> chan_ok view c' p' \<and>
    c' = c\<lparr>events := e, addedToLoop := True, index := index c'\<rparr> \<and>
    (\<forall>f. f \<noteq> fd c \<longrightarrow> view (kernel p') f = view (kernel p) f \<and> channels p' f = channels p f)"
proof -
  have "chan_ok view (c\<lparr>events := e, addedToLoop := True, events := events c\<rparr>) p"
    using assms by (simp add: chan_ok_def hasChannel_def split: if_splits)
  from updateChannel_ok [OF this] show ?thesis by (simp add: chan_update_def)
qed

lemma chan_remove_ok:
  assumes "chan_ok view c p"
  shows "\<exists>c' p'. chan_remove ctl c p = Some (c', p') \<and> chan_ok view c' p' \<and>
    c' = c\<lparr>addedToLoop := False, index := kNew\<rparr> \<and> view (kernel p') (fd c) = None \<and>
    (\<forall>f. f \<noteq> fd c \<longrightarrow> view (kernel p') f = view (kernel p) f \<and> channels p' f = channels p f)"
proof (cases "index c = kAdded")
  case True
  with assms have "view (kernel p) (fd c) \<noteq> None" by (simp add: chan_ok_def)
  from delete [OF this, of "(events c OR EPOLLET, cid c)"] True show ?thesis
    by (auto simp: chan_remove_def removeChannel_def ctl_update_def chan_ok_def index_defs Let_def)
qed (use assms in \<open>auto simp: chan_remove_def removeChannel_def chan_ok_def index_defs Let_def split: if_splits\<close>)

lemma chan_step_ok:
  assumes "chan_ok view c p"
  shows "\<exists>c' p'. chan_step ctl a c p = Some (c', p') \<and> chan_ok view c' p' \<and>
    c' = c\<lparr>events := newEvents a (events c), addedToLoop := (a \<noteq> RemoveChan), index := index c'\<rparr> \<and>
    (\<forall>f. f \<noteq> fd c \<longrightarrow> view (kernel p') f = view (kernel p) f \<and> channels p' f = channels p f)"
proof (cases "a = RemoveChan")
  case True
  with chan_remove_ok [OF assms] show ?thesis by auto
next
  case False
  from chan_update_ok [OF assms, of "newEvents a (events c)"] show ?thesis
    unfolding chan_step_update [OF False, symmetric] using False by simp
qed

lemma chan_run_ok:
  assumes "chan_ok view c p"
  shows "\<exists>c' p'. chan_run ctl as c p = Some (c', p') \<and> chan_ok view c' p' \<and> fd c' = fd c \<and> cid c' = cid c \<and>
    events c' = fold newEvents as (events c) \<and>
    (\<forall>f. f \<noteq> fd c \<longrightarrow> view (kernel p') f = view (kernel p) f \<and> channels p' f = channels p f)"
  using assms
proof (induction as arbitrary: c p)
  case (Cons a as)
  obtain c1 p1 where s: "chan_step ctl a c p = Some (c1, p1)" "chan_ok view c1 p1"
    "c1 = c\<lparr>events := newEvents a (events c), addedToLoop := (a \<noteq> RemoveChan), index := index c1\<rparr>"
    "\<forall>f. f \<noteq> fd c \<longrightarrow> view (kernel p1) f = view (kernel p) f \<and> channels p1 f = channels p f"
    using chan_step_ok [OF Cons.prems] by blast
  have "fd c1 = fd c" "cid c1 = cid c" "events c1 = newEvents a (events c)" by (subst s(3), simp)+
  with Cons.IH [OF s(2)] s(1,4) show ?case by simp
qed simp

end

subsection \<open>The interest map\<close>

type_synonym interest = "int \<Rightarrow> (32 word \<times> nat) option"

text \<open>\<open>epoll_ctl\<close> on an interest list: EEXIST for a second addition, ENOENT for an unknown descriptor.\<close>

fun interest_ctl :: "interest epoll_ctl" where
  "interest_ctl EPOLL_CTL_ADD f e k = (if k f = None then (True, k(f \<mapsto> e)) else (False, k))"
| "interest_ctl EPOLL_CTL_MOD f e k = (if k f \<noteq> None then (True, k(f \<mapsto> e)) else (False, k))"
| "interest_ctl EPOLL_CTL_DEL f e k = (if k f \<noteq> None then (True, k(f := None)) else (False, k))"

interpretation ep: epoll_kernel interest_ctl "\<lambda>k. k"
  by unfold_locales auto

subsection \<open>Properties\<close>



end
