(* ===== verification/Tcp_Connection.thy ===== *)
theory Tcp_Connection
  imports Channel_Poller Net_Buffer
begin

text \<open>
  \<open>TcpConnection\<close> (\<open>src/net/tcp_connection.h\<close> and \<open>.cpp\<close>): the state machine of one connection, its
  input and output buffers and its channel.  Every handler takes the connection and the poller and
  returns them with the effects in order: bytes the kernel accepted, callbacks, functors put on the
  loop, and the half close.  Results of \<open>write\<close> and \<open>readv\<close> are arguments (Inl is errno).
\<close>

subsection \<open>State\<close>

datatype connState = kDisconnected | kConnecting | kConnected | kDisconnecting

record conn =
  cstate :: connState
  chan :: channel
  inputBuffer :: buffer
  outputBuffer :: buffer
  highWaterMark :: nat
  hasConnectionCb :: bool
  hasMessageCb :: bool
  hasWriteCompleteCb :: bool
  hasHighWaterCb :: bool
  hasCloseCallback :: bool

datatype ceffect =
    Wrote string
  | ConnectionCallback bool
  | MessageCallback
  | CloseCallback
  | ErrorHandled
  | ShutdownWrite
  | QueueSend string
  | QueueShutdown
  | QueueForceClose
  | QueueWriteComplete
  | QueueHighWater nat

type_synonym 'k cresult = "(conn \<times> 'k poller \<times> ceffect list) option"

definition EWOULDBLOCK :: int where "EWOULDBLOCK = 11"
definition EPIPE :: int where "EPIPE = 32"
definition ECONNRESET :: int where "ECONNRESET = 104"

definition conn_new :: "nat \<Rightarrow> int \<Rightarrow> conn" where
  "conn_new a sockfd = \<lparr>cstate = kConnecting, chan = setCallbacks (channel_new a sockfd),
     inputBuffer = buf_new kInitialSize, outputBuffer = buf_new kInitialSize,
     highWaterMark = 64 * 1024 * 1024, hasConnectionCb = False, hasMessageCb = False,
     hasWriteCompleteCb = False, hasHighWaterCb = False, hasCloseCallback = False\<rparr>"

fun stateToString :: "connState \<Rightarrow> string" where
  "stateToString kDisconnected = ''kDisconnected''"
| "stateToString kConnecting = ''kConnecting''"
| "stateToString kConnected = ''kConnected''"
| "stateToString kDisconnecting = ''kDisconnecting''"

text \<open>Running a channel operation on the connection's channel.\<close>

definition on_chan :: "(channel \<Rightarrow> 'k poller \<Rightarrow> (channel \<times> 'k poller) option) \<Rightarrow> conn \<Rightarrow> 'k poller \<Rightarrow>
    (conn \<times> 'k poller) option" where
  "on_chan f c p = map_option (\<lambda>(ch, p'). (c\<lparr>chan := ch\<rparr>, p')) (f (chan c) p)"

subsection \<open>Sending\<close>

text \<open>
  \<open>sendInLoop\<close>: \<open>wr\<close> is the result of the direct \<open>write\<close>, which is attempted only when nothing is
  queued.  A broken pipe drops the data; any other error queues it.
\<close>

definition sendInLoop :: "'k epoll_ctl \<Rightarrow> int + nat \<Rightarrow> string \<Rightarrow> conn \<Rightarrow> 'k poller \<Rightarrow> 'k cresult" where
  "sendInLoop ctl wr data c p =
     (if cstate c = kDisconnected then Some (c, p, [])
      else
        let direct = (\<not> isWriting (chan c) \<and> readableBytes (outputBuffer c) = 0);
            nwrote = (if direct then (case wr of Inr n \<Rightarrow> n | Inl err \<Rightarrow> 0) else 0);
            remaining = size_sub (length data) nwrote;
            faultError = (direct \<and> (case wr of Inr n \<Rightarrow> False
              | Inl err \<Rightarrow> err \<noteq> EWOULDBLOCK \<and> (err = EPIPE \<or> err = ECONNRESET)));
            es1 = (if direct then (case wr of
                Inr n \<Rightarrow> Wrote (take n data) # (if remaining = 0 \<and> hasWriteCompleteCb c then [QueueWriteComplete] else [])
              | Inl err \<Rightarrow> []) else [])
        in if \<not> faultError \<and> 0 < remaining then
             (let oldLen = readableBytes (outputBuffer c);
                  es2 = (if highWaterMark c \<le> oldLen + remaining \<and> oldLen < highWaterMark c \<and> hasHighWaterCb c
                         then [QueueHighWater (oldLen + remaining)] else []);
                  c1 = c\<lparr>outputBuffer := append_bytes (take remaining (drop nwrote data)) (outputBuffer c)\<rparr>
              in if \<not> isWriting (chan c1)
                 then map_option (\<lambda>(c2, p2). (c2, p2, es1 @ es2)) (on_chan (enableWriting ctl) c1 p)
                 else Some (c1, p, es1 @ es2))
           else Some (c, p, es1))"

text \<open>\<open>send\<close>, in the loop's thread or from another one.\<close>

definition conn_send :: "'k epoll_ctl \<Rightarrow> bool \<Rightarrow> int + nat \<Rightarrow> string \<Rightarrow> conn \<Rightarrow> 'k poller \<Rightarrow> 'k cresult" where
  "conn_send ctl inLoop wr msg c p =
     (if cstate c = kConnected
      then if inLoop then sendInLoop ctl wr msg c p else Some (c, p, [QueueSend msg])
      else Some (c, p, []))"

text \<open>\<open>send(Buffer*)\<close> also empties the buffer it sends; the third component of the result is that buffer.\<close>

definition conn_sendBuffer :: "'k epoll_ctl \<Rightarrow> bool \<Rightarrow> int + nat \<Rightarrow> buffer \<Rightarrow> conn \<Rightarrow> 'k poller \<Rightarrow>
    ('k cresult \<times> buffer) option" where
  "conn_sendBuffer ctl inLoop wr b c p =
     (if cstate c = kConnected
      then if inLoop then Some (sendInLoop ctl wr (content b) c p, retrieveAll b)
           else map_option (\<lambda>(msg, b'). (Some (c, p, [QueueSend msg]), b')) (retrieveAllAsString b)
      else Some (Some (c, p, []), b))"

subsection \<open>Closing\<close>

definition shutdownInLoop :: "conn \<Rightarrow> ceffect list" where
  "shutdownInLoop c = (if \<not> isWriting (chan c) then [ShutdownWrite] else [])"

definition conn_shutdown :: "bool \<Rightarrow> conn \<Rightarrow> conn \<times> ceffect list" where
  "conn_shutdown inLoop c =
     (if cstate c = kConnected
      then let c1 = c\<lparr>cstate := kDisconnecting\<rparr> in (c1, if inLoop then shutdownInLoop c1 else [QueueShutdown])
      else (c, []))"

definition forceClose :: "conn \<Rightarrow> conn \<times> ceffect list" where
  "forceClose c = (if cstate c = kConnected \<or> cstate c = kDisconnecting
     then (c\<lparr>cstate := kDisconnecting\<rparr>, [QueueForceClose]) else (c, []))"

definition handleClose :: "'k epoll_ctl \<Rightarrow> conn \<Rightarrow> 'k poller \<Rightarrow> 'k cresult" where
  "handleClose ctl c p =
     map_option (\<lambda>(c1, p1). (c1, p1, (if hasConnectionCb c then [ConnectionCallback False] else []) @
         (if hasCloseCallback c then [CloseCallback] else [])))
       (on_chan (disableAll ctl) (c\<lparr>cstate := kDisconnected\<rparr>) p)"

definition forceCloseInLoop :: "'k epoll_ctl \<Rightarrow> conn \<Rightarrow> 'k poller \<Rightarrow> 'k cresult" where
  "forceCloseInLoop ctl c p =
     (if cstate c = kConnected \<or> cstate c = kDisconnecting then handleClose ctl c p else Some (c, p, []))"

definition connectEstablished :: "'k epoll_ctl \<Rightarrow> conn \<Rightarrow> 'k poller \<Rightarrow> 'k cresult" where
  "connectEstablished ctl c p =
     map_option (\<lambda>(c1, p1). (c1, p1, if hasConnectionCb c then [ConnectionCallback True] else []))
       (on_chan (enableReading ctl) (c\<lparr>cstate := kConnected, chan := chan_tie (chan c)\<rparr>) p)"

definition connectDestroyed :: "'k epoll_ctl \<Rightarrow> conn \<Rightarrow> 'k poller \<Rightarrow> 'k cresult" where
  "connectDestroyed ctl c p = do {
     (c1, p1, es) \<leftarrow>
       (if cstate c = kConnected
        then map_option (\<lambda>(c1, p1). (c1, p1, if hasConnectionCb c then [ConnectionCallback False] else []))
               (on_chan (disableAll ctl) (c\<lparr>cstate := kDisconnected\<rparr>) p)
        else Some (c, p, []));
     (c2, p2) \<leftarrow> on_chan (chan_remove ctl) c1 p1;
     Some (c2, p2, es) }"

subsection \<open>Events\<close>

text \<open>\<open>handleRead\<close>: one \<open>readv\<close>; what the message callback does is the caller's.\<close>

definition handleRead :: "'k epoll_ctl \<Rightarrow> int + string \<Rightarrow> conn \<Rightarrow> 'k poller \<Rightarrow> 'k cresult" where
  "handleRead ctl r c p =
     (case readFd r (inputBuffer c) of (b, n, err) \<Rightarrow>
        let c1 = c\<lparr>inputBuffer := b\<rparr> in
        if 0 < n then Some (c1, p, if hasMessageCb c then [MessageCallback] else [])
        else if n = 0 then handleClose ctl c1 p
        else Some (c1, p, [ErrorHandled]))"

definition handleWrite :: "'k epoll_ctl \<Rightarrow> int + nat \<Rightarrow> conn \<Rightarrow> 'k poller \<Rightarrow> 'k cresult" where
  "handleWrite ctl wr c p =
     (if isWriting (chan c) then
        (case writeFd wr (outputBuffer c) of (n, err) \<Rightarrow>
           if 0 < n then
             (let out = take (nat n) (content (outputBuffer c));
                  c1 = c\<lparr>outputBuffer := retrieve (nat n) (outputBuffer c)\<rparr>
              in if readableBytes (outputBuffer c1) = 0 then
                   map_option (\<lambda>(c2, p2). (c2, p2, Wrote out #
                       (if hasWriteCompleteCb c2 then [QueueWriteComplete] else []) @
                       (if cstate c2 = kDisconnecting then shutdownInLoop c2 else [])))
                     (on_chan (disableWriting ctl) c1 p)
                 else Some (c1, p, [Wrote out]))
           else Some (c, p, []))
      else Some (c, p, []))"

text \<open>\<open>handleEvent\<close> on the connection's channel: its callbacks in the order the channel calls them.\<close>

fun runHandler :: "'k epoll_ctl \<Rightarrow> int + string \<Rightarrow> int + nat \<Rightarrow> handler \<Rightarrow> conn \<Rightarrow> 'k poller \<Rightarrow> 'k cresult" where
  "runHandler ctl r w ReadCb c p = handleRead ctl r c p"
| "runHandler ctl r w WriteCb c p = handleWrite ctl w c p"
| "runHandler ctl r w CloseCb c p = handleClose ctl c p"
| "runHandler ctl r w ErrorCb c p = Some (c, p, [ErrorHandled])"

subsection \<open>What one connection goes through\<close>

text \<open>
  The kernel's answers are part of the events: a \<open>write\<close> takes at most the given number of the bytes
  it is offered or fails, a \<open>readv\<close> delivers at most what the buffers hold.
\<close>

datatype cevent =
    EvSend string "int + nat"
  | EvQueuedSend string "int + nat"
  | EvWritable "int + nat"
  | EvReadable "int + string"
  | EvShutdown
  | EvQueuedShutdown

definition offer :: "nat \<Rightarrow> int + nat \<Rightarrow> int + nat" where
  "offer len w = (case w of Inl e \<Rightarrow> Inl e | Inr k \<Rightarrow> Inr (min k len))"

definition deliver :: "nat \<Rightarrow> int + string \<Rightarrow> int + string" where
  "deliver cap r = (case r of Inl e \<Rightarrow> Inl e | Inr d \<Rightarrow> Inr (take cap d))"

fun conn_step :: "'k epoll_ctl \<Rightarrow> cevent \<Rightarrow> conn \<Rightarrow> 'k poller \<Rightarrow> 'k cresult" where
  "conn_step ctl (EvSend m w) c p = conn_send ctl True (offer (length m) w) m c p"
| "conn_step ctl (EvQueuedSend m w) c p = sendInLoop ctl (offer (length m) w) m c p"
| "conn_step ctl (EvWritable w) c p = handleWrite ctl (offer (readableBytes (outputBuffer c)) w) c p"
| "conn_step ctl (EvReadable r) c p = handleRead ctl (deliver (readCapacity (inputBuffer c)) r) c p"
| "conn_step ctl EvShutdown c p = (case conn_shutdown True c of (c', es) \<Rightarrow> Some (c', p, es))"
| "conn_step ctl EvQueuedShutdown c p = Some (c, p, shutdownInLoop c)"

fun conn_run :: "'k epoll_ctl \<Rightarrow> cevent list \<Rightarrow> conn \<Rightarrow> 'k poller \<Rightarrow> 'k cresult" where
  "conn_run ctl [] c p = Some (c, p, [])"
| "conn_run ctl (e # evs) c p = do {
     (c1, p1, es1) \<leftarrow> conn_step ctl e c p;
     (c2, p2, es2) \<leftarrow> conn_run ctl evs c1 p1;
     Some (c2, p2, es1 @ es2) }"

text \<open>The bytes the kernel accepted, and the bytes a history of events asks to send.\<close>

fun wrote :: "ceffect list \<Rightarrow> string" where
  "wrote [] = []"
| "wrote (Wrote s # es) = s @ wrote es"
| "wrote (_ # es) = wrote es"

fun nextState :: "connState \<Rightarrow> cevent \<Rightarrow> connState" where
  "nextState st EvShutdown = (if st = kConnected then kDisconnecting else st)"
| "nextState st (EvReadable r) = (if r = Inr [] then kDisconnected else st)"
| "nextState st _ = st"

fun sentBytes :: "connState \<Rightarrow> cevent list \<Rightarrow> string" where
  "sentBytes st [] = []"
| "sentBytes st (e # evs) =
     (case e of EvSend m w \<Rightarrow> if st = kConnected then m else []
              | EvQueuedSend m w \<Rightarrow> if st \<noteq> kDisconnected then m else []
              | _ \<Rightarrow> []) @ sentBytes (nextState st e) evs"

text \<open>No write fails because the peer has gone.\<close>

fun peerAlive :: "cevent \<Rightarrow> bool" where
  "peerAlive (EvSend m (Inl e)) = (e \<noteq> EPIPE \<and> e \<noteq> ECONNRESET)"
| "peerAlive (EvQueuedSend m (Inl e)) = (e \<noteq> EPIPE \<and> e \<noteq> ECONNRESET)"
| "peerAlive _ = True"

subsection \<open>The invariant of a connection\<close>

text \<open>Writing is watched for exactly while output is queued.\<close>

definition conn_ok :: "('k \<Rightarrow> int \<Rightarrow> (32 word \<times> nat) option) \<Rightarrow> conn \<Rightarrow> 'k poller \<Rightarrow> bool" where
  "conn_ok view c p \<longleftrightarrow> chan_ok view (chan c) p \<and> buf_inv (inputBuffer c) \<and> buf_inv (outputBuffer c) \<and>
     (if cstate c = kDisconnected then \<not> isWriting (chan c)
      else isWriting (chan c) \<longleftrightarrow> content (outputBuffer c) \<noteq> [])"

lemma wrote_append [simp]: "wrote (es @ es') = wrote es @ wrote es'"
  by (induction es rule: wrote.induct) simp_all

context epoll_kernel
begin

lemma on_chan_ok:
  assumes "chan_ok view (chan c) p" "a \<noteq> RemoveChan"
  shows "\<exists>ch p'. on_chan (chan_step ctl a) c p = Some (c\<lparr>chan := ch\<rparr>, p') \<and> chan_ok view ch p' \<and>
    events ch = newEvents a (events (chan c))"
proof -
  obtain ch p' where s: "chan_step ctl a (chan c) p = Some (ch, p')" "chan_ok view ch p'"
    "ch = (chan c)\<lparr>events := newEvents a (events (chan c)), addedToLoop := (a \<noteq> RemoveChan), index := index ch\<rparr>"
    using chan_step_ok [OF assms(1)] by blast
  have "events ch = newEvents a (events (chan c))" by (subst s(3)) simp
  with s(1,2) show ?thesis by (auto simp: on_chan_def)
qed

lemma sendInLoop_ok:
  assumes ok: "conn_ok view c p" and st: "cstate c \<noteq> kDisconnected"
    and w: "case w of Inl e \<Rightarrow> e \<noteq> EPIPE \<and> e \<noteq> ECONNRESET | Inr n \<Rightarrow> n \<le> length data"
  shows "\<exists>c' p' es. sendInLoop ctl w data c p = Some (c', p', es) \<and> conn_ok view c' p' \<and> cstate c' = cstate c \<and>
    wrote es @ content (outputBuffer c') = content (outputBuffer c) @ data \<and> ShutdownWrite \<notin> set es"
proof -
  let ?out = "outputBuffer c"
  have inv: "buf_inv ?out" "chan_ok view (chan c) p" "isWriting (chan c) \<longleftrightarrow> content ?out \<noteq> []"
    using ok st by (auto simp: conn_ok_def)
  then have direct: "(\<not> isWriting (chan c) \<and> readableBytes ?out = 0) = (content ?out = [])"
    by (auto simp: readable_content)
  define n where "n = (if content ?out = [] then (case w of Inr n \<Rightarrow> n | Inl err \<Rightarrow> 0) else 0)"
  have n: "n \<le> length data" using w by (auto simp: n_def split: sum.splits)
  define es1 where "es1 = (if content ?out = [] then (case w of
      Inr n \<Rightarrow> Wrote (take n data) # (if length data - n = 0 \<and> hasWriteCompleteCb c then [QueueWriteComplete] else [])
    | Inl err \<Rightarrow> []) else [])"
  have es1: "wrote es1 = take n data"
    by (cases w; cases "content ?out = []"; simp add: es1_def n_def)
  have nosh1: "ShutdownWrite \<notin> set es1"
    by (cases w; cases "content ?out = []"; simp add: es1_def)
  define es2 where "es2 = (if highWaterMark c \<le> readableBytes ?out + (length data - n) \<and> readableBytes ?out < highWaterMark c \<and>
      hasHighWaterCb c then [QueueHighWater (readableBytes ?out + (length data - n))] else [])"
  have es2: "wrote es2 = []" "ShutdownWrite \<notin> set es2" by (auto simp: es2_def)
  have fault: "\<not> (content ?out = [] \<and> (case w of Inr n \<Rightarrow> False
      | Inl err \<Rightarrow> err \<noteq> EWOULDBLOCK \<and> (err = EPIPE \<or> err = ECONNRESET)))"
    using w by (auto split: sum.splits)
  let ?c1 = "c\<lparr>outputBuffer := append_bytes (drop n data) ?out\<rparr>"
  have step: "sendInLoop ctl w data c p =
    (if 0 < length data - n then
       (if \<not> isWriting (chan c) then map_option (\<lambda>(c2, p2). (c2, p2, es1 @ es2)) (on_chan (enableWriting ctl) ?c1 p)
        else Some (?c1, p, es1 @ es2))
     else Some (c, p, es1))"
    unfolding sendInLoop_def Let_def if_not_P [OF st] direct n_def [symmetric] size_sub_le [OF n]
    using fault by (simp add: es1_def es2_def n_def split: sum.split)
  show ?thesis
  proof (cases "0 < length data - n")
    case False
    then have "take n data = data" by simp
    moreover have "content ?out = [] \<or> data = []" using False n by (auto simp: n_def split: if_splits)
    ultimately show ?thesis using step False ok es1 nosh1 by auto
  next
    case True
    have app: "buf_inv (append_bytes (drop n data) ?out)" "content (append_bytes (drop n data) ?out) = content ?out @ drop n data"
      using append_bytes_inv [OF inv(1)] by simp_all
    have eq: "take n data @ content ?out @ drop n data = content ?out @ data" by (cases "content ?out = []") (simp_all add: n_def)
    show ?thesis
    proof (cases "isWriting (chan c)")
      case True
      with \<open>0 < length data - n\<close> step app inv es1 nosh1 es2 eq ok st show ?thesis by (auto simp: conn_ok_def)
    next
      case False
      have "chan_ok view (chan ?c1) p" using inv(2) by simp
      from on_chan_ok [OF this, of EnableWriting] obtain ch p' where
        "on_chan (enableWriting ctl) ?c1 p = Some (?c1\<lparr>chan := ch\<rparr>, p')" "chan_ok view ch p'"
        "events ch = events (chan c) OR kWriteEvent" by auto
      with False True step app es1 nosh1 es2 eq ok st show ?thesis by (auto simp: conn_ok_def isWriting_def)
    qed
  qed
qed

lemma handleWrite_ok:
  assumes ok: "conn_ok view c p" and st: "cstate c \<noteq> kDisconnected"
    and w: "w = offer (readableBytes (outputBuffer c)) w0"
  shows "\<exists>c' p' es. handleWrite ctl w c p = Some (c', p', es) \<and> conn_ok view c' p' \<and> cstate c' = cstate c \<and>
    wrote es @ content (outputBuffer c') = content (outputBuffer c) \<and>
    (ShutdownWrite \<in> set es \<longleftrightarrow> cstate c = kDisconnecting \<and> content (outputBuffer c) \<noteq> [] \<and> content (outputBuffer c') = []) \<and>
    (ShutdownWrite \<in> set es \<longrightarrow> (\<exists>pre. es = pre @ [ShutdownWrite] \<and> ShutdownWrite \<notin> set pre)) \<and>
    (content (outputBuffer c) = [] \<longrightarrow> es = []) \<and>
    content (outputBuffer c') = (case w0 of Inr k \<Rightarrow> drop k (content (outputBuffer c)) | Inl e \<Rightarrow> content (outputBuffer c))"
proof -
  let ?out = "outputBuffer c"
  have inv: "buf_inv ?out" "chan_ok view (chan c) p" "isWriting (chan c) \<longleftrightarrow> content ?out \<noteq> []"
    using ok st by (auto simp: conn_ok_def)
  show ?thesis
  proof (cases "isWriting (chan c) \<and> (case w0 of Inl e \<Rightarrow> False | Inr k \<Rightarrow> 0 < k)")
    case False
    then have "handleWrite ctl w c p = Some (c, p, [])"
      by (auto simp: handleWrite_def w offer_def writeFd_def split: sum.split)
    moreover have "content ?out = (case w0 of Inr k \<Rightarrow> drop k (content ?out) | Inl e \<Rightarrow> content ?out)"
      using False inv(3) by (auto split: sum.split)
    ultimately show ?thesis using ok by auto
  next
    case True
    then obtain k where k: "w0 = Inr k" "0 < k" by (auto split: sum.splits)
    let ?n = "min k (length (content ?out))"
    have ne: "content ?out \<noteq> []" using True inv(3) by simp
    let ?c1 = "c\<lparr>outputBuffer := retrieve ?n ?out\<rparr>"
    have out1: "buf_inv (retrieve ?n ?out)" "content (retrieve ?n ?out) = drop k (content ?out)"
      using retrieve_inv [OF inv(1), of ?n] by (auto simp: min_def)
    have rd: "readableBytes (retrieve ?n ?out) = 0 \<longleftrightarrow> drop k (content ?out) = []"
      using readable_content [OF out1(1)] out1(2) by simp
    have pos: "0 < int ?n" using k ne by simp
    have tk: "take (nat (int ?n)) (content ?out) @ drop k (content ?out) = content ?out" by (simp add: min_def)
    have step: "handleWrite ctl w c p = (if drop k (content ?out) = [] then
          map_option (\<lambda>(c2, p2). (c2, p2, Wrote (take (nat (int ?n)) (content ?out)) #
              (if hasWriteCompleteCb c2 then [QueueWriteComplete] else []) @
              (if cstate c2 = kDisconnecting then shutdownInLoop c2 else [])))
            (on_chan (disableWriting ctl) ?c1 p)
        else Some (?c1, p, [Wrote (take (nat (int ?n)) (content ?out))]))"
      using True pos rd by (simp add: handleWrite_def w k(1) offer_def writeFd_def Let_def readable_content [OF inv(1)])
    show ?thesis
    proof (cases "drop k (content ?out) = []")
      case False
      with step ok out1 tk k inv(3) True st show ?thesis by (auto simp: conn_ok_def)
    next
      case drained: True
      have "chan_ok view (chan ?c1) p" using inv(2) by simp
      from on_chan_ok [OF this, of DisableWriting] obtain ch p' where
        ch: "on_chan (disableWriting ctl) ?c1 p = Some (?c1\<lparr>chan := ch\<rparr>, p')" "chan_ok view ch p'"
        "events ch = events (chan c) AND NOT kWriteEvent" by auto
      then have "\<not> isWriting ch" by (simp add: isWriting_def)
      with ch drained step ok out1 tk k ne st show ?thesis
        by (auto simp: conn_ok_def shutdownInLoop_def)
    qed
  qed
qed

lemma handleClose_ok:
  assumes "conn_ok view c p"
  shows "\<exists>c' p' es. handleClose ctl c p = Some (c', p', es) \<and> conn_ok view c' p' \<and> cstate c' = kDisconnected \<and>
    outputBuffer c' = outputBuffer c \<and> wrote es = [] \<and> ShutdownWrite \<notin> set es"
proof -
  have "chan_ok view (chan (c\<lparr>cstate := kDisconnected\<rparr>)) p" using assms by (simp add: conn_ok_def)
  from on_chan_ok [OF this, of DisableAll] obtain ch p' where
    "on_chan (disableAll ctl) (c\<lparr>cstate := kDisconnected\<rparr>) p = Some (c\<lparr>cstate := kDisconnected, chan := ch\<rparr>, p')"
    "chan_ok view ch p'" "events ch = kNoneEvent" by auto
  with assms show ?thesis by (auto simp: handleClose_def conn_ok_def isWriting_def)
qed

lemma handleRead_ok:
  assumes ok: "conn_ok view c p" and r: "r = deliver (readCapacity (inputBuffer c)) r0"
  shows "\<exists>c' p' es. handleRead ctl r c p = Some (c', p', es) \<and> conn_ok view c' p' \<and>
    cstate c' = nextState (cstate c) (EvReadable r0) \<and> outputBuffer c' = outputBuffer c \<and>
    wrote es = [] \<and> ShutdownWrite \<notin> set es \<and>
    content (inputBuffer c') = content (inputBuffer c) @ (case r0 of Inr d \<Rightarrow> take (readCapacity (inputBuffer c)) d | Inl e \<Rightarrow> [])"
proof (cases r0)
  case (Inl e)
  with ok show ?thesis by (auto simp: handleRead_def readFd_def r deliver_def)
next
  case (Inr d)
  let ?d = "take (readCapacity (inputBuffer c)) d"
  have cap: "0 < readCapacity (inputBuffer c)" by (simp add: readCapacity_def kExtraBuf_def)
  have "buf_inv (inputBuffer c)" using ok by (simp add: conn_ok_def)
  then obtain b where b: "readFd (Inr ?d) (inputBuffer c) = (b, int (length ?d), None)" "buf_inv b"
      "content b = content (inputBuffer c) @ ?d" using readFd_ok [of "inputBuffer c" ?d] by auto
  have ok1: "conn_ok view (c\<lparr>inputBuffer := b\<rparr>) p" using ok b(2) by (simp add: conn_ok_def)
  show ?thesis
  proof (cases "d = []")
    case True
    from handleClose_ok [OF ok1] obtain c' p' es where h: "handleClose ctl (c\<lparr>inputBuffer := b\<rparr>) p = Some (c', p', es)"
      "conn_ok view c' p'" "cstate c' = kDisconnected" "outputBuffer c' = outputBuffer c" "wrote es = []" "ShutdownWrite \<notin> set es"
      by auto
    moreover have "inputBuffer c' = b" using h(1) by (auto simp: handleClose_def on_chan_def)
    ultimately show ?thesis using True Inr b by (simp add: handleRead_def r deliver_def)
  next
    case False
    with ok1 b Inr cap show ?thesis by (auto simp: handleRead_def r deliver_def)
  qed
qed

lemma conn_step_ok:
  assumes ok: "conn_ok view c p" and alive: "peerAlive e" "cstate c \<noteq> kConnecting"
  shows "\<exists>c' p' es. conn_step ctl e c p = Some (c', p', es) \<and> conn_ok view c' p' \<and> cstate c' = nextState (cstate c) e \<and>
    wrote es @ content (outputBuffer c') = content (outputBuffer c) @ sentBytes (cstate c) [e] \<and>
    (ShutdownWrite \<in> set es \<longrightarrow> cstate c \<noteq> kDisconnected \<longrightarrow> content (outputBuffer c') = [])"
proof (cases e)
  case (EvSend m w)
  have w: "case offer (length m) w of Inl e \<Rightarrow> e \<noteq> EPIPE \<and> e \<noteq> ECONNRESET | Inr n \<Rightarrow> n \<le> length m"
    using alive(1) EvSend by (cases w) (simp_all add: offer_def)
  show ?thesis
  proof (cases "cstate c = kConnected")
    case True
    then have "cstate c \<noteq> kDisconnected" by simp
    from sendInLoop_ok [OF ok this w] EvSend True show ?thesis by (auto simp: conn_send_def)
  next
    case False
    with EvSend ok show ?thesis by (simp add: conn_send_def)
  qed
next
  case (EvQueuedSend m w)
  have w: "case offer (length m) w of Inl e \<Rightarrow> e \<noteq> EPIPE \<and> e \<noteq> ECONNRESET | Inr n \<Rightarrow> n \<le> length m"
    using alive(1) EvQueuedSend by (cases w) (simp_all add: offer_def)
  show ?thesis
  proof (cases "cstate c = kDisconnected")
    case True
    with EvQueuedSend ok show ?thesis by (simp add: sendInLoop_def)
  next
    case False
    from sendInLoop_ok [OF ok this w] EvQueuedSend False show ?thesis by auto
  qed
next
  case (EvWritable w)
  show ?thesis
  proof (cases "cstate c = kDisconnected")
    case True
    with EvWritable ok show ?thesis by (simp add: handleWrite_def conn_ok_def)
  next
    case False
    from handleWrite_ok [OF ok this refl, of w] EvWritable show ?thesis by auto
  qed
next
  case (EvReadable r)
  from handleRead_ok [OF ok refl, of r] EvReadable show ?thesis by auto
next
  case EvShutdown
  with ok show ?thesis
    by (auto simp: conn_shutdown_def shutdownInLoop_def conn_ok_def Let_def)
next
  case EvQueuedShutdown
  with ok show ?thesis by (auto simp: shutdownInLoop_def conn_ok_def)
qed

lemma nextState_connecting: "st \<noteq> kConnecting \<Longrightarrow> nextState st e \<noteq> kConnecting"
  by (cases e) auto

lemma conn_run_ok:
  assumes "conn_ok view c p" "\<forall>e \<in> set evs. peerAlive e" "cstate c \<noteq> kConnecting"
  shows "\<exists>c' p' es. conn_run ctl evs c p = Some (c', p', es) \<and> conn_ok view c' p' \<and>
    cstate c' = fold (\<lambda>e st. nextState st e) evs (cstate c) \<and>
    wrote es @ content (outputBuffer c') = content (outputBuffer c) @ sentBytes (cstate c) evs"
  using assms
proof (induction evs arbitrary: c p)
  case (Cons e evs)
  obtain c1 p1 es1 where s: "conn_step ctl e c p = Some (c1, p1, es1)" "conn_ok view c1 p1" "cstate c1 = nextState (cstate c) e"
    "wrote es1 @ content (outputBuffer c1) = content (outputBuffer c) @ sentBytes (cstate c) [e]"
    using conn_step_ok [OF Cons.prems(1) _ Cons.prems(3), of e] Cons.prems(2) by auto
  have "cstate c1 \<noteq> kConnecting" using s(3) nextState_connecting [OF Cons.prems(3)] by simp
  from Cons.IH [OF s(2) _ this] Cons.prems(2) obtain c2 p2 es2 where
    r: "conn_run ctl evs c1 p1 = Some (c2, p2, es2)" "conn_ok view c2 p2"
      "cstate c2 = fold (\<lambda>e st. nextState st e) evs (cstate c1)"
      "wrote es2 @ content (outputBuffer c2) = content (outputBuffer c1) @ sentBytes (cstate c1) evs" by auto
  have "wrote (es1 @ es2) @ content (outputBuffer c2) = wrote es1 @ (wrote es2 @ content (outputBuffer c2))" by simp
  also have "\<dots> = (wrote es1 @ content (outputBuffer c1)) @ sentBytes (cstate c1) evs" using r(4) by simp
  also have "\<dots> = content (outputBuffer c) @ sentBytes (cstate c) (e # evs)" using s(3,4) by simp
  finally have "wrote (es1 @ es2) @ content (outputBuffer c2) = content (outputBuffer c) @ sentBytes (cstate c) (e # evs)" .
  with s(1,3) r(1-3) show ?case by simp
qed simp

text \<open>After a shutdown, writable events drain the queue and then close the write side.\<close>

lemma drained_run:
  assumes "conn_ok view c p" "cstate c = kDisconnecting" "content (outputBuffer c) = []"
  shows "conn_run ctl (map (\<lambda>k. EvWritable (Inr k)) ks) c p = Some (c, p, [])"
proof -
  have "\<not> isWriting (chan c)" using assms by (simp add: conn_ok_def)
  then show ?thesis by (induction ks) (simp_all add: handleWrite_def)
qed

lemma drain_run:
  assumes "conn_ok view c p" "cstate c = kDisconnecting" "content (outputBuffer c) \<noteq> []"
    and "length (content (outputBuffer c)) \<le> sum_list ks"
  shows "\<exists>c' p' pre. conn_run ctl (map (\<lambda>k. EvWritable (Inr k)) ks) c p = Some (c', p', pre @ [ShutdownWrite]) \<and>
    ShutdownWrite \<notin> set pre \<and> wrote pre = content (outputBuffer c) \<and> content (outputBuffer c') = [] \<and>
    cstate c' = kDisconnecting"
  using assms
proof (induction ks arbitrary: c p)
  case (Cons k ks)
  have st: "cstate c \<noteq> kDisconnected" using Cons.prems(2) by simp
  obtain c1 p1 es where s: "handleWrite ctl (offer (readableBytes (outputBuffer c)) (Inr k)) c p = Some (c1, p1, es)"
      "conn_ok view c1 p1" "cstate c1 = kDisconnecting" "wrote es @ content (outputBuffer c1) = content (outputBuffer c)"
      "ShutdownWrite \<in> set es \<longleftrightarrow> content (outputBuffer c1) = []"
      "ShutdownWrite \<in> set es \<longrightarrow> (\<exists>pre. es = pre @ [ShutdownWrite] \<and> ShutdownWrite \<notin> set pre)"
      "content (outputBuffer c1) = drop k (content (outputBuffer c))"
    using handleWrite_ok [OF Cons.prems(1) st refl, of "Inr k"] Cons.prems(2,3) by auto
  show ?case
  proof (cases "content (outputBuffer c1) = []")
    case True
    with s(5,6) obtain pre where "es = pre @ [ShutdownWrite]" "ShutdownWrite \<notin> set pre" by auto
    with s True drained_run [OF s(2,3) True, of ks] show ?thesis by auto
  next
    case False
    have "length (content (outputBuffer c1)) \<le> sum_list ks" using s(7) Cons.prems(4) by simp
    from Cons.IH [OF s(2,3) False this] obtain c2 p2 pre where
      r: "conn_run ctl (map (\<lambda>k. EvWritable (Inr k)) ks) c1 p1 = Some (c2, p2, pre @ [ShutdownWrite])"
        "ShutdownWrite \<notin> set pre" "wrote pre = content (outputBuffer c1)" "content (outputBuffer c2) = []"
        "cstate c2 = kDisconnecting" by blast
    have "ShutdownWrite \<notin> set (es @ pre)" using s(5) False r(2) by simp
    moreover have "wrote (es @ pre) = content (outputBuffer c)" using s(4) r(3) by simp
    ultimately show ?thesis
      using s(1) r(1,4,5) by (intro exI [of _ c2] exI [of _ p2] exI [of _ "es @ pre"]) simp
  qed
qed simp

lemma graceful:
  assumes "conn_ok view c p" "cstate c = kConnected" "length (content (outputBuffer c)) \<le> sum_list ks"
  shows "\<exists>c' p' pre. conn_run ctl (EvShutdown # map (\<lambda>k. EvWritable (Inr k)) ks) c p = Some (c', p', pre @ [ShutdownWrite]) \<and>
    ShutdownWrite \<notin> set pre \<and> wrote pre = content (outputBuffer c) \<and> content (outputBuffer c') = [] \<and>
    cstate c' = kDisconnecting"
proof -
  let ?c = "c\<lparr>cstate := kDisconnecting\<rparr>"
  have ok: "conn_ok view ?c p" using assms(1,2) by (simp add: conn_ok_def)
  have w: "isWriting (chan c) \<longleftrightarrow> content (outputBuffer c) \<noteq> []" using assms(1,2) by (simp add: conn_ok_def)
  show ?thesis
  proof (cases "content (outputBuffer c) = []")
    case True
    have "conn_run ctl (map (\<lambda>k. EvWritable (Inr k)) ks) ?c p = Some (?c, p, [])"
      by (rule drained_run [OF ok]) (simp_all add: True)
    with True assms(2) w show ?thesis by (simp add: conn_shutdown_def shutdownInLoop_def)
  next
    case False
    from drain_run [OF ok, of ks] False assms(3) obtain c' p' pre where
      "conn_run ctl (map (\<lambda>k. EvWritable (Inr k)) ks) ?c p = Some (c', p', pre @ [ShutdownWrite])"
      "ShutdownWrite \<notin> set pre" "wrote pre = content (outputBuffer c)" "content (outputBuffer c') = []"
      "cstate c' = kDisconnecting" by auto
    with False assms(2) w show ?thesis by (simp add: conn_shutdown_def shutdownInLoop_def)
  qed
qed

lemma closed_step:
  assumes "conn_ok view c p" "cstate c = kDisconnected"
  shows "\<exists>c' p' es. conn_step ctl e c p = Some (c', p', es) \<and> conn_ok view c' p' \<and> cstate c' = kDisconnected \<and> wrote es = []"
proof (cases e)
  case (EvReadable r)
  with handleRead_ok [OF assms(1) refl, of r] assms(2) show ?thesis by auto
qed (use assms in \<open>auto simp: conn_send_def sendInLoop_def handleWrite_def conn_shutdown_def shutdownInLoop_def conn_ok_def\<close>)

lemma closed_run:
  assumes "conn_ok view c p" "cstate c = kDisconnected"
  shows "\<exists>c' p' es. conn_run ctl evs c p = Some (c', p', es) \<and> cstate c' = kDisconnected \<and> wrote es = []"
  using assms
proof (induction evs arbitrary: c p)
  case (Cons e evs)
  from closed_step [OF Cons.prems, of e] obtain c1 p1 es1 where
    "conn_step ctl e c p = Some (c1, p1, es1)" "conn_ok view c1 p1" "cstate c1 = kDisconnected" "wrote es1 = []" by blast
  with Cons.IH [of c1 p1] show ?case by auto
qed simp

lemma established_ok:
  assumes "view (kernel p) sockfd = None"
  shows "\<exists>c p'. connectEstablished ctl (conn_new a sockfd) p = Some (c, p', []) \<and> conn_ok view c p' \<and>
    cstate c = kConnected \<and> content (outputBuffer c) = [] \<and> content (inputBuffer c) = []"
proof -
  let ?c = "conn_new a sockfd\<lparr>cstate := kConnected, chan := chan_tie (chan (conn_new a sockfd))\<rparr>"
  have "chan_ok view (chan ?c) p"
    using assms by (simp add: chan_ok_def conn_new_def chan_tie_def setCallbacks_def channel_new_def index_defs)
  from on_chan_ok [OF this, of EnableReading] obtain ch p' where
    "on_chan (enableReading ctl) ?c p = Some (?c\<lparr>chan := ch\<rparr>, p')" "chan_ok view ch p'"
    "events ch = events (chan ?c) OR kReadEvent" by auto
  then show ?thesis
    by (auto simp: connectEstablished_def conn_ok_def isWriting_def conn_new_def chan_tie_def setCallbacks_def channel_new_def)
qed

end

subsection \<open>Edge-triggered reading\<close>

text \<open>
  The kernel's side of an edge-triggered descriptor: its receive queue, and whether data has arrived
  since the last dispatch.  \<open>handleRead\<close> does one \<open>readv\<close>.
\<close>

record etsock =
  rq :: string
  edge :: bool

definition et_arrive :: "string \<Rightarrow> etsock \<Rightarrow> etsock" where
  "et_arrive d s = s\<lparr>rq := rq s @ d, edge := True\<rparr>"

definition et_dispatch :: "'k epoll_ctl \<Rightarrow> etsock \<Rightarrow> conn \<Rightarrow> 'k poller \<Rightarrow> (etsock \<times> conn \<times> 'k poller \<times> ceffect list) option" where
  "et_dispatch ctl s c p =
     (if edge s
      then let cap = readCapacity (inputBuffer c) in
        map_option (\<lambda>(c', p', es). (s\<lparr>rq := drop cap (rq s), edge := False\<rparr>, c', p', es))
          (handleRead ctl (Inr (take cap (rq s))) c p)
      else Some (s, c, p, []))"

subsection \<open>Properties\<close>

text \<open>A connection right after its establishment, for the witnesses.\<close>

lemma sample_conn:
  "\<exists>c p. connectEstablished interest_ctl (conn_new 1 5) (poller_new Map.empty) = Some (c, p, []) \<and>
    conn_ok (\<lambda>k. k) c p \<and> cstate c = kConnected \<and> content (outputBuffer c) = [] \<and> content (inputBuffer c) = []"
  by (rule ep.established_ok) (simp add: poller_new_def)

text \<open>
  C17: nothing that is sent on an open connection is lost, duplicated or reordered, however the
  kernel cuts the writes: after any history of sends, queued sends, writable and readable events and
  shutdowns, the bytes the kernel took followed by the queued bytes are what was queued before
  followed by what was sent while sending was allowed; and writing is watched for exactly while
  output is queued.
\<close>

theorem output_in_order:
  assumes "conn_ok (\<lambda>k. k) c p" "cstate c \<noteq> kConnecting" "\<forall>e \<in> set evs. peerAlive e"
  shows "\<exists>c' p' es. conn_run interest_ctl evs c p = Some (c', p', es) \<and> conn_ok (\<lambda>k. k) c' p' \<and>
    cstate c' = fold (\<lambda>e st. nextState st e) evs (cstate c) \<and>
    wrote es @ content (outputBuffer c') = content (outputBuffer c) @ sentBytes (cstate c) evs"
  using ep.conn_run_ok [OF assms(1,3,2)] .

theorem output_in_order_witness:
  "\<exists>c p c' p' es. connectEstablished interest_ctl (conn_new 1 5) (poller_new Map.empty) = Some (c, p, []) \<and>
    conn_run interest_ctl [EvSend ''hello'' (Inr 2), EvSend ''!'' (Inr 9), EvWritable (Inr 3), EvShutdown, EvSend ''lost'' (Inr 4)] c p =
      Some (c', p', es) \<and> wrote es @ content (outputBuffer c') = ''hello!'' \<and> cstate c' = kDisconnecting"
proof -
  obtain c p where c: "connectEstablished interest_ctl (conn_new 1 5) (poller_new Map.empty) = Some (c, p, [])"
    "conn_ok (\<lambda>k. k) c p" "cstate c = kConnected" "content (outputBuffer c) = []" using sample_conn by blast
  with output_in_order [OF c(2), of "[EvSend ''hello'' (Inr 2), EvSend ''!'' (Inr 9), EvWritable (Inr 3), EvShutdown, EvSend ''lost'' (Inr 4)]"]
  show ?thesis by auto
qed

text \<open>
  C22: \<open>shutdown\<close> on an open connection does not cut off queued output: once the kernel has taken all
  of it, in however many writable events, the write side is closed, exactly once and as the last
  effect.
\<close>

theorem graceful_close:
  assumes "conn_ok (\<lambda>k. k) c p" "cstate c = kConnected" "length (content (outputBuffer c)) \<le> sum_list ks"
  shows "\<exists>c' p' pre. conn_run interest_ctl (EvShutdown # map (\<lambda>k. EvWritable (Inr k)) ks) c p = Some (c', p', pre @ [ShutdownWrite]) \<and>
    ShutdownWrite \<notin> set pre \<and> wrote pre = content (outputBuffer c) \<and> content (outputBuffer c') = [] \<and>
    cstate c' = kDisconnecting"
  using assms by (rule ep.graceful)

theorem graceful_close_witness:
  "\<exists>c p c1 p1 es c2 p2 pre. connectEstablished interest_ctl (conn_new 1 5) (poller_new Map.empty) = Some (c, p, []) \<and>
    conn_run interest_ctl [EvSend ''hello'' (Inr 0)] c p = Some (c1, p1, es) \<and>
    conn_run interest_ctl (EvShutdown # map (\<lambda>k. EvWritable (Inr k)) [2, 3, 1]) c1 p1 = Some (c2, p2, pre @ [ShutdownWrite]) \<and>
    wrote es @ wrote pre = ''hello''"
proof -
  obtain c p where c: "connectEstablished interest_ctl (conn_new 1 5) (poller_new Map.empty) = Some (c, p, [])"
    "conn_ok (\<lambda>k. k) c p" "cstate c = kConnected" "content (outputBuffer c) = []" using sample_conn by blast
  obtain c1 p1 es where r: "conn_run interest_ctl [EvSend ''hello'' (Inr 0)] c p = Some (c1, p1, es)"
    "conn_ok (\<lambda>k. k) c1 p1" "cstate c1 = kConnected" "wrote es @ content (outputBuffer c1) = ''hello''"
    using ep.conn_run_ok [OF c(2), of "[EvSend ''hello'' (Inr 0)]"] c(3,4) by auto
  have "length (content (outputBuffer c1)) \<le> length (wrote es @ content (outputBuffer c1))" by simp
  then have "length (content (outputBuffer c1)) \<le> sum_list [2, 3, 1]" unfolding r(4) by simp
  from graceful_close [OF r(2,3) this] c(1) r(1,4) show ?thesis by metis
qed

text \<open>
  C26: a closed connection stays closed and writes nothing more, whatever is still sent to it, queued
  for it or delivered by the poller.
\<close>

theorem closed_is_silent:
  assumes "conn_ok (\<lambda>k. k) c p"
  shows "\<exists>c1 p1 es1 c2 p2 es2. handleClose interest_ctl c p = Some (c1, p1, es1) \<and>
    conn_run interest_ctl evs c1 p1 = Some (c2, p2, es2) \<and> cstate c2 = kDisconnected \<and> wrote (es1 @ es2) = []"
proof -
  obtain c1 p1 es1 where "handleClose interest_ctl c p = Some (c1, p1, es1)" "conn_ok (\<lambda>k. k) c1 p1"
    "cstate c1 = kDisconnected" "wrote es1 = []" using ep.handleClose_ok [OF assms] by blast
  with ep.closed_run [of c1 p1 evs] show ?thesis by auto
qed

theorem closed_is_silent_witness:
  "\<exists>c p c1 p1 es1 c2 p2 es2. connectEstablished interest_ctl (conn_new 1 5) (poller_new Map.empty) = Some (c, p, []) \<and>
    handleClose interest_ctl c p = Some (c1, p1, es1) \<and>
    conn_run interest_ctl [EvQueuedSend ''x'' (Inr 1), EvWritable (Inr 4)] c1 p1 = Some (c2, p2, es2) \<and> wrote es2 = []"
proof -
  obtain c p where c: "connectEstablished interest_ctl (conn_new 1 5) (poller_new Map.empty) = Some (c, p, [])"
    "conn_ok (\<lambda>k. k) c p" using sample_conn by blast
  with closed_is_silent [OF c(2), of "[EvQueuedSend ''x'' (Inr 1), EvWritable (Inr 4)]"] show ?thesis by auto
qed

text \<open>
  \<open>handleRead\<close> reads once per readable event although the descriptor is edge triggered: when more
  bytes have arrived than the buffer and the extra buffer take, the rest stays in the kernel with no
  event pending, and dispatching again delivers nothing until the peer sends more.
\<close>

lemma edge_leaves_rest:
  assumes "conn_ok (\<lambda>k. k) c p" "hasMessageCb c" "readCapacity (inputBuffer c) < length d"
  shows "\<exists>s c' p'. et_dispatch interest_ctl (et_arrive d \<lparr>rq = [], edge = False\<rparr>) c p = Some (s, c', p', [MessageCallback]) \<and>
    rq s \<noteq> [] \<and> content (inputBuffer c') @ rq s = content (inputBuffer c) @ d \<and>
    et_dispatch interest_ctl s c' p' = Some (s, c', p', [])"
proof -
  let ?cap = "readCapacity (inputBuffer c)"
  have ne: "take ?cap d \<noteq> []" using assms(3) by (auto simp: readCapacity_def kExtraBuf_def)
  have "deliver ?cap (Inr d) = Inr (take ?cap d)" by (simp add: deliver_def)
  with ep.handleRead_ok [OF assms(1) refl, of "Inr d"] obtain c' p' es where
    r: "handleRead interest_ctl (Inr (take ?cap d)) c p = Some (c', p', es)"
      "content (inputBuffer c') = content (inputBuffer c) @ take ?cap d" by auto
  have "es = [MessageCallback]"
    using r(1) ne assms(2) readFd_ok [of "inputBuffer c" "take ?cap d"] assms(1)
    by (auto simp: handleRead_def conn_ok_def)
  with r assms(3) show ?thesis by (simp add: et_dispatch_def et_arrive_def Let_def)
qed

end
