(* ===== verification/Connection_Service.thy ===== *)
theory Connection_Service
  imports KV_Client Tcp_Connection
begin

text \<open>
  The server's callbacks on a connection: how \<open>KVServer\<close> (\<open>src/server/kv_server.cpp\<close>) is driven by
  \<open>TcpConnection\<close>, with the callbacks that \<open>TcpServer::newConnection\<close> installs.  The effects of the message
  callback are \<open>send\<close> and \<open>shutdown\<close> on the connection that called it; they touch neither the input buffer nor
  the store, so running them after the callback's loop is running them inside it.
\<close>

subsection \<open>Driving the server\<close>

definition tcp_callbacks :: "conn \<Rightarrow> conn" where
  "tcp_callbacks c = c\<lparr>hasConnectionCb := True, hasMessageCb := True, hasCloseCallback := True\<rparr>"

text \<open>The \<open>i\<close>-th direct write of a callback has the result \<open>w i\<close>.\<close>

fun effect_events :: "(nat \<Rightarrow> int + nat) \<Rightarrow> effect list \<Rightarrow> cevent list" where
  "effect_events w [] = []"
| "effect_events w (Send s # es) = EvSend s (w 0) # effect_events (\<lambda>i. w (Suc i)) es"
| "effect_events w (Shutdown # es) = EvShutdown # effect_events w es"

definition service_open :: "'k epoll_ctl \<Rightarrow> nat \<Rightarrow> int \<Rightarrow> (nat \<Rightarrow> int + nat) \<Rightarrow> 'k poller \<Rightarrow> 'k cresult" where
  "service_open ctl a sock w p = do {
     (c1, p1, es1) \<leftarrow> connectEstablished ctl (tcp_callbacks (conn_new a sock)) p;
     (c2, p2, es2) \<leftarrow> conn_run ctl (effect_events w (if ConnectionCallback True \<in> set es1 then onConnection True else [])) c1 p1;
     Some (c2, p2, es1 @ es2) }"

text \<open>The bytes \<open>d\<close> arrive, or the socket becomes writable.\<close>

datatype svc_event = Bytes string "nat \<Rightarrow> int + nat" | Writable "int + nat"

fun service_step :: "'k epoll_ctl \<Rightarrow> svc_event \<Rightarrow> conn \<times> 'k poller \<times> kvstore \<Rightarrow>
    (conn \<times> 'k poller \<times> kvstore \<times> ceffect list) option" where
  "service_step ctl (Bytes d w) (c, p, st) = do {
     (c1, p1, es1) \<leftarrow> handleRead ctl (deliver (readCapacity (inputBuffer c)) (Inr d)) c p;
     (if MessageCallback \<in> set es1 then do {
        (b, st', effs) \<leftarrow> onMessage (inputBuffer c1) st;
        (c2, p2, es2) \<leftarrow> conn_run ctl (effect_events w effs) (c1\<lparr>inputBuffer := b\<rparr>) p1;
        Some (c2, p2, st', es1 @ es2) }
      else Some (c1, p1, st, es1)) }"
| "service_step ctl (Writable w) (c, p, st) = do {
     (c1, p1, es1) \<leftarrow> conn_step ctl (EvWritable w) c p;
     Some (c1, p1, st, es1) }"

fun service_run :: "'k epoll_ctl \<Rightarrow> svc_event list \<Rightarrow> conn \<times> 'k poller \<times> kvstore \<Rightarrow>
    (conn \<times> 'k poller \<times> kvstore \<times> ceffect list) option" where
  "service_run ctl [] (c, p, st) = Some (c, p, st, [])"
| "service_run ctl (e # evs) s = do {
     (c1, p1, st1, es1) \<leftarrow> service_step ctl e s;
     (c2, p2, st2, es2) \<leftarrow> service_run ctl evs (c1, p1, st1);
     Some (c2, p2, st2, es1 @ es2) }"

fun bytesOf :: "svc_event list \<Rightarrow> string" where
  "bytesOf [] = []"
| "bytesOf (Bytes d w # evs) = d @ bytesOf evs"
| "bytesOf (Writable w # evs) = bytesOf evs"

text \<open>Segments fit one read, end of file does not come, and no write finds the peer gone.\<close>

fun orderly :: "svc_event \<Rightarrow> bool" where
  "orderly (Bytes d w) \<longleftrightarrow> d \<noteq> [] \<and> length d \<le> kExtraBuf \<and> (\<forall>i. peerAlive (EvSend [] (w i)))"
| "orderly (Writable w) \<longleftrightarrow> True"

subsection \<open>Sends leave the input alone\<close>

lemma on_chan_frame: "on_chan f c p = Some (c', p') \<Longrightarrow> inputBuffer c' = inputBuffer c \<and> hasMessageCb c' = hasMessageCb c"
  by (auto simp: on_chan_def)

lemma sendInLoop_frame:
  "sendInLoop ctl w m c p = Some (c', p', es) \<Longrightarrow> inputBuffer c' = inputBuffer c \<and> hasMessageCb c' = hasMessageCb c"
  by (auto simp: sendInLoop_def Let_def split: if_splits dest: on_chan_frame)

lemma handleWrite_frame:
  "handleWrite ctl w c p = Some (c', p', es) \<Longrightarrow> inputBuffer c' = inputBuffer c \<and> hasMessageCb c' = hasMessageCb c"
  by (auto simp: handleWrite_def Let_def split: if_splits prod.splits dest: on_chan_frame)

lemma effects_frame:
  "conn_run ctl (effect_events w effs) c p = Some (c', p', es) \<Longrightarrow> inputBuffer c' = inputBuffer c \<and> hasMessageCb c' = hasMessageCb c"
proof (induction w effs arbitrary: c p es rule: effect_events.induct)
  case (2 w s effs)
  from "2.prems" obtain c1 p1 es1 es2 where s1: "conn_send ctl True (offer (length s) (w 0)) s c p = Some (c1, p1, es1)"
    and r: "conn_run ctl (effect_events (\<lambda>i. w (Suc i)) effs) c1 p1 = Some (c', p', es2)"
    by (auto split: Option.bind_splits)
  from s1 have "inputBuffer c1 = inputBuffer c \<and> hasMessageCb c1 = hasMessageCb c"
    by (cases "cstate c = kConnected") (simp_all add: conn_send_def sendInLoop_frame)
  with "2.IH" [OF r] show ?case by simp
next
  case (3 w effs)
  then show ?case by (auto simp: conn_shutdown_def Let_def split: Option.bind_splits if_splits prod.splits)
qed simp

lemma effects_alive: "\<forall>i. peerAlive (EvSend [] (w i)) \<Longrightarrow> \<forall>e \<in> set (effect_events w effs). peerAlive e"
proof (induction w effs rule: effect_events.induct)
  case (2 w s effs)
  moreover have "peerAlive (EvSend s (w 0))" using 2(2) by (cases "w 0") (auto dest: spec [of _ 0])
  ultimately show ?case by simp
qed simp_all

lemma effects_sent:
  assumes "Shutdown \<notin> set effs"
  shows "sentBytes kConnected (effect_events w effs) = concat (sends effs)"
    and "fold (\<lambda>e st. nextState st e) (effect_events w effs) kConnected = kConnected"
  using assms by (induction w effs rule: effect_events.induct) simp_all

lemma sends_append: "sends (es @ es') = sends es @ sends es'"
  by (induction es rule: sends.induct) simp_all

text \<open>An open connection that is being served.\<close>

definition served :: "('k \<Rightarrow> int \<Rightarrow> (32 word \<times> nat) option) \<Rightarrow> conn \<Rightarrow> 'k poller \<Rightarrow> kvstore \<Rightarrow> bool" where
  "served view c p st \<longleftrightarrow> conn_ok view c p \<and> cstate c = kConnected \<and> hasMessageCb c \<and> kv_inv st"

context epoll_kernel
begin

text \<open>What runs the effects of a callback on an open connection.\<close>

lemma effects_run:
  assumes "conn_ok view c p" "cstate c = kConnected" "\<forall>i. peerAlive (EvSend [] (w i))" "Shutdown \<notin> set effs"
  shows "\<exists>c' p' es. conn_run ctl (effect_events w effs) c p = Some (c', p', es) \<and> conn_ok view c' p' \<and>
    cstate c' = kConnected \<and> inputBuffer c' = inputBuffer c \<and> hasMessageCb c' = hasMessageCb c \<and>
    wrote es @ content (outputBuffer c') = content (outputBuffer c) @ concat (sends effs)"
proof -
  have "cstate c \<noteq> kConnecting" using assms(2) by simp
  from conn_run_ok [OF assms(1) effects_alive [OF assms(3), of effs] this] obtain c' p' es where
    r: "conn_run ctl (effect_events w effs) c p = Some (c', p', es)" "conn_ok view c' p'"
      "cstate c' = fold (\<lambda>e st. nextState st e) (effect_events w effs) (cstate c)"
      "wrote es @ content (outputBuffer c') = content (outputBuffer c) @ sentBytes (cstate c) (effect_events w effs)"
    by blast
  with effects_sent [OF assms(4), of w] assms(2) effects_frame [OF r(1)] show ?thesis by auto
qed

text \<open>A segment that fits one read reaches the input buffer.\<close>

lemma read_delivers:
  assumes "conn_ok view c p" "hasMessageCb c" "d \<noteq> []" "length d \<le> kExtraBuf"
  obtains b where "handleRead ctl (deliver (readCapacity (inputBuffer c)) (Inr d)) c p = Some (c\<lparr>inputBuffer := b\<rparr>, p, [MessageCallback])"
    "buf_inv b" "content b = content (inputBuffer c) @ d"
proof -
  have inv: "buf_inv (inputBuffer c)" using assms(1) by (simp add: conn_ok_def)
  have cap: "length d \<le> readCapacity (inputBuffer c)" using assms(4) by (simp add: readCapacity_def)
  obtain b where b: "readFd (Inr d) (inputBuffer c) = (b, int (length d), None)" "buf_inv b" "content b = content (inputBuffer c) @ d"
    using readFd_ok [OF inv cap] by blast
  have "handleRead ctl (deliver (readCapacity (inputBuffer c)) (Inr d)) c p = Some (c\<lparr>inputBuffer := b\<rparr>, p, [MessageCallback])"
    using cap assms(2,3) b(1) by (simp add: handleRead_def deliver_def)
  with b(2,3) show thesis by (rule that [rotated])
qed

text \<open>What comes of a new connection.\<close>

lemma established_ok:
  assumes "view (kernel p) sock = None"
  obtains c1 p1 where "connectEstablished ctl (tcp_callbacks (conn_new a sock)) p = Some (c1, p1, [ConnectionCallback True])"
    "conn_ok view c1 p1" "cstate c1 = kConnected" "hasMessageCb c1" "content (inputBuffer c1) = []" "content (outputBuffer c1) = []"
proof -
  let ?c = "(tcp_callbacks (conn_new a sock))\<lparr>cstate := kConnected, chan := chan_tie (chan (conn_new a sock))\<rparr>"
  have "chan_ok view (chan ?c) p"
    using assms by (simp add: chan_ok_def conn_new_def chan_tie_def setCallbacks_def channel_new_def index_defs)
  from on_chan_ok [OF this, of EnableReading] obtain ch p1 where
    ch: "on_chan (enableReading ctl) ?c p = Some (?c\<lparr>chan := ch\<rparr>, p1)" "chan_ok view ch p1"
    "events ch = events (chan ?c) OR kReadEvent" by auto
  have e: "connectEstablished ctl (tcp_callbacks (conn_new a sock)) p = Some (?c\<lparr>chan := ch\<rparr>, p1, [ConnectionCallback True])"
    using ch(1) by (simp add: connectEstablished_def tcp_callbacks_def conn_new_def)
  show thesis
    by (rule that [OF e]) (use ch(2,3) in \<open>auto simp: conn_ok_def isWriting_def conn_new_def chan_tie_def setCallbacks_def
      channel_new_def tcp_callbacks_def\<close>)
qed

text \<open>One event of a served connection.\<close>

lemma service_step_bytes:
  assumes s: "served view c p st" and e: "orderly (Bytes d w)"
    and sv: "serve (content (inputBuffer c) @ d) (kv_map st) = (r, m, effs)" "Shutdown \<notin> set effs"
  shows "\<exists>c' p' st' es. service_step ctl (Bytes d w) (c, p, st) = Some (c', p', st', es) \<and> served view c' p' st' \<and>
    content (inputBuffer c') = r \<and> kv_map st' = m \<and>
    wrote es @ content (outputBuffer c') = content (outputBuffer c) @ concat (sends effs)"
proof -
  have ok: "conn_ok view c p" "cstate c = kConnected" "hasMessageCb c" "kv_inv st" using s by (simp_all add: served_def)
  have d: "d \<noteq> []" "length d \<le> kExtraBuf" "\<forall>i. peerAlive (EvSend [] (w i))" using e by simp_all
  obtain b where rd: "handleRead ctl (deliver (readCapacity (inputBuffer c)) (Inr d)) c p = Some (c\<lparr>inputBuffer := b\<rparr>, p, [MessageCallback])"
    and b: "buf_inv b" "content b = content (inputBuffer c) @ d" using read_delivers [OF ok(1,3) d(1,2)] by blast
  obtain b' st' where m: "onMessage b st = Some (b', st', effs)" "buf_inv b'" "kv_inv st'" "content b' = r" "kv_map st' = m"
    using onMessage_spec [OF b(1) ok(4)] sv(1) by (auto simp: b(2))
  have "conn_ok view (c\<lparr>inputBuffer := b'\<rparr>) p" "cstate (c\<lparr>inputBuffer := b'\<rparr>) = kConnected"
    using ok m(2) by (simp_all add: conn_ok_def)
  from effects_run [OF this d(3) sv(2)] obtain c' p' es where
    "conn_run ctl (effect_events w effs) (c\<lparr>inputBuffer := b'\<rparr>) p = Some (c', p', es)" "conn_ok view c' p'"
    "cstate c' = kConnected" "inputBuffer c' = b'" "hasMessageCb c'"
    "wrote es @ content (outputBuffer c') = content (outputBuffer c) @ concat (sends effs)" using ok(3) by auto
  with rd m show ?thesis by (simp add: served_def)
qed

lemma service_step_writable:
  assumes "served view c p st"
  shows "\<exists>c' p' es. service_step ctl (Writable w) (c, p, st) = Some (c', p', st, es) \<and> served view c' p' st \<and>
    inputBuffer c' = inputBuffer c \<and> wrote es @ content (outputBuffer c') = content (outputBuffer c)"
proof -
  have ok: "conn_ok view c p" "cstate c = kConnected" "cstate c \<noteq> kDisconnected" "hasMessageCb c" "kv_inv st"
    using assms by (simp_all add: served_def)
  from handleWrite_ok [OF ok(1,3) refl, of w] obtain c' p' es where
    w: "handleWrite ctl (offer (readableBytes (outputBuffer c)) w) c p = Some (c', p', es)" "conn_ok view c' p'"
      "cstate c' = cstate c" "wrote es @ content (outputBuffer c') = content (outputBuffer c)" by blast
  with handleWrite_frame [OF w(1)] ok show ?thesis by (simp add: served_def)
qed

lemma service_run_ok:
  assumes "served view c p st" "LF \<notin> set (content (inputBuffer c))" "\<forall>e \<in> set evs. orderly e"
    and "serve (content (inputBuffer c) @ bytesOf evs) (kv_map st) = (r, m, effs)" "Shutdown \<notin> set effs"
  shows "\<exists>c' p' st' es. service_run ctl evs (c, p, st) = Some (c', p', st', es) \<and> served view c' p' st' \<and>
    content (inputBuffer c') = r \<and> kv_map st' = m \<and>
    wrote es @ content (outputBuffer c') = content (outputBuffer c) @ concat (sends effs)"
  using assms
proof (induction evs arbitrary: c p st effs)
  case Nil
  then show ?case by (simp add: serve_stop)
next
  case (Cons e evs)
  show ?case
  proof (cases e)
    case (Writable w)
    obtain c1 p1 es1 where s: "service_step ctl e (c, p, st) = Some (c1, p1, st, es1)" "served view c1 p1 st"
      "inputBuffer c1 = inputBuffer c" "wrote es1 @ content (outputBuffer c1) = content (outputBuffer c)"
      using service_step_writable [OF Cons.prems(1), of w] Writable by blast
    have "serve (content (inputBuffer c1) @ bytesOf evs) (kv_map st) = (r, m, effs)" using Cons.prems(4) s(3) Writable by simp
    from Cons.IH [OF s(2) _ _ this Cons.prems(5)] Cons.prems(2,3) s(3) obtain c2 p2 st2 es2 where
      t: "service_run ctl evs (c1, p1, st) = Some (c2, p2, st2, es2)" "served view c2 p2 st2"
        "content (inputBuffer c2) = r" "kv_map st2 = m"
        "wrote es2 @ content (outputBuffer c2) = content (outputBuffer c1) @ concat (sends effs)" by auto
    have "wrote (es1 @ es2) @ content (outputBuffer c2) = (wrote es1 @ content (outputBuffer c1)) @ concat (sends effs)"
      using t(5) by simp
    with s(1,4) t(1-4) show ?thesis by simp
  next
    case (Bytes d w)
    obtain r1 m1 effs1 where sv1: "serve (content (inputBuffer c) @ d) (kv_map st) = (r1, m1, effs1)"
      by (cases "serve (content (inputBuffer c) @ d) (kv_map st)")
    obtain r2 m2 effs2 where sv2: "serve (r1 @ bytesOf evs) m1 = (r2, m2, effs2)" by (cases "serve (r1 @ bytesOf evs) m1")
    have eq: "effs = effs1 @ effs2" "r2 = r" "m2 = m" "Shutdown \<notin> set effs1" "Shutdown \<notin> set effs2"
      using serve_append [OF sv1, of "bytesOf evs"] sv2 Cons.prems(4,5) Bytes by (auto split: if_splits)
    have "orderly (Bytes d w)" using Cons.prems(3) Bytes by simp
    from service_step_bytes [OF Cons.prems(1) this sv1 eq(4)] obtain c1 p1 st1 es1 where
      s: "service_step ctl e (c, p, st) = Some (c1, p1, st1, es1)" "served view c1 p1 st1" "content (inputBuffer c1) = r1"
        "kv_map st1 = m1" "wrote es1 @ content (outputBuffer c1) = content (outputBuffer c) @ concat (sends effs1)"
      unfolding Bytes by blast
    have "LF \<notin> set (content (inputBuffer c1))" unfolding s(3) by (rule serve_rest [OF sv1 eq(4)])
    from Cons.IH [OF s(2) this _ _ eq(5)] Cons.prems(3) sv2 s(3,4) eq(2,3) obtain c2 p2 st2 es2 where
      t: "service_run ctl evs (c1, p1, st1) = Some (c2, p2, st2, es2)" "served view c2 p2 st2"
        "content (inputBuffer c2) = r" "kv_map st2 = m"
        "wrote es2 @ content (outputBuffer c2) = content (outputBuffer c1) @ concat (sends effs2)" by auto
    have "wrote (es1 @ es2) @ content (outputBuffer c2) = (wrote es1 @ content (outputBuffer c1)) @ concat (sends effs2)"
      using t(5) by simp
    also have "\<dots> = content (outputBuffer c) @ concat (sends effs)" unfolding s(5) eq(1) sends_append by simp
    finally show ?thesis using s(1) t(1-4) by simp
  qed
qed

lemma service_open_ok:
  assumes "view (kernel p) sock = None" "\<forall>i. peerAlive (EvSend [] (w i))" "kv_inv st"
  shows "\<exists>c p' es. service_open ctl a sock w p = Some (c, p', es) \<and> served view c p' st \<and> content (inputBuffer c) = [] \<and>
    wrote es @ content (outputBuffer c) = welcomeText"
proof -
  obtain c1 p1 where c: "connectEstablished ctl (tcp_callbacks (conn_new a sock)) p = Some (c1, p1, [ConnectionCallback True])"
    "conn_ok view c1 p1" "cstate c1 = kConnected" "hasMessageCb c1" "content (inputBuffer c1) = []" "content (outputBuffer c1) = []"
    using established_ok [of p sock a] assms(1) by blast
  from effects_run [OF c(2,3) assms(2), of "onConnection True"] obtain c' p' es where
    "conn_run ctl (effect_events w (onConnection True)) c1 p1 = Some (c', p', es)" "conn_ok view c' p'"
    "cstate c' = kConnected" "inputBuffer c' = inputBuffer c1" "hasMessageCb c' = hasMessageCb c1"
    "wrote es @ content (outputBuffer c') = welcomeText" using c(6) by (auto simp: onConnection_def)
  with c assms(3) show ?thesis by (simp add: service_open_def served_def)
qed

end

subsection \<open>Properties\<close>

text \<open>
  A client's whole experience of a connection: whatever the sizes of the segments and of the direct and
  later writes, the bytes the kernel has taken followed by the bytes still queued are the welcome line
  followed by the responses that serving the client's byte stream line by line on a finite map gives, and
  the store ends in that map.
\<close>

lemma service_over_connection:
  assumes "kernel p sock = None" "kv_inv st" "\<forall>i. peerAlive (EvSend [] (w i))" "\<forall>e \<in> set evs. orderly e"
    and "serve (bytesOf evs) (kv_map st) = (r, m, effs)" "Shutdown \<notin> set effs"
  shows "\<exists>c1 p1 es1 c2 p2 st' es2. service_open interest_ctl a sock w p = Some (c1, p1, es1) \<and>
    service_run interest_ctl evs (c1, p1, st) = Some (c2, p2, st', es2) \<and>
    wrote (es1 @ es2) @ content (outputBuffer c2) = welcomeText @ concat (sends effs) \<and>
    content (inputBuffer c2) = r \<and> kv_map st' = m \<and> kv_inv st' \<and> cstate c2 = kConnected"
proof -
  obtain c1 p1 es1 where o: "service_open interest_ctl a sock w p = Some (c1, p1, es1)" "served (\<lambda>k. k) c1 p1 st"
    "content (inputBuffer c1) = []" "wrote es1 @ content (outputBuffer c1) = welcomeText"
    using ep.service_open_ok [OF assms(1,3,2), of a] by blast
  have "LF \<notin> set (content (inputBuffer c1))" "serve (content (inputBuffer c1) @ bytesOf evs) (kv_map st) = (r, m, effs)"
    using o(3) assms(5) by simp_all
  from ep.service_run_ok [OF o(2) this(1) assms(4) this(2) assms(6)] obtain c2 p2 st' es2 where
    r: "service_run interest_ctl evs (c1, p1, st) = Some (c2, p2, st', es2)" "served (\<lambda>k. k) c2 p2 st'"
      "content (inputBuffer c2) = r" "kv_map st' = m"
      "wrote es2 @ content (outputBuffer c2) = content (outputBuffer c1) @ concat (sends effs)" by blast
  have "wrote (es1 @ es2) @ content (outputBuffer c2) = (wrote es1 @ content (outputBuffer c1)) @ concat (sends effs)"
    using r(5) by simp
  with o(1,4) r(1-4) show ?thesis by (auto simp: served_def)
qed

end
