(* ===== verification/Inet_Address.thy ===== *)
theory Inet_Address
  imports Net_Buffer
begin

text \<open>
  \<open>InetAddress\<close> (\<open>src/net/inet_address.h\<close> and \<open>.cpp\<close>): an IPv4 address and a port, as text and as the
  stored words.  \<open>sin_addr\<close> is the address read in network order, so \<open>htonl\<close> does not show; the port
  is the word as it is stored on a little-endian machine.  Host name resolution is a parameter.
\<close>

unbundle bit_operations_syntax

subsection \<open>The library's conversions\<close>

definition htons :: "16 word \<Rightarrow> 16 word" where
  "htons w = push_bit 8 w OR drop_bit 8 w"

definition ntohs :: "16 word \<Rightarrow> 16 word" where
  "ntohs w = push_bit 8 w OR drop_bit 8 w"

definition octets :: "32 word \<Rightarrow> nat list" where
  "octets a = map of_char (be32 a)"

fun join_with :: "string \<Rightarrow> string list \<Rightarrow> string" where
  "join_with sep [] = []"
| "join_with sep [s] = s"
| "join_with sep (s # t # ss) = s @ sep @ join_with sep (t # ss)"

fun split_on :: "char \<Rightarrow> string \<Rightarrow> string list" where
  "split_on c [] = [[]]"
| "split_on c (x # xs) =
     (case split_on c xs of
        [] \<Rightarrow> [[x]]
      | p # ps \<Rightarrow> if x = c then [] # p # ps else (x # p) # ps)"

definition inet_ntop :: "32 word \<Rightarrow> string" where
  "inet_ntop a = join_with ''.'' (map digits10 (octets a))"

text \<open>A decimal octet: digits, no leading zero, at most 255.\<close>

definition parse_octet :: "string \<Rightarrow> nat option" where
  "parse_octet s =
     (let n = foldl (\<lambda>acc c. acc * 10 + digitVal c) 0 s in
      if s \<noteq> [] \<and> list_all isdigit s \<and> (hd s = CHR ''0'' \<longrightarrow> length s = 1) \<and> n \<le> 255 then Some n else None)"

definition inet_pton :: "string \<Rightarrow> 32 word option" where
  "inet_pton s =
     (let os = map parse_octet (split_on (CHR ''.'') s) in
      if length os = 4 \<and> None \<notin> set os then Some (be32toh (map (char_of \<circ> the) os)) else None)"

text \<open>The C string of a \<open>std::string\<close>: it ends at the first zero byte.\<close>

definition c_str :: "string \<Rightarrow> string" where
  "c_str s = takeWhile (\<lambda>c. c \<noteq> CHR 0x00) s"

subsection \<open>Addresses\<close>

record inet_address =
  sin_addr :: "32 word"
  sin_port :: "16 word"

definition INADDR_ANY :: "32 word" where "INADDR_ANY = 0"
definition INADDR_LOOPBACK :: "32 word" where "INADDR_LOOPBACK = 0x7f000001"

definition inet_of_port :: "16 word \<Rightarrow> bool \<Rightarrow> inet_address" where
  "inet_of_port port loopbackOnly =
     \<lparr>sin_addr = (if loopbackOnly then INADDR_LOOPBACK else INADDR_ANY), sin_port = htons port\<rparr>"

definition inet_of_ip :: "string \<Rightarrow> 16 word \<Rightarrow> inet_address" where
  "inet_of_ip ip port =
     \<lparr>sin_addr = (case inet_pton (c_str ip) of Some a \<Rightarrow> a | None \<Rightarrow> INADDR_ANY), sin_port = htons port\<rparr>"

definition toIp :: "inet_address \<Rightarrow> string" where
  "toIp a = inet_ntop (sin_addr a)"

definition inet_port :: "inet_address \<Rightarrow> 16 word" where
  "inet_port a = ntohs (sin_port a)"

definition toIpPort :: "inet_address \<Rightarrow> string" where
  "toIpPort a = take 63 (inet_ntop (sin_addr a) @ '':'' @ digits10 (unat (ntohs (sin_port a))))"

text \<open>\<open>resolve\<close>: \<open>lookup\<close> is \<open>getaddrinfo\<close>; only the address of the result is changed.\<close>

definition inet_resolve :: "(string \<Rightarrow> 32 word option) \<Rightarrow> string \<Rightarrow> inet_address \<Rightarrow> bool \<times> inet_address" where
  "inet_resolve lookup hostname result =
     (case lookup hostname of None \<Rightarrow> (False, result) | Some a \<Rightarrow> (True, result\<lparr>sin_addr := a\<rparr>))"

subsection \<open>Round trips\<close>

lemma ntohs_htons: "ntohs (htons w) = w"
  by (rule bit_word_eqI) (auto simp: ntohs_def htons_def bit_simps)

lemma split_on_ne: "split_on c s \<noteq> []"
  by (induction s) (auto split: list.splits)

lemma split_on_none: "c \<notin> set s \<Longrightarrow> split_on c s = [s]"
  by (induction s) auto

lemma split_on_append: "c \<notin> set s \<Longrightarrow> split_on c (s @ c # t) = s # split_on c t"
proof (induction s)
  case Nil
  then show ?case using split_on_ne [of c t] by (auto split: list.splits)
next
  case (Cons x s)
  then show ?case using split_on_ne [of c t] by (auto split: list.splits)
qed

lemma split_join:
  "ss \<noteq> [] \<Longrightarrow> \<forall>s \<in> set ss. c \<notin> set s \<Longrightarrow> split_on c (join_with [c] ss) = ss"
  by (induction "[c]" ss rule: join_with.induct) (simp_all add: split_on_none split_on_append)

lemma hd_digits10: "0 < n \<Longrightarrow> hd (digits10 n) \<noteq> CHR ''0''"
proof (induction n rule: digits10.induct)
  case (1 n)
  show ?case
  proof (cases "n < 10")
    case True
    have "digit n \<noteq> CHR ''0''"
    proof
      assume "digit n = CHR ''0''"
      then have "digitVal (digit n) = 0" by (simp add: digitVal_def)
      with True "1.prems" show False by simp
    qed
    with True show ?thesis by (simp add: digits10.simps [of n])
  next
    case False
    then have "hd (digits10 (n div 10)) \<noteq> CHR ''0''" using 1 by simp
    with False show ?thesis by (simp add: digits10.simps [of n])
  qed
qed

lemma parse_digits10: "n \<le> 255 \<Longrightarrow> parse_octet (digits10 n) = Some n"
  using hd_digits10 [of n] digits10_isdigit [of _ n]
  by (cases "n = 0") (auto simp: parse_octet_def digits10_value list_all_iff digits10.simps [of 0])

lemma octet_le: "n \<in> set (octets a) \<Longrightarrow> n \<le> 255"
proof -
  assume "n \<in> set (octets a)"
  then obtain c :: char where c: "n = of_char c" by (auto simp: octets_def)
  have "of_char c < (256::nat)" by (rule nat_of_char_less_256)
  then show ?thesis unfolding c by linarith
qed

lemma length_octets: "length (octets a) = 4"
  by (simp add: octets_def)

lemma inet_roundtrip: "inet_pton (inet_ntop a) = Some a"
proof -
  have "CHR ''.'' \<notin> set s" if "s \<in> set (map digits10 (octets a))" for s
    using that digits10_isdigit by (force simp: isdigit_def)
  then have sp: "split_on (CHR ''.'') (inet_ntop a) = map digits10 (octets a)"
    unfolding inet_ntop_def using length_octets [of a] by (intro split_join) auto
  have m: "map parse_octet (map digits10 (octets a)) = map Some (octets a)"
    using octet_le [of _ a] by (simp add: parse_digits10)
  moreover have "map (char_of \<circ> the) (map Some (octets a)) = be32 a"
    by (simp add: octets_def comp_def)
  ultimately show ?thesis unfolding inet_pton_def sp m Let_def
    by (simp only: length_map length_octets be32toh_be32) auto
qed

lemma inet_ntop_shape:
  obtains p q r s where "inet_ntop a = digits10 p @ ''.'' @ digits10 q @ ''.'' @ digits10 r @ ''.'' @ digits10 s"
    and "p \<le> 255" and "q \<le> 255" and "r \<le> 255" and "s \<le> 255"
proof -
  from length_octets [of a] obtain p q r s where o: "octets a = [p, q, r, s]"
    by (auto simp: numeral_eq_Suc length_Suc_conv)
  show thesis
    by (rule that [of p q r s]) (use o octet_le [of _ a] in \<open>simp_all add: inet_ntop_def\<close>)
qed

lemma c_str_inet_ntop: "c_str (inet_ntop a) = inet_ntop a"
proof -
  obtain p q r s where s: "inet_ntop a = digits10 p @ ''.'' @ digits10 q @ ''.'' @ digits10 r @ ''.'' @ digits10 s"
    by (rule inet_ntop_shape)
  have "\<not> isdigit (CHR 0x00)" by (simp add: isdigit_def)
  then have "CHR 0x00 \<notin> set (inet_ntop a)" using digits10_isdigit by (auto simp: s)
  then show ?thesis by (auto simp: c_str_def takeWhile_eq_all_conv)
qed

lemma length_inet_ntop: "length (inet_ntop a) \<le> 15"
proof -
  obtain p q r s where s: "inet_ntop a = digits10 p @ ''.'' @ digits10 q @ ''.'' @ digits10 r @ ''.'' @ digits10 s"
    and b: "p \<le> 255" "q \<le> 255" "r \<le> 255" "s \<le> 255"
    by (rule inet_ntop_shape)
  have d: "length (digits10 n) \<le> 3" if "n \<le> 255" for n :: nat
    using digits10_length [of n 2] that by simp
  show ?thesis using d [OF b(1)] d [OF b(2)] d [OF b(3)] d [OF b(4)] by (simp add: s)
qed

lemma toIpPort_eq: "toIpPort a = toIp a @ '':'' @ digits10 (unat (inet_port a))"
proof -
  have "unat (inet_port a) < 65536" using unsigned_less [of "inet_port a"] by simp
  then have "length (digits10 (unat (inet_port a))) \<le> 5"
    using digits10_length [of "unat (inet_port a)" 4] by simp
  then show ?thesis using length_inet_ntop [of "sin_addr a"]
    by (simp add: toIpPort_def toIp_def inet_port_def)
qed

lemma length_toIpPort: "length (toIpPort a) \<le> 21"
proof -
  have "unat (inet_port a) < 65536" using unsigned_less [of "inet_port a"] by simp
  then have "length (digits10 (unat (inet_port a))) \<le> 5"
    using digits10_length [of "unat (inet_port a)" 4] by simp
  then show ?thesis using length_inet_ntop [of "sin_addr a"] by (simp add: toIpPort_eq toIp_def)
qed

subsection \<open>Properties\<close>

text \<open>
  C37: an address survives its own text: building an \<open>InetAddress\<close> from what \<open>toIp\<close> and \<open>port\<close> return
  gives the same address, whatever it was, and \<open>toIpPort\<close> is never cut by its buffer.
\<close>

theorem inet_address_roundtrip:
  "inet_of_ip (toIp a) (inet_port a) = \<lparr>sin_addr = sin_addr a, sin_port = sin_port a\<rparr> \<and>
    toIpPort a = toIp a @ '':'' @ digits10 (unat (inet_port a))"
proof -
  have "htons (ntohs w) = w" for w by (rule bit_word_eqI) (auto simp: ntohs_def htons_def bit_simps)
  then show ?thesis
    by (simp add: inet_of_ip_def toIp_def inet_port_def c_str_inet_ntop inet_roundtrip toIpPort_eq)
qed

end
