(* ===== verification/Tcp_Server.thy ===== *)
theory Tcp_Server
  imports Inet_Address Tcp_Connection Ordered_Map "HOL-Library.List_Lexorder" "HOL-Library.Char_ord"
begin

text \<open>
  \<open>TcpServer\<close> (\<open>src/net/tcp_server.h\<close>, \<open>tcp_server.cpp\<close>) with the two parts it owns: the \<open>Acceptor\<close>
  (\<open>acceptor.cpp\<close>, with \<open>Socket::accept\<close> of \<open>socket.cpp\<close>) and the \<open>EventLoopThreadPool\<close>
  (\<open>eventloop_thread_pool.cpp\<close>).  A loop is named by its address.  What an operation hands to a loop
  (\<open>runInLoop\<close>, \<open>queueInLoop\<close>) is returned as a list of effects in order; the loop is the subject of
  \<open>Event_Loop\<close> and what \<open>connectEstablished\<close> and \<open>connectDestroyed\<close> do there of \<open>Tcp_Connection\<close>.
\<close>

subsection \<open>The pool of loops\<close>

record loop_pool =
  baseLoop :: nat
  poolName :: string
  poolStarted :: bool
  numThreads :: int
  nextLoop :: nat
  threads :: "string list"
  loops :: "nat list"

definition lp_new :: "nat \<Rightarrow> string \<Rightarrow> loop_pool" where
  "lp_new base nm = \<lparr>baseLoop = base, poolName = nm, poolStarted = False, numThreads = 0, nextLoop = 0,
     threads = [], loops = []\<rparr>"

definition lp_setThreadNum :: "int \<Rightarrow> loop_pool \<Rightarrow> loop_pool" where
  "lp_setThreadNum n p = p\<lparr>numThreads := n\<rparr>"

text \<open>
  \<open>start\<close>: \<open>mk i\<close> is the loop that \<open>startLoop\<close> of the thread number \<open>i\<close> returns.  The second result is the
  loops the initialisation callback is called with; each thread calls it before its loop is returned.
\<close>

definition lp_thread :: "(nat \<Rightarrow> nat) \<Rightarrow> nat \<Rightarrow> loop_pool \<Rightarrow> loop_pool" where
  "lp_thread mk i p = p\<lparr>threads := threads p @ [poolName p @ to_string (int i)], loops := loops p @ [mk i]\<rparr>"

definition lp_start :: "(nat \<Rightarrow> nat) \<Rightarrow> bool \<Rightarrow> loop_pool \<Rightarrow> loop_pool \<times> nat list" where
  "lp_start mk hasCb p =
     (let p1 = fold (lp_thread mk) [0..<nat (numThreads p)] (p\<lparr>poolStarted := True\<rparr>) in
      (p1, if hasCb then map mk [0..<nat (numThreads p)] @ (if numThreads p = 0 then [baseLoop p] else []) else []))"

definition getNextLoop :: "loop_pool \<Rightarrow> nat \<times> loop_pool" where
  "getNextLoop p =
     (if loops p \<noteq> [] then (loops p ! nextLoop p, p\<lparr>nextLoop := (nextLoop p + 1) mod length (loops p)\<rparr>)
      else (baseLoop p, p))"

definition getAllLoops :: "loop_pool \<Rightarrow> nat list" where
  "getAllLoops p = (if loops p = [] then [baseLoop p] else loops p)"

subsection \<open>The acceptor\<close>

record acceptor =
  acceptChannel :: channel
  hasNewConnectionCb :: bool
  listening :: bool

datatype aeffect = NewConnection int inet_address | CloseFd int | AcceptFailed bool

definition EMFILE :: int where "EMFILE = 24"

definition acceptor_new :: "nat \<Rightarrow> int \<Rightarrow> acceptor" where
  "acceptor_new a fd' = \<lparr>acceptChannel = (channel_new a fd')\<lparr>hasReadCb := True\<rparr>, hasNewConnectionCb = False, listening = False\<rparr>"

text \<open>\<open>listenOk\<close> is whether \<open>listen(2)\<close> succeeds; if not the process aborts.\<close>

definition acceptor_listen :: "'k epoll_ctl \<Rightarrow> bool \<Rightarrow> acceptor \<Rightarrow> 'k poller \<Rightarrow> (acceptor \<times> 'k poller) option" where
  "acceptor_listen ctl listenOk a p =
     (if listenOk
      then map_option (\<lambda>(ch, p'). (a\<lparr>acceptChannel := ch, listening := True\<rparr>, p')) (enableReading ctl (acceptChannel a) p)
      else None)"

text \<open>\<open>Socket::accept\<close>: the result of \<open>accept4\<close> with the address, or \<open>errno\<close>.\<close>

definition socket_accept :: "int + int \<times> inet_address \<Rightarrow> inet_address \<Rightarrow> (int + int) \<times> inet_address" where
  "socket_accept r peer = (case r of Inl e \<Rightarrow> (Inl e, peer) | Inr (connfd, addr) \<Rightarrow> (Inr connfd, addr))"

definition acceptor_handleRead :: "int + int \<times> inet_address \<Rightarrow> acceptor \<Rightarrow> aeffect list" where
  "acceptor_handleRead r a =
     (case socket_accept r (inet_of_port 0 False) of
        (Inr connfd, peer) \<Rightarrow> if hasNewConnectionCb a then [NewConnection connfd peer] else [CloseFd connfd]
      | (Inl e, peer) \<Rightarrow> [AcceptFailed (e = EMFILE)])"

definition acceptor_dtor :: "'k epoll_ctl \<Rightarrow> acceptor \<Rightarrow> 'k poller \<Rightarrow> (channel \<times> 'k poller) option" where
  "acceptor_dtor ctl a p =
     Option.bind (disableAll ctl (acceptChannel a) p) (\<lambda>(ch, p'). chan_remove ctl ch p')"

subsection \<open>The server\<close>

text \<open>What the server keeps of a connection.\<close>

record tconn =
  connName :: string
  ioLoop :: nat
  sockfd :: int
  localAddr :: inet_address
  peerAddr :: inet_address

datatype action = Listen | ConnectEstablished tconn | ConnectDestroyed tconn | RemoveConnectionInLoop tconn

datatype seffect = RunInLoop nat action | QueueInLoop nat action

text \<open>\<open>connections_\<close> is a \<open>std::map\<close>: its pairs in increasing order of the name.\<close>

record server =
  baseOf :: nat
  ipPort :: string
  srvName :: string
  threadPool :: loop_pool
  started :: int
  nextConnId :: int
  connections :: "(string \<times> tconn) list"

definition tcp_new :: "nat \<Rightarrow> inet_address \<Rightarrow> string \<Rightarrow> server" where
  "tcp_new base listenAddr nm = \<lparr>baseOf = base, ipPort = toIpPort listenAddr, srvName = nm,
     threadPool = lp_new base nm, started = 0, nextConnId = 1, connections = []\<rparr>"

definition tcp_setThreadNum :: "int \<Rightarrow> server \<Rightarrow> server" where
  "tcp_setThreadNum n s = s\<lparr>threadPool := lp_setThreadNum n (threadPool s)\<rparr>"

definition tcp_start :: "(nat \<Rightarrow> nat) \<Rightarrow> bool \<Rightarrow> server \<Rightarrow> server \<times> nat list \<times> seffect list" where
  "tcp_start mk hasCb s =
     (let s1 = s\<lparr>started := started s + 1\<rparr> in
      if started s = 0 then
        (case lp_start mk hasCb (threadPool s1) of (p, inits) \<Rightarrow>
           (s1\<lparr>threadPool := p\<rparr>, inits, [RunInLoop (baseOf s) Listen]))
      else (s1, [], []))"

text \<open>\<open>snprintf\<close> into 64 bytes keeps 63 characters.\<close>

definition connNameOf :: "server \<Rightarrow> int \<Rightarrow> string" where
  "connNameOf s i = srvName s @ take 63 (''-'' @ ipPort s @ ''#'' @ to_string i)"

text \<open>\<open>newConnection\<close>: \<open>local\<close> is what \<open>getsockname\<close> returns; also the connection object it made.\<close>

definition newConnection :: "int \<Rightarrow> inet_address \<Rightarrow> inet_address \<Rightarrow> server \<Rightarrow> server \<times> tconn \<times> seffect list" where
  "newConnection fd' peer local s =
     (case getNextLoop (threadPool s) of (l, p) \<Rightarrow>
        let c = \<lparr>connName = connNameOf s (nextConnId s), ioLoop = l, sockfd = fd', localAddr = local, peerAddr = peer\<rparr>
        in (s\<lparr>threadPool := p, nextConnId := nextConnId s + 1,
              connections := alInsert (connName c) c (connections s)\<rparr>,
            c, [RunInLoop l (ConnectEstablished c)]))"

definition removeConnection :: "tconn \<Rightarrow> server \<Rightarrow> seffect list" where
  "removeConnection c s = [RunInLoop (baseOf s) (RemoveConnectionInLoop c)]"

definition removeConnectionInLoop :: "tconn \<Rightarrow> server \<Rightarrow> server \<times> seffect list" where
  "removeConnectionInLoop c s =
     (s\<lparr>connections := alDelete (connName c) (connections s)\<rparr>, [QueueInLoop (ioLoop c) (ConnectDestroyed c)])"

definition tcp_dtor :: "server \<Rightarrow> seffect list" where
  "tcp_dtor s = map (\<lambda>(nm, c). RunInLoop (ioLoop c) (ConnectDestroyed c)) (connections s)"

subsection \<open>What a server goes through\<close>

text \<open>
  Connections arrive, and the loop of the server runs \<open>removeConnectionInLoop\<close> for the connection with
  the given number.  The second component of the state is every connection made so far.
\<close>

datatype sevent = Arrives int inet_address inet_address | Closes nat

fun server_step :: "sevent \<Rightarrow> server \<times> tconn list \<Rightarrow> server \<times> tconn list" where
  "server_step (Arrives fd' peer local) (s, made) =
     (case newConnection fd' peer local s of (s', c, es) \<Rightarrow> (s', made @ [c]))"
| "server_step (Closes i) (s, made) =
     (if i < length made then (fst (removeConnectionInLoop (made ! i) s), made) else (s, made))"

definition server_run :: "sevent list \<Rightarrow> server \<Rightarrow> server \<times> tconn list" where
  "server_run es s = fold server_step es (s, [])"

text \<open>A server with \<open>n\<close> threads that has been started.\<close>

definition started_server :: "nat \<Rightarrow> inet_address \<Rightarrow> string \<Rightarrow> int \<Rightarrow> (nat \<Rightarrow> nat) \<Rightarrow> server" where
  "started_server base addr nm n mk = fst (tcp_start mk False (tcp_setThreadNum n (tcp_new base addr nm)))"

text \<open>The abstract view: how many connections were made, and which are open.\<close>

fun open_step :: "sevent \<Rightarrow> nat \<times> nat set \<Rightarrow> nat \<times> nat set" where
  "open_step (Arrives fd' peer local) (n, L) = (n + 1, insert n L)"
| "open_step (Closes i) (n, L) = (n, L - {i})"

definition openSet :: "sevent list \<Rightarrow> nat set" where
  "openSet es = snd (fold open_step es (0, {}))"

subsection \<open>Loops and names\<close>

lemma lp_start_loops:
  "fold (lp_thread mk) is p = p\<lparr>threads := threads p @ map (\<lambda>i. poolName p @ to_string (int i)) is,
     loops := loops p @ map mk is\<rparr>"
  by (induction "is" arbitrary: p) (simp_all add: lp_thread_def)

lemma started_server_eq: "started_server base addr nm n mk =
  \<lparr>baseOf = base, ipPort = toIpPort addr, srvName = nm,
    threadPool = \<lparr>baseLoop = base, poolName = nm, poolStarted = True, numThreads = n, nextLoop = 0,
      threads = map (\<lambda>i. nm @ to_string (int i)) [0..<nat n], loops = map mk [0..<nat n]\<rparr>,
    started = 1, nextConnId = 1, connections = []\<rparr>"
  by (simp add: started_server_def tcp_start_def tcp_setThreadNum_def tcp_new_def lp_new_def lp_setThreadNum_def
      lp_start_def lp_start_loops Let_def)

lemma connNameOf_eq:
  assumes "length (ipPort s) \<le> 21" "0 \<le> i" "i < 2 ^ 31"
  shows "connNameOf s i = srvName s @ ''-'' @ ipPort s @ ''#'' @ digits10 (nat i)"
proof -
  have "length (digits10 (nat i)) \<le> 10" using digits10_length [of "nat i" 9] assms by simp
  with assms show ?thesis by (simp add: connNameOf_def to_string_def)
qed

lemma connNameOf_inj:
  assumes "length (ipPort s) \<le> 21" "0 \<le> i" "i < 2 ^ 31" "0 \<le> j" "j < 2 ^ 31" "connNameOf s i = connNameOf s j"
  shows "i = j"
  using assms(6) digits10_inj [of "nat i" "nat j"] assms(2,4)
  unfolding connNameOf_eq [OF assms(1-3)] connNameOf_eq [OF assms(1,4,5)] by auto

text \<open>The loop of the connection number \<open>j\<close>.\<close>

definition loopOf :: "nat \<Rightarrow> (nat \<Rightarrow> nat) \<Rightarrow> int \<Rightarrow> nat \<Rightarrow> nat" where
  "loopOf base mk n j = (if n \<le> 0 then base else mk (j mod nat n))"

definition srv_inv :: "nat \<Rightarrow> inet_address \<Rightarrow> string \<Rightarrow> int \<Rightarrow> (nat \<Rightarrow> nat) \<Rightarrow> server \<times> tconn list \<Rightarrow> bool" where
  "srv_inv base addr nm n mk = (\<lambda>(s, made). ipPort s = toIpPort addr \<and> srvName s = nm \<and>
     nextConnId s = int (length made) + 1 \<and> baseLoop (threadPool s) = base \<and>
     loops (threadPool s) = map mk [0..<nat n] \<and> nextLoop (threadPool s) = (if n \<le> 0 then 0 else length made mod nat n) \<and>
     map connName made = map (\<lambda>j. connNameOf s (int j + 1)) [0..<length made] \<and>
     map ioLoop made = map (loopOf base mk n) [0..<length made])"

lemma srv_inv_start: "srv_inv base addr nm n mk (started_server base addr nm n mk, [])"
  by (simp add: srv_inv_def started_server_eq)

lemma getNextLoop_eq:
  assumes "loops p = map mk [0..<nat n]" "nextLoop p = (if n \<le> 0 then 0 else m mod nat n)" "baseLoop p = base"
  shows "\<exists>p'. getNextLoop p = (loopOf base mk n m, p') \<and> loops p' = loops p \<and> baseLoop p' = base \<and>
    nextLoop p' = (if n \<le> 0 then 0 else Suc m mod nat n)"
  using assms by (cases "n \<le> 0") (simp_all add: getNextLoop_def loopOf_def mod_Suc_eq)

lemma connNameOf_cong: "ipPort s' = ipPort s \<Longrightarrow> srvName s' = srvName s \<Longrightarrow> connNameOf s' = connNameOf s"
  by (rule ext) (simp add: connNameOf_def)

lemma srv_inv_arrives:
  assumes "srv_inv base addr nm n mk (s, made)"
  shows "\<exists>s' c. server_step (Arrives fd' peer local) (s, made) = (s', made @ [c]) \<and>
    srv_inv base addr nm n mk (s', made @ [c]) \<and> connections s' = alInsert (connName c) c (connections s)"
proof -
  have inv: "loops (threadPool s) = map mk [0..<nat n]" "baseLoop (threadPool s) = base"
    "nextLoop (threadPool s) = (if n \<le> 0 then 0 else length made mod nat n)"
    using assms by (simp_all add: srv_inv_def)
  from getNextLoop_eq [OF inv(1,3,2)] obtain p' where p': "getNextLoop (threadPool s) = (loopOf base mk n (length made), p')"
    "loops p' = loops (threadPool s)" "baseLoop p' = base"
    "nextLoop p' = (if n \<le> 0 then 0 else Suc (length made) mod nat n)" by blast
  define c where "c = \<lparr>connName = connNameOf s (nextConnId s), ioLoop = loopOf base mk n (length made), sockfd = fd',
    localAddr = local, peerAddr = peer\<rparr>"
  define s' where "s' = s\<lparr>threadPool := p', nextConnId := nextConnId s + 1,
    connections := alInsert (connName c) c (connections s)\<rparr>"
  have step: "server_step (Arrives fd' peer local) (s, made) = (s', made @ [c])"
    by (simp add: newConnection_def p' c_def s'_def Let_def)
  have nm: "connNameOf s' = connNameOf s" by (rule connNameOf_cong) (simp_all add: s'_def)
  have id: "nextConnId s = int (length made) + 1" using assms by (simp add: srv_inv_def)
  have names: "connName c = connNameOf s (int (length made) + 1)" "ioLoop c = loopOf base mk n (length made)"
    by (simp_all add: c_def id)
  have "srv_inv base addr nm n mk (s', made @ [c])"
    using assms p' inv(1) unfolding srv_inv_def prod.case nm
    by (simp add: names s'_def [THEN arg_cong [where f = ipPort]] s'_def [THEN arg_cong [where f = srvName]]
        s'_def [THEN arg_cong [where f = nextConnId]] s'_def [THEN arg_cong [where f = threadPool]])
  with step show ?thesis by (auto simp: s'_def)
qed

lemma srv_inv_closes:
  "srv_inv base addr nm n mk (s, made) \<Longrightarrow> srv_inv base addr nm n mk (server_step (Closes i) (s, made))"
  using connNameOf_cong [of "fst (removeConnectionInLoop (made ! i) s)" s]
  by (simp add: srv_inv_def removeConnectionInLoop_def)

lemma inv_names:
  assumes "srv_inv base addr nm n mk (s, made)" "length made < 2 ^ 31"
  shows "distinct (map connName made)"
proof -
  have l: "length (ipPort s) \<le> 21" using assms(1) length_toIpPort [of addr] by (simp add: srv_inv_def)
  have "inj_on (\<lambda>j. connNameOf s (int j + 1)) {0..<length made}"
  proof (rule inj_onI)
    fix i j assume b: "i \<in> {0..<length made}" "j \<in> {0..<length made}" "connNameOf s (int i + 1) = connNameOf s (int j + 1)"
    have "int i + 1 = int j + 1" using b assms(2) by (intro connNameOf_inj [OF l _ _ _ _ b(3)]) auto
    then show "i = j" by simp
  qed
  with assms(1) show ?thesis by (simp add: srv_inv_def distinct_map)
qed

text \<open>The open connections are exactly the entries of the map.\<close>

definition tracked :: "nat set \<Rightarrow> server \<times> tconn list \<Rightarrow> bool" where
  "tracked L = (\<lambda>(s, made). L \<subseteq> {..<length made} \<and> alSorted (connections s) \<and>
     set (connections s) = (\<lambda>i. (connName (made ! i), made ! i)) ` L)"

lemma tracked_arrives:
  assumes i: "srv_inv base addr nm n mk (s, made)" and t: "tracked L (s, made)" and b: "Suc (length made) < 2 ^ 31"
  shows "tracked (insert (length made) L) (server_step (Arrives fd' peer local) (s, made))"
proof -
  obtain s' c where s': "server_step (Arrives fd' peer local) (s, made) = (s', made @ [c])"
    "srv_inv base addr nm n mk (s', made @ [c])" "connections s' = alInsert (connName c) c (connections s)"
    using srv_inv_arrives [OF i] by blast
  have "distinct (map connName (made @ [c]))" by (rule inv_names [OF s'(2)]) (use b in simp)
  then have "connName (made ! i) \<noteq> connName c" if "i \<in> L" for i
    using that t by (force simp: tracked_def)
  with t have "{p \<in> set (connections s). fst p \<noteq> connName c} = set (connections s)"
    by (auto simp: tracked_def)
  moreover have "(\<lambda>i. (connName ((made @ [c]) ! i), (made @ [c]) ! i)) ` L = (\<lambda>i. (connName (made ! i), made ! i)) ` L"
    using t by (intro image_cong) (auto simp: tracked_def nth_append)
  ultimately show ?thesis
    using t unfolding s'(1) tracked_def by (auto simp: s'(3) set_alInsert alSorted_alInsert)
qed

lemma tracked_closes:
  assumes i: "srv_inv base addr nm n mk (s, made)" and t: "tracked L (s, made)" and b: "length made < 2 ^ 31"
  shows "tracked (L - {k}) (server_step (Closes k) (s, made))"
proof (cases "k < length made")
  case False
  with t show ?thesis by (auto simp: tracked_def)
next
  case True
  have d: "distinct (map connName made)" by (rule inv_names [OF i b])
  have "connName (made ! i) = connName (made ! k) \<longleftrightarrow> i = k" if "i \<in> L" for i
    using that t True nth_eq_iff_index_eq [OF d, of i k] by (auto simp: tracked_def)
  with True t show ?thesis
    by (auto simp: tracked_def removeConnectionInLoop_def alDelete_def alSorted_alDelete [unfolded alDelete_def])
qed

lemma server_run_inv:
  assumes "length es < 2 ^ 31 - 1"
  shows "srv_inv base addr nm n mk (server_run es (started_server base addr nm n mk)) \<and>
    tracked (openSet es) (server_run es (started_server base addr nm n mk)) \<and>
    fst (fold open_step es (0, {})) = length (snd (server_run es (started_server base addr nm n mk))) \<and>
    length (snd (server_run es (started_server base addr nm n mk))) \<le> length es"
  using assms
proof (induction es rule: rev_induct)
  case Nil
  have "connections (started_server base addr nm n mk) = []" by (simp add: started_server_eq)
  then show ?case by (simp add: server_run_def srv_inv_start tracked_def openSet_def)
next
  case (snoc e es)
  obtain s made where r: "server_run es (started_server base addr nm n mk) = (s, made)" by fastforce
  obtain m L where o: "fold open_step es (0, {}) = (m, L)" by fastforce
  from snoc have IH: "srv_inv base addr nm n mk (s, made)" "tracked L (s, made)" "m = length made" "length made \<le> length es"
    by (auto simp: r o openSet_def)
  have step: "server_run (es @ [e]) (started_server base addr nm n mk) = server_step e (s, made)"
    using r by (simp add: server_run_def)
  have opened: "fold open_step (es @ [e]) (0, {}) = open_step e (m, L)" by (simp add: o)
  have b: "Suc (length made) < 2 ^ 31" using IH(4) snoc.prems by simp
  show ?case
  proof (cases e)
    case (Arrives f p l)
    with srv_inv_arrives [OF IH(1), of f p l] tracked_arrives [OF IH(1,2) b, of f p l] IH(3,4)
    show ?thesis unfolding step opened openSet_def by auto
  next
    case (Closes k)
    have "tracked (L - {k}) (server_step (Closes k) (s, made))" using b by (intro tracked_closes [OF IH(1,2)]) simp
    with Closes srv_inv_closes [OF IH(1), of k] IH(3,4) show ?thesis unfolding step opened openSet_def by auto
  qed
qed

lemma count_mod:
  "a < N \<Longrightarrow> length (filter (\<lambda>j. j mod N = a) [0..<m]) = m div N + (if a < m mod N then 1 else 0)"
  by (induction m) (auto simp: mod_Suc div_Suc)

subsection \<open>Accepting under edge triggering\<close>

text \<open>
  The listening socket: the connections waiting in its backlog, and whether an event is due.  The
  channel is registered with \<open>EPOLLET\<close>, so an event becomes due when a connection arrives, and the
  dispatch, which clears it, calls \<open>handleRead\<close> once.
\<close>

record listen_sock =
  backlog :: "(int \<times> inet_address) list"
  due :: bool

definition ls_arrive :: "int \<times> inet_address \<Rightarrow> listen_sock \<Rightarrow> listen_sock" where
  "ls_arrive x k = k\<lparr>backlog := backlog k @ [x], due := True\<rparr>"

definition ls_dispatch :: "acceptor \<Rightarrow> listen_sock \<Rightarrow> listen_sock \<times> aeffect list" where
  "ls_dispatch a k =
     (if due k then
        (case backlog k of
           [] \<Rightarrow> (k\<lparr>due := False\<rparr>, acceptor_handleRead (Inl EWOULDBLOCK) a)
         | x # xs \<Rightarrow> (k\<lparr>backlog := xs, due := False\<rparr>, acceptor_handleRead (Inr x) a))
      else (k, []))"

subsection \<open>Properties\<close>

text \<open>
  C23: through any arrivals and closes (fewer than the 31-bit counter holds) a started server gives every
  connection a name of its own, and its map holds exactly the open connections under their names, so a
  new connection never displaces another and a close erases only its own entry.
\<close>

theorem connections_tracked:
  assumes "length es < 2 ^ 31 - 1" "server_run es (started_server base addr nm n mk) = (s, made)"
  shows "distinct (map connName made) \<and> alSorted (connections s) \<and>
    set (connections s) = (\<lambda>i. (connName (made ! i), made ! i)) ` openSet es \<and>
    (\<forall>i < length made. connName (made ! i) = nm @ ''-'' @ toIpPort addr @ ''#'' @ digits10 (Suc i))"
proof -
  from server_run_inv [OF assms(1), of base addr nm n mk] have inv: "srv_inv base addr nm n mk (s, made)"
    "tracked (openSet es) (s, made)" "length made < 2 ^ 31 - 1" using assms by (simp_all add: less_eq_Suc_le)
  have "connName (made ! i) = nm @ ''-'' @ toIpPort addr @ ''#'' @ digits10 (Suc i)" if i: "i < length made" for i
  proof -
    have "connName (made ! i) = map connName made ! i" using i by simp
    also have "\<dots> = connNameOf s (int i + 1)" using inv(1) i by (simp add: srv_inv_def)
    also have "\<dots> = srvName s @ ''-'' @ ipPort s @ ''#'' @ digits10 (nat (int i + 1))"
      by (rule connNameOf_eq) (use inv(1,3) length_toIpPort [of addr] i in \<open>simp_all add: srv_inv_def\<close>)
    finally show ?thesis using inv(1) by (simp add: srv_inv_def nat_add_distrib)
  qed
  with inv_names [OF inv(1)] inv(2,3) show ?thesis by (simp add: tracked_def)
qed

theorem connections_tracked_witness:
  "\<exists>s made. server_run [Arrives 7 (inet_of_port 1 True) (inet_of_port 2 True), Arrives 8 (inet_of_port 3 True) (inet_of_port 2 True),
      Closes 0] (started_server 0 (inet_of_port 6379 True) ''kv'' 2 Suc) = (s, made) \<and>
    length made = 2 \<and> distinct (map connName made) \<and> connections s = [(connName (made ! 1), made ! 1)]"
proof -
  let ?es = "[Arrives 7 (inet_of_port 1 True) (inet_of_port 2 True), Arrives 8 (inet_of_port 3 True) (inet_of_port 2 True), Closes 0]"
  obtain s made where r: "server_run ?es (started_server 0 (inet_of_port 6379 True) ''kv'' 2 Suc) = (s, made)"
    by fastforce
  have l: "length made = 2" using r [symmetric] by (simp add: server_run_def newConnection_def Let_def split: prod.splits)
  have o: "openSet ?es = {1}" by (auto simp: openSet_def)
  have len: "length ?es < 2 ^ 31 - 1" by simp
  from connections_tracked [OF len r] have d: "distinct (map connName made)"
    and c: "alSorted (connections s)" "set (connections s) = {(connName (made ! 1), made ! 1)}" by (simp_all only: o image_insert image_empty)
  have "distinct (connections s)" using alSorted_distinct [OF c(1)] by (simp add: distinct_map)
  then have "length (connections s) = 1" using distinct_card [of "connections s"] c(2) by simp
  then have "connections s = [(connName (made ! 1), made ! 1)]" using c(2) by (auto simp: length_Suc_conv)
  with r l d show ?thesis by blast
qed

text \<open>
  C25: connections are dealt to the loops of the pool in turn: the \<open>j\<close>-th connection runs on the loop number
  \<open>j mod n\<close> (on the server's own loop when there are no threads), so the loads of any two loops differ by at
  most one.
\<close>

theorem round_robin:
  assumes "length es < 2 ^ 31 - 1" "server_run es (started_server base addr nm n mk) = (s, made)"
  shows "map ioLoop made = map (\<lambda>j. if n \<le> 0 then base else mk (j mod nat n)) [0..<length made] \<and>
    (inj mk \<and> a < nat n \<and> b < nat n \<longrightarrow>
       length (filter (\<lambda>c. ioLoop c = mk a) made) \<le> length (filter (\<lambda>c. ioLoop c = mk b) made) + 1)"
proof -
  from server_run_inv [OF assms(1), of base addr nm n mk] assms(2)
  have io: "map ioLoop made = map (loopOf base mk n) [0..<length made]" by (simp add: srv_inv_def)
  have count: "length (filter (\<lambda>c. ioLoop c = mk i) made) = length made div nat n + (if i < length made mod nat n then 1 else 0)"
    if "inj mk" "i < nat n" for i
  proof -
    have n: "\<not> n \<le> 0" using that(2) by linarith
    have "length (filter (\<lambda>c. ioLoop c = mk i) made) = length (filter (\<lambda>l. l = mk i) (map ioLoop made))"
      by (simp add: filter_map comp_def)
    also have "\<dots> = length (filter (\<lambda>j. j mod nat n = i) [0..<length made])"
      using that n by (simp add: io filter_map comp_def loopOf_def inj_eq)
    finally show ?thesis using count_mod [OF that(2)] by simp
  qed
  show ?thesis by (auto simp: io loopOf_def count)
qed

theorem round_robin_witness:
  "\<exists>s made. server_run [Arrives 7 (inet_of_port 1 True) (inet_of_port 2 True), Arrives 8 (inet_of_port 3 True) (inet_of_port 2 True),
      Arrives 9 (inet_of_port 4 True) (inet_of_port 2 True)] (started_server 0 (inet_of_port 6379 True) ''kv'' 2 Suc) = (s, made) \<and>
    map ioLoop made = [1, 2, 1] \<and>
    length (filter (\<lambda>c. ioLoop c = Suc 0) made) \<le> length (filter (\<lambda>c. ioLoop c = Suc 1) made) + 1"
proof -
  let ?es = "[Arrives 7 (inet_of_port 1 True) (inet_of_port 2 True), Arrives 8 (inet_of_port 3 True) (inet_of_port 2 True),
    Arrives 9 (inet_of_port 4 True) (inet_of_port 2 True)]"
  obtain s made where r: "server_run ?es (started_server 0 (inet_of_port 6379 True) ''kv'' 2 Suc) = (s, made)"
    by fastforce
  have l: "length made = 3" using r [symmetric] by (simp add: server_run_def newConnection_def Let_def split: prod.splits)
  have len: "length ?es < 2 ^ 31 - 1" by simp
  have inj: "inj Suc" by simp
  from round_robin [OF len r, of 0 1] inj have "map ioLoop made = map (\<lambda>j. Suc (j mod 2)) [0..<3]"
    "length (filter (\<lambda>c. ioLoop c = Suc 0) made) \<le> length (filter (\<lambda>c. ioLoop c = Suc 1) made) + 1"
    by (simp_all add: l)
  moreover have "[0..<3] = [0, 1, 2 :: nat]" by (simp add: upt_rec)
  ultimately show ?thesis using r by (intro exI conjI) (assumption | simp)+
qed

text \<open>
  \<open>handleRead\<close> of the acceptor accepts one connection for an event, also when more are waiting: with
  several in the backlog the others stay there and no event is due until yet another client connects.
\<close>

lemma acceptor_leaves_backlog:
  assumes "hasNewConnectionCb a" "backlog k = x # xs" "due k" "xs \<noteq> []"
  shows "\<exists>k'. ls_dispatch a k = (k', [NewConnection (fst x) (snd x)]) \<and> backlog k' = xs \<and> \<not> due k' \<and>
    ls_dispatch a k' = (k', []) \<and> (\<forall>y. ls_dispatch a (ls_arrive y k') =
      (k'\<lparr>backlog := tl xs @ [y]\<rparr>, [NewConnection (fst (hd xs)) (snd (hd xs))]))"
  using assms
  by (cases xs; cases x) (auto simp: ls_dispatch_def ls_arrive_def acceptor_handleRead_def socket_accept_def)

end
