(* ===== verification/Event_Loop.thy ===== *)
theory Event_Loop
  imports Prelude
begin

text \<open>
  The event loop of \<open>src/net/eventloop.h\<close> and \<open>eventloop.cpp\<close>, shared between the thread that runs it
  and the threads that queue functors on it or ask it to quit.  The operations are functions on the
  loop's state; the step relation interleaves the loop's thread, at the grain of its critical
  sections and system calls, with other threads.  A queue operation of another thread is two steps:
  the push under the mutex, and the write to the event descriptor.
\<close>

subsection \<open>State and operations\<close>

text \<open>Where the loop's thread is: \<open>Running fs\<close> is the loop of \<open>doPendingFunctors\<close> with \<open>fs\<close> to go.\<close>

datatype 'f place = Idle | Check | Poll | Handling | Running "'f list" | Stopped

text \<open>
  \<open>wakeups\<close> is the counter of the event descriptor.  The last five fields are not in the code: the
  wakeups other threads have still to write, the functors in the order they were queued and
  executed, whether the loop's own thread queued something before \<open>loop()\<close>, and whether anybody has
  called \<open>quit()\<close>.
\<close>

record 'f loop =
  place :: "'f place"
  looping :: bool
  quit :: bool
  callingPending :: bool
  pending :: "'f list"
  wakeups :: nat
  owed :: nat
  queued :: "'f list"
  executed :: "'f list"
  early :: bool
  quitAsked :: bool

definition loop_new :: "'f loop" where
  "loop_new = \<lparr>place = Idle, looping = False, quit = False, callingPending = False, pending = [], wakeups = 0,
     owed = 0, queued = [], executed = [], early = False, quitAsked = False\<rparr>"

definition wakeup :: "'f loop \<Rightarrow> 'f loop" where
  "wakeup s = s\<lparr>wakeups := wakeups s + 1\<rparr>"

text \<open>\<open>handleRead\<close> of the event descriptor: reading it resets the counter.\<close>

definition wakeupRead :: "'f loop \<Rightarrow> 'f loop" where
  "wakeupRead s = s\<lparr>wakeups := 0\<rparr>"

definition pushFunctor :: "'f \<Rightarrow> 'f loop \<Rightarrow> 'f loop" where
  "pushFunctor f s = s\<lparr>pending := pending s @ [f], queued := queued s @ [f]\<rparr>"

definition needsWakeup :: "bool \<Rightarrow> 'f loop \<Rightarrow> bool" where
  "needsWakeup inLoop s \<longleftrightarrow> \<not> inLoop \<or> callingPending s"

definition queueInLoop :: "bool \<Rightarrow> 'f \<Rightarrow> 'f loop \<Rightarrow> 'f loop" where
  "queueInLoop inLoop f s =
     (let s1 = pushFunctor f s in if needsWakeup inLoop s1 then wakeup s1 else s1)"

text \<open>\<open>exec\<close> is what running a functor does to the loop.\<close>

definition runInLoop :: "('f \<Rightarrow> 'f loop \<Rightarrow> 'f loop) \<Rightarrow> bool \<Rightarrow> 'f \<Rightarrow> 'f loop \<Rightarrow> 'f loop" where
  "runInLoop exec inLoop f s = (if inLoop then exec f s else queueInLoop inLoop f s)"

definition quitLoop :: "bool \<Rightarrow> 'f loop \<Rightarrow> 'f loop" where
  "quitLoop inLoop s =
     (let s1 = s\<lparr>quit := True, quitAsked := True\<rparr> in if \<not> inLoop then wakeup s1 else s1)"

definition takePending :: "'f loop \<Rightarrow> 'f list \<times> 'f loop" where
  "takePending s = (pending s, s\<lparr>callingPending := True, pending := []\<rparr>)"

definition doPendingFunctors :: "('f \<Rightarrow> 'f loop \<Rightarrow> 'f loop) \<Rightarrow> 'f loop \<Rightarrow> 'f loop" where
  "doPendingFunctors exec s =
     (case takePending s of (fs, s1) \<Rightarrow> (fold exec fs s1)\<lparr>callingPending := False\<rparr>)"

subsection \<open>Interleaved steps\<close>

inductive loop_step :: "'f loop \<Rightarrow> 'f loop \<Rightarrow> bool" where
  start: "place s = Idle \<Longrightarrow> loop_step s (s\<lparr>place := Check, looping := True, quit := False\<rparr>)"
| stop: "place s = Check \<Longrightarrow> quit s \<Longrightarrow> loop_step s (s\<lparr>place := Stopped, looping := False\<rparr>)"
| enter_poll: "place s = Check \<Longrightarrow> \<not> quit s \<Longrightarrow> loop_step s (s\<lparr>place := Poll\<rparr>)"
| poll_wakeup: "place s = Poll \<Longrightarrow> 0 < wakeups s \<Longrightarrow> loop_step s (wakeupRead (s\<lparr>place := Handling\<rparr>))"
| poll_other: "place s = Poll \<Longrightarrow> loop_step s (s\<lparr>place := Handling\<rparr>)"
| handler_queues: "place s = Handling \<Longrightarrow> loop_step s (queueInLoop True f s)"
| handler_quits: "place s = Handling \<Longrightarrow> loop_step s (quitLoop True s)"
| swap: "place s = Handling \<Longrightarrow> takePending s = (fs, s1) \<Longrightarrow>
    loop_step s (s1\<lparr>place := Running fs, early := False\<rparr>)"
| run: "place s = Running (f # fs) \<Longrightarrow> loop_step s (s\<lparr>place := Running fs, executed := executed s @ [f]\<rparr>)"
| functor_queues: "place s = Running fs \<Longrightarrow> loop_step s (queueInLoop True f s)"
| functor_quits: "place s = Running fs \<Longrightarrow> loop_step s (quitLoop True s)"
| pending_done: "place s = Running [] \<Longrightarrow> loop_step s (s\<lparr>place := Check, callingPending := False\<rparr>)"
| owner_queues_early: "place s = Idle \<Longrightarrow> loop_step s ((queueInLoop True f s)\<lparr>early := True\<rparr>)"
| other_pushes: "loop_step s ((pushFunctor f s)\<lparr>owed := owed s + 1\<rparr>)"
| other_quits: "loop_step s (s\<lparr>quit := True, quitAsked := True, owed := owed s + 1\<rparr>)"
| other_wakes: "0 < owed s \<Longrightarrow> loop_step s (wakeup (s\<lparr>owed := owed s - 1\<rparr>))"

inductive reachable :: "'f loop \<Rightarrow> bool" where
  init: "reachable loop_new"
| step: "reachable s \<Longrightarrow> loop_step s s' \<Longrightarrow> reachable s'"

inductive_cases loop_stepE: "loop_step s s'"

lemmas loop_defs = wakeup_def wakeupRead_def pushFunctor_def needsWakeup_def queueInLoop_def
  quitLoop_def takePending_def

subsection \<open>Invariants\<close>

fun runningOf :: "'f place \<Rightarrow> 'f list" where
  "runningOf (Running fs) = fs"
| "runningOf _ = []"

text \<open>Every queued functor has been executed, is being executed or is pending, in that order.\<close>

definition in_order :: "'f loop \<Rightarrow> bool" where
  "in_order s \<longleftrightarrow> queued s = executed s @ runningOf (place s) @ pending s"

text \<open>
  \<open>callingPending\<close> is set exactly while functors run, and outside event handling a pending functor
  has a wakeup, unless the loop's thread queued it before the loop ran.
\<close>

definition awake :: "'f loop \<Rightarrow> bool" where
  "awake s \<longleftrightarrow> (callingPending s \<longleftrightarrow> (\<exists>fs. place s = Running fs)) \<and>
     (place s \<noteq> Handling \<and> place s \<noteq> Stopped \<and> pending s \<noteq> [] \<longrightarrow> 0 < wakeups s \<or> 0 < owed s \<or> early s) \<and>
     (place s = Poll \<and> quit s \<longrightarrow> 0 < wakeups s \<or> 0 < owed s)"

lemma in_order_step: "loop_step s s' \<Longrightarrow> in_order s \<Longrightarrow> in_order s'"
  by (induction rule: loop_step.induct) (auto simp: in_order_def loop_defs Let_def)

lemma awake_step: "loop_step s s' \<Longrightarrow> awake s \<Longrightarrow> awake s'"
  by (induction rule: loop_step.induct) (auto simp: awake_def loop_defs Let_def)

lemma reachable_inv: "reachable s \<Longrightarrow> in_order s \<and> awake s"
proof (induction rule: reachable.induct)
  case init
  show ?case by (simp add: in_order_def awake_def loop_new_def)
next
  case (step s s')
  then show ?case using in_order_step awake_step by blast
qed

subsection \<open>Progress of the loop's thread\<close>

lemma run_all:
  "place s = Running (fs @ gs) \<Longrightarrow> loop_step\<^sup>*\<^sup>* s (s\<lparr>place := Running gs, executed := executed s @ fs\<rparr>)"
proof (induction fs arbitrary: s)
  case Nil
  then have "s\<lparr>place := Running gs, executed := executed s @ []\<rparr> = s" by simp
  then show ?case by simp
next
  case (Cons f fs)
  let ?s = "s\<lparr>place := Running (fs @ gs), executed := executed s @ [f]\<rparr>"
  have "loop_step s ?s" using Cons.prems by (intro run) simp
  moreover have "loop_step\<^sup>*\<^sup>* ?s (s\<lparr>place := Running gs, executed := executed s @ f # fs\<rparr>)"
    using Cons.IH [of ?s] by simp
  ultimately show ?case by (rule converse_rtranclp_into_rtranclp)
qed

lemma woken_runs_pending:
  assumes "place s = Poll" "0 < wakeups s"
  shows "\<exists>s'. loop_step\<^sup>*\<^sup>* s s' \<and> place s' = Check \<and> executed s' = executed s @ pending s \<and>
    pending s' = [] \<and> quit s' = quit s \<and> wakeups s' = 0 \<and> owed s' = owed s \<and> quitAsked s' = quitAsked s"
proof -
  let ?s1 = "wakeupRead (s\<lparr>place := Handling\<rparr>)"
  let ?s2 = "(?s1\<lparr>callingPending := True, pending := []\<rparr>)\<lparr>place := Running (pending s), early := False\<rparr>"
  let ?s3 = "?s2\<lparr>place := Running [], executed := executed ?s2 @ pending s\<rparr>"
  let ?s4 = "?s3\<lparr>place := Check, callingPending := False\<rparr>"
  have "loop_step s ?s1" using assms by (rule poll_wakeup)
  moreover have "loop_step ?s1 ?s2" by (rule swap) (simp_all add: takePending_def wakeupRead_def)
  moreover have "loop_step\<^sup>*\<^sup>* ?s2 ?s3" by (rule run_all) simp
  moreover have "loop_step ?s3 ?s4" by (rule pending_done) simp
  ultimately have "loop_step\<^sup>*\<^sup>* s ?s4"
    by (meson converse_rtranclp_into_rtranclp rtranclp.rtrancl_into_rtrancl)
  then show ?thesis by (intro exI [of _ ?s4]) (simp add: wakeupRead_def)
qed

lemma reachable_star: "loop_step\<^sup>*\<^sup>* s s' \<Longrightarrow> reachable s \<Longrightarrow> reachable s'"
  by (induction rule: rtranclp_induct) (auto intro: reachable.step)

subsection \<open>Properties\<close>

text \<open>
  C18: under any interleaving with other threads, functors run exactly once and in the order they were
  queued, and no wakeup is lost: while the loop's thread is in \<open>poll\<close>, a pending functor or a request
  to quit has its wakeup in the event descriptor, or the thread that made it is about to write it
  (functors the owner queued before \<open>loop()\<close> excepted).
\<close>

theorem no_lost_wakeup:
  assumes "reachable s"
  shows "queued s = executed s @ runningOf (place s) @ pending s \<and>
    (place s = Poll \<and> (pending s \<noteq> [] \<and> \<not> early s \<or> quit s) \<longrightarrow> 0 < wakeups s \<or> 0 < owed s)"
  using reachable_inv [OF assms] by (auto simp: in_order_def awake_def)

lemma reachable_polling: "reachable (loop_new\<lparr>place := Poll, looping := True\<rparr>)"
proof -
  have "reachable (loop_new\<lparr>place := Check, looping := True, quit := False\<rparr>)"
    by (rule reachable.step [OF reachable.init start]) (simp add: loop_new_def)
  then have "reachable (loop_new\<lparr>place := Check, looping := True, quit := False\<rparr>\<lparr>place := Poll\<rparr>)"
    by (rule reachable.step) (rule enter_poll; simp add: loop_new_def)
  then show ?thesis by (simp add: loop_new_def)
qed

theorem no_lost_wakeup_witness:
  "\<exists>s. reachable (s :: nat loop) \<and> place s = Poll \<and> pending s = [7] \<and> queued s = [7] \<and> (0 < wakeups s \<or> 0 < owed s)"
proof -
  let ?s0 = "loop_new\<lparr>place := Poll, looping := True\<rparr> :: nat loop"
  let ?s = "(pushFunctor 7 ?s0)\<lparr>owed := owed ?s0 + 1\<rparr>"
  have r: "reachable ?s" by (rule reachable.step [OF reachable_polling other_pushes])
  from no_lost_wakeup [OF r] have "0 < wakeups ?s \<or> 0 < owed ?s"
    by (simp add: pushFunctor_def loop_new_def)
  with r show ?thesis by (intro exI [of _ ?s]) (simp add: pushFunctor_def loop_new_def)
qed

text \<open>
  A queued functor is executed: once the loop's thread is in \<open>poll\<close> with a wakeup in the event
  descriptor, its own next steps return from \<open>poll\<close> and run everything that was pending, in order.
\<close>

lemma wakeup_runs_pending:
  assumes "reachable s" "place s = Poll" "0 < wakeups s"
  shows "\<exists>s'. loop_step\<^sup>*\<^sup>* s s' \<and> reachable s' \<and> place s' = Check \<and> executed s' = queued s \<and> pending s' = []"
proof -
  obtain s' where s': "loop_step\<^sup>*\<^sup>* s s'" "place s' = Check" "executed s' = executed s @ pending s" "pending s' = []"
    using woken_runs_pending [OF assms(2,3)] by blast
  moreover have "queued s = executed s @ pending s"
    using reachable_inv [OF assms(1)] assms(2) by (simp add: in_order_def)
  ultimately show ?thesis using reachable_star [OF s'(1) assms(1)] by auto
qed

text \<open>
  A request to quit that arrives before the owner has entered \<open>loop()\<close> is lost: \<open>loop()\<close> clears the
  flag, the wakeup is spent on one round, and the loop then waits in \<open>poll\<close> with the request gone.
\<close>

lemma quit_before_loop_is_lost:
  "\<exists>s :: nat loop. reachable s \<and> quitAsked s \<and> place s = Poll \<and> \<not> quit s \<and> wakeups s = 0 \<and> owed s = 0"
proof -
  let ?s1 = "loop_new\<lparr>quit := True, quitAsked := True, owed := owed (loop_new :: nat loop) + 1\<rparr> :: nat loop"
  let ?s2 = "wakeup (?s1\<lparr>owed := owed ?s1 - 1\<rparr>)"
  let ?s3 = "?s2\<lparr>place := Check, looping := True, quit := False\<rparr>"
  let ?s4 = "?s3\<lparr>place := Poll\<rparr>"
  have "reachable ?s1" by (rule reachable.step [OF reachable.init other_quits])
  then have "reachable ?s2" by (rule reachable.step) (rule other_wakes; simp add: loop_new_def)
  then have "reachable ?s3" by (rule reachable.step) (rule start; simp add: wakeup_def loop_new_def)
  then have r4: "reachable ?s4" by (rule reachable.step) (rule enter_poll; simp)
  have "place ?s4 = Poll" "0 < wakeups ?s4" by (simp_all add: wakeup_def)
  from woken_runs_pending [OF this] obtain s5 where s5: "loop_step\<^sup>*\<^sup>* ?s4 s5" "place s5 = Check"
    "quit s5 = quit ?s4" "wakeups s5 = 0" "owed s5 = owed ?s4" "quitAsked s5 = quitAsked ?s4" by blast
  have f: "\<not> quit s5" "owed s5 = 0" "quitAsked s5" using s5(3,5,6) by (simp_all add: wakeup_def loop_new_def)
  have "reachable s5" using s5(1) r4 by (rule reachable_star)
  then have "reachable (s5\<lparr>place := Poll\<rparr>)" by (rule reachable.step) (rule enter_poll [OF s5(2) f(1)])
  with f s5(4) show ?thesis by (intro exI [of _ "s5\<lparr>place := Poll\<rparr>"]) simp
qed

end
