(* ===== verification/Echo_Server.thy ===== *)
theory Echo_Server
  imports Connection_Service Tcp_Server Event_Loop
begin

text \<open>
  The demonstration server of \<open>examples/echo_server.cpp\<close>: its callbacks on a connection, and its start.
\<close>

subsection \<open>Callbacks\<close>

text \<open>The connection callback only logs.\<close>

definition echo_onConnection :: "bool \<Rightarrow> effect list" where
  "echo_onConnection conn = []"

definition echo_onMessage :: "buffer \<Rightarrow> (buffer \<times> effect list) option" where
  "echo_onMessage buf = do { (msg, buf') \<leftarrow> retrieveAllAsString buf; Some (buf', [Send msg]) }"

text \<open>Driven by a connection, as the key-value server is.\<close>

definition echo_open :: "'k epoll_ctl \<Rightarrow> nat \<Rightarrow> int \<Rightarrow> (nat \<Rightarrow> int + nat) \<Rightarrow> 'k poller \<Rightarrow> 'k cresult" where
  "echo_open ctl a sock w p = do {
     (c1, p1, es1) \<leftarrow> connectEstablished ctl (tcp_callbacks (conn_new a sock)) p;
     (c2, p2, es2) \<leftarrow> conn_run ctl (effect_events w (if ConnectionCallback True \<in> set es1 then echo_onConnection True else [])) c1 p1;
     Some (c2, p2, es1 @ es2) }"

fun echo_step :: "'k epoll_ctl \<Rightarrow> svc_event \<Rightarrow> conn \<times> 'k poller \<Rightarrow> 'k cresult" where
  "echo_step ctl (Bytes d w) (c, p) = do {
     (c1, p1, es1) \<leftarrow> handleRead ctl (deliver (readCapacity (inputBuffer c)) (Inr d)) c p;
     (if MessageCallback \<in> set es1 then do {
        (b, effs) \<leftarrow> echo_onMessage (inputBuffer c1);
        (c2, p2, es2) \<leftarrow> conn_run ctl (effect_events w effs) (c1\<lparr>inputBuffer := b\<rparr>) p1;
        Some (c2, p2, es1 @ es2) }
      else Some (c1, p1, es1)) }"
| "echo_step ctl (Writable w) (c, p) = conn_step ctl (EvWritable w) c p"

fun echo_run :: "'k epoll_ctl \<Rightarrow> svc_event list \<Rightarrow> conn \<times> 'k poller \<Rightarrow> 'k cresult" where
  "echo_run ctl [] (c, p) = Some (c, p, [])"
| "echo_run ctl (e # evs) s = do {
     (c1, p1, es1) \<leftarrow> echo_step ctl e s;
     (c2, p2, es2) \<leftarrow> echo_run ctl evs (c1, p1);
     Some (c2, p2, es1 @ es2) }"

subsection \<open>Start\<close>

definition echo_banner :: "int \<Rightarrow> string" where
  "echo_banner prt =
     ''========================================'' @ [LF] @
     '' ReactorKV Echo Server'' @ [LF] @
     '' Port: '' @ to_string prt @ [LF] @
     '' Press Ctrl+C to stop'' @ [LF] @
     ''========================================'' @ [LF]"

text \<open>\<open>argv\<close> without the program's name; what is printed, the server in its loop, and what it put on the loop.\<close>

definition echo_main :: "nat \<Rightarrow> (nat \<Rightarrow> nat) \<Rightarrow> string list \<Rightarrow> string \<times> server \<times> seffect list" where
  "echo_main base mk argv =
     (let prt = (if argv \<noteq> [] then atoi (hd argv) else 8080);
          s = tcp_setThreadNum 2 (tcp_new base (inet_of_port (word_of_int prt) False) ''EchoServer'')
      in case tcp_start mk False s of (s', inits, es) \<Rightarrow> (echo_banner prt, s', es))"

text \<open>The handler of SIGINT and SIGTERM, and what is printed when the loop has ended.\<close>

definition echo_signalHandler :: "bool \<Rightarrow> 'f loop option \<Rightarrow> 'f loop option" where
  "echo_signalHandler inLoop g_loop = (case g_loop of Some l \<Rightarrow> Some (quitLoop inLoop l) | None \<Rightarrow> None)"

definition echo_exit :: "string \<times> int" where
  "echo_exit = (''Server stopped.'' @ [LF], 0)"

subsection \<open>What goes in comes out\<close>

definition echoing :: "('k \<Rightarrow> int \<Rightarrow> (32 word \<times> nat) option) \<Rightarrow> conn \<Rightarrow> 'k poller \<Rightarrow> bool" where
  "echoing view c p \<longleftrightarrow> conn_ok view c p \<and> cstate c = kConnected \<and> hasMessageCb c \<and> content (inputBuffer c) = []"

lemma echo_onMessage_ok:
  assumes "buf_inv b"
  shows "\<exists>b'. echo_onMessage b = Some (b', [Send (content b)]) \<and> buf_inv b' \<and> content b' = []"
  using retrieveAsString_inv [OF assms, of "readableBytes b"] assms
  by (auto simp: echo_onMessage_def retrieveAllAsString_def readable_content)

context epoll_kernel
begin

lemma echo_step_ok:
  assumes "echoing view c p" "orderly e"
  shows "\<exists>c' p' es. echo_step ctl e (c, p) = Some (c', p', es) \<and> echoing view c' p' \<and>
    wrote es @ content (outputBuffer c') = content (outputBuffer c) @ bytesOf [e]"
proof (cases e)
  case (Bytes d w)
  have ok: "conn_ok view c p" "cstate c = kConnected" "hasMessageCb c" "content (inputBuffer c) = []"
    using assms(1) by (simp_all add: echoing_def)
  have d: "d \<noteq> []" "length d \<le> kExtraBuf" "\<forall>i. peerAlive (EvSend [] (w i))" using assms(2) Bytes by simp_all
  obtain b where b: "handleRead ctl (deliver (readCapacity (inputBuffer c)) (Inr d)) c p = Some (c\<lparr>inputBuffer := b\<rparr>, p, [MessageCallback])"
    "buf_inv b" "content b = content (inputBuffer c) @ d" using read_delivers [OF ok(1,3) d(1,2)] by blast
  obtain b' where m: "echo_onMessage b = Some (b', [Send d])" "buf_inv b'" "content b' = []"
    using echo_onMessage_ok [OF b(2)] b(3) ok(4) by auto
  have "conn_ok view (c\<lparr>inputBuffer := b'\<rparr>) p" "cstate (c\<lparr>inputBuffer := b'\<rparr>) = kConnected" "Shutdown \<notin> set [Send d]"
    using ok m(2) by (simp_all add: conn_ok_def)
  from effects_run [OF this(1,2) d(3) this(3)] obtain c' p' es where
    "conn_run ctl (effect_events w [Send d]) (c\<lparr>inputBuffer := b'\<rparr>) p = Some (c', p', es)" "conn_ok view c' p'"
    "cstate c' = kConnected" "inputBuffer c' = b'" "hasMessageCb c'" "wrote es @ content (outputBuffer c') = content (outputBuffer c) @ d"
    using ok(3) by auto
  with b m Bytes show ?thesis by (simp add: echoing_def)
next
  case (Writable w)
  have ok: "conn_ok view c p" "cstate c \<noteq> kDisconnected" using assms(1) by (simp_all add: echoing_def)
  from handleWrite_ok [OF ok refl, of w] obtain c' p' es where
    w: "handleWrite ctl (offer (readableBytes (outputBuffer c)) w) c p = Some (c', p', es)" "conn_ok view c' p'"
      "cstate c' = cstate c" "wrote es @ content (outputBuffer c') = content (outputBuffer c)" by blast
  with handleWrite_frame [OF w(1)] assms(1) Writable show ?thesis by (simp add: echoing_def)
qed

lemma bytesOf_Cons: "bytesOf (e # evs) = bytesOf [e] @ bytesOf evs"
  by (cases e) simp_all

lemma echo_run_ok:
  assumes "echoing view c p" "\<forall>e \<in> set evs. orderly e"
  shows "\<exists>c' p' es. echo_run ctl evs (c, p) = Some (c', p', es) \<and> echoing view c' p' \<and>
    wrote es @ content (outputBuffer c') = content (outputBuffer c) @ bytesOf evs"
  using assms
proof (induction evs arbitrary: c p)
  case (Cons e evs)
  have "orderly e" using Cons.prems(2) by simp
  from echo_step_ok [OF Cons.prems(1) this] obtain c1 p1 es1 where s: "echo_step ctl e (c, p) = Some (c1, p1, es1)"
    "echoing view c1 p1" "wrote es1 @ content (outputBuffer c1) = content (outputBuffer c) @ bytesOf [e]" by blast
  from Cons.IH [OF s(2)] Cons.prems(2) obtain c2 p2 es2 where t: "echo_run ctl evs (c1, p1) = Some (c2, p2, es2)"
    "echoing view c2 p2" "wrote es2 @ content (outputBuffer c2) = content (outputBuffer c1) @ bytesOf evs" by auto
  have "wrote (es1 @ es2) @ content (outputBuffer c2) = (wrote es1 @ content (outputBuffer c1)) @ bytesOf evs" using t(3) by simp
  also have "\<dots> = content (outputBuffer c) @ bytesOf (e # evs)" unfolding s(3) bytesOf_Cons [of e evs] by simp
  finally show ?case using s(1) t(1,2) by simp
qed simp

end

subsection \<open>Properties\<close>

text \<open>
  The echo server echoes: whatever the segments and the partial or blocked writes, what the kernel has taken
  followed by what is still queued is exactly what the client has sent.
\<close>

lemma echo_returns_input:
  assumes "kernel p sock = None" "\<forall>e \<in> set evs. orderly e"
  shows "\<exists>c1 p1 es1 c2 p2 es2. echo_open interest_ctl a sock w p = Some (c1, p1, es1) \<and>
    echo_run interest_ctl evs (c1, p1) = Some (c2, p2, es2) \<and> wrote (es1 @ es2) @ content (outputBuffer c2) = bytesOf evs \<and>
    content (inputBuffer c2) = [] \<and> cstate c2 = kConnected"
proof -
  obtain c1 p1 where c: "connectEstablished interest_ctl (tcp_callbacks (conn_new a sock)) p = Some (c1, p1, [ConnectionCallback True])"
    "conn_ok (\<lambda>k. k) c1 p1" "cstate c1 = kConnected" "hasMessageCb c1" "content (inputBuffer c1) = []" "content (outputBuffer c1) = []"
    using ep.established_ok [of p sock a] assms(1) by blast
  then have e: "echoing (\<lambda>k. k) c1 p1" by (simp add: echoing_def)
  have o: "echo_open interest_ctl a sock w p = Some (c1, p1, [ConnectionCallback True])"
    using c(1) by (simp add: echo_open_def echo_onConnection_def)
  from ep.echo_run_ok [OF e assms(2)] obtain c2 p2 es2 where "echo_run interest_ctl evs (c1, p1) = Some (c2, p2, es2)"
    "echoing (\<lambda>k. k) c2 p2" "wrote es2 @ content (outputBuffer c2) = bytesOf evs" using c(6) by auto
  with o show ?thesis by (simp add: echoing_def)
qed

end
