(* ===== verification/Client_Main.thy ===== *)
theory Client_Main
  imports KV_Client
begin

text \<open>
  The command line client of \<open>src/client/main.cpp\<close>: options, the start-up check, and the loop that reads
  commands from standard input, calls \<open>KVClient\<close> and prints the results.  Standard input is the list of its
  lines; what is printed is returned.  \<open>getopt_long\<close> is the list of the options it returns, in order.
\<close>

subsection \<open>Reading words\<close>

text \<open>\<open>operator>>\<close> for a string: the next word and what follows it.\<close>

definition readWord :: "string \<Rightarrow> string \<times> string" where
  "readWord s = (let t = dropWhile isspace s in
     (takeWhile (\<lambda>c. \<not> isspace c) t, dropWhile (\<lambda>c. \<not> isspace c) t))"

subsection \<open>Options\<close>

datatype cl_opt = OptHost string | OptPort string | OptHelp | OptBad

definition cl_usage :: "string \<Rightarrow> string" where
  "cl_usage prog = ''Usage: '' @ prog @ '' [options]'' @ [LF] @
     ''Options:'' @ [LF] @
     ''  -h, --host HOST      Server host (default: 127.0.0.1)'' @ [LF] @
     ''  -p, --port PORT      Server port (default: 6379)'' @ [LF] @
     ''  --help               Show this help'' @ [LF]"

definition cl_help :: string where
  "cl_help =
     [LF] @ ''Available commands:'' @ [LF] @
     ''  PUT key value   - Store a key-value pair'' @ [LF] @
     ''  GET key         - Get value by key'' @ [LF] @
     ''  DEL key         - Delete a key'' @ [LF] @
     ''  EXISTS key      - Check if key exists'' @ [LF] @
     ''  SIZE            - Get number of stored keys'' @ [LF] @
     ''  CLEAR           - Clear all data'' @ [LF] @
     ''  PING            - Test server connection'' @ [LF] @
     ''  QUIT            - Exit the client'' @ [LF] @
     ''  HELP            - Show this help'' @ [LF] @ [LF]"

text \<open>Inl is the exit code with what was printed; Inr the host and the port.\<close>

fun cl_options :: "string \<Rightarrow> cl_opt list \<Rightarrow> string \<times> int \<Rightarrow> (int \<times> string) + (string \<times> int)" where
  "cl_options prog [] conf = Inr conf"
| "cl_options prog (OptHost h # os) (hst, prt) = cl_options prog os (h, prt)"
| "cl_options prog (OptPort a # os) (hst, prt) = cl_options prog os (hst, atoi a)"
| "cl_options prog (OptHelp # os) conf = Inl (0, cl_usage prog)"
| "cl_options prog (OptBad # os) conf = Inl (1, cl_usage prog)"

subsection \<open>One line\<close>

definition prompt :: string where
  "prompt = ''reactorkv> ''"

definition errorLine :: "string \<Rightarrow> string" where
  "errorLine msg = ''(error) '' @ msg @ [LF]"

text \<open>The value of a PUT: the rest of the line without leading blanks, unless it is all blanks.\<close>

definition cli_value :: "string \<Rightarrow> string" where
  "cli_value s =
     (let v = takeWhile (\<lambda>c. c \<noteq> LF) s; w = dropWhile (\<lambda>c. c = SP \<or> c = CHR 0x09) v in if w = [] then v else w)"

text \<open>The result says whether the loop ends, what is printed, and the client and its peer.\<close>

definition cli_line :: "'p sockets \<Rightarrow> string \<Rightarrow> client \<Rightarrow> 'p \<Rightarrow> (bool \<times> string \<times> client \<times> 'p) option" where
  "cli_line sys line c p =
     (let (cmd0, rest) = readWord line; cmd = toUpper cmd0; (key, rest') = readWord rest in
      if cmd = ''QUIT'' \<or> cmd = ''EXIT'' then Some (True, ''Bye!'' @ [LF], c, p)
      else if cmd = ''HELP'' then Some (False, cl_help, c, p)
      else if cmd = ''PING'' then do {
        (ok, c1, p1) \<leftarrow> cl_ping sys c p;
        Some (False, if ok then ''PONG'' @ [LF] else errorLine (lastError c1), c1, p1) }
      else if cmd = ''PUT'' \<or> cmd = ''SET'' then
        (let val = cli_value rest' in
         if key = [] \<or> val = [] then Some (False, errorLine ''Usage: PUT key value'', c, p)
         else do {
           (ok, c1, p1) \<leftarrow> cl_put sys key val c p;
           Some (False, if ok then ''OK'' @ [LF] else errorLine (lastError c1), c1, p1) })
      else if cmd = ''GET'' then
        (if key = [] then Some (False, errorLine ''Usage: GET key'', c, p)
         else do {
           (ok, v, c1, p1) \<leftarrow> cl_get sys key c p;
           Some (False, if ok then [CHR 0x22] @ v @ [CHR 0x22, LF] else ''(nil)'' @ [LF], c1, p1) })
      else if cmd = ''DEL'' \<or> cmd = ''DELETE'' then
        (if key = [] then Some (False, errorLine ''Usage: DEL key'', c, p)
         else do {
           (ok, c1, p1) \<leftarrow> cl_del sys key c p;
           Some (False, ''(integer) '' @ (if ok then ''1'' else ''0'') @ [LF], c1, p1) })
      else if cmd = ''EXISTS'' then
        (if key = [] then Some (False, errorLine ''Usage: EXISTS key'', c, p)
         else do {
           (ok, c1, p1) \<leftarrow> cl_exists sys key c p;
           Some (False, ''(integer) '' @ (if ok then ''1'' else ''0'') @ [LF], c1, p1) })
      else if cmd = ''SIZE'' \<or> cmd = ''DBSIZE'' then do {
        (ok, n, c1, p1) \<leftarrow> cl_size sys c p;
        Some (False, if ok then ''(integer) '' @ to_string n @ [LF] else errorLine (lastError c1), c1, p1) }
      else if cmd = ''CLEAR'' \<or> cmd = ''FLUSHDB'' then do {
        (ok, c1, p1) \<leftarrow> cl_clear sys c p;
        Some (False, if ok then ''OK'' @ [LF] else errorLine (lastError c1), c1, p1) }
      else Some (False, errorLine (''Unknown command '' @ [CHR 0x27] @ cmd @ [CHR 0x27] @ ''. Type HELP for available commands.''), c, p))"

subsection \<open>The loop and the program\<close>

text \<open>The loop over the lines of standard input; an empty line only prints the prompt.\<close>

fun cli_loop :: "'p sockets \<Rightarrow> string list \<Rightarrow> client \<Rightarrow> 'p \<Rightarrow> (string \<times> client \<times> 'p) option" where
  "cli_loop sys [] c p = Some ([], c, p)"
| "cli_loop sys (l # ls) c p =
     (if l = [] then map_option (\<lambda>(out, r). (prompt @ out, r)) (cli_loop sys ls c p)
      else do {
        (stop, out1, c1, p1) \<leftarrow> cli_line sys l c p;
        (if stop then Some (out1, c1, p1)
         else map_option (\<lambda>(out, r). (out1 @ prompt @ out, r)) (cli_loop sys ls c1 p1)) })"

text \<open>What the system calls of \<open>connect\<close> give.\<close>

record conn_result =
  sockResult :: int
  sockErr :: string
  resolved :: bool
  accepted :: bool
  connErr :: string

definition cl_banner :: "string \<Rightarrow> int \<Rightarrow> string" where
  "cl_banner hst prt = ''========================================'' @ [LF] @
     ''        ReactorKV Client v1.0'' @ [LF] @
     ''========================================'' @ [LF] @
     ''  Connecting to '' @ hst @ '':'' @ to_string prt @ ''...'' @ [LF]"

text \<open>
  \<open>main\<close>: exit code, standard output, standard error, and the peer.  Every return destroys the client,
  whose destructor disconnects.
\<close>

definition client_main :: "'p sockets \<Rightarrow> string \<Rightarrow> cl_opt list \<Rightarrow> conn_result \<Rightarrow> string list \<Rightarrow> 'p \<Rightarrow>
    (int \<times> string \<times> string \<times> 'p) option" where
  "client_main sys prog opts r input p =
     (case cl_options prog opts (''127.0.0.1'', 6379) of
        Inl (code, out) \<Rightarrow> Some (code, out, [], p)
      | Inr (hst, prt) \<Rightarrow>
          (case cl_connect (sockResult r) (sockErr r) (resolved r) (accepted r) (connErr r)
                 (client_new hst (word_of_int prt)) of
             (ok, c) \<Rightarrow>
               if \<not> ok then do {
                 (_, p1) \<leftarrow> cl_disconnect sys c p;
                 Some (1, cl_banner hst prt, ''Failed to connect: '' @ lastError c @ [LF], p1) }
               else do {
                 (alive, c1, p1) \<leftarrow> cl_ping sys c p;
                 (if \<not> alive then do {
                    (_, p2) \<leftarrow> cl_disconnect sys c1 p1;
                    Some (1, cl_banner hst prt, ''Server not responding'' @ [LF], p2) }
                  else do {
                    (out, c2, p2) \<leftarrow> cli_loop sys input c1 p1;
                    (_, p3) \<leftarrow> cl_disconnect sys c2 p2;
                    Some (0, cl_banner hst prt @ ''  Connected!'' @ [LF] @ ''========================================'' @ [LF] @ cl_help @ prompt @ out, [], p3) }) }))"

subsection \<open>The program returns\<close>

text \<open>A peer that answers: no \<open>recv\<close> waits for ever.\<close>

definition answering :: "'p sockets \<Rightarrow> bool" where
  "answering sys \<longleftrightarrow> (\<forall>n p. sys_recv sys n p \<noteq> None)"

lemma bind_returns: "x \<noteq> None \<Longrightarrow> (\<And>y. f y \<noteq> None) \<Longrightarrow> Option.bind x f \<noteq> None"
  by (cases x) simp_all

lemma case_prod_returns: "(\<And>a b. f a b \<noteq> None) \<Longrightarrow> case_prod f y \<noteq> None"
  by (cases y) simp

lemma if_returns: "x \<noteq> None \<Longrightarrow> y \<noteq> None \<Longrightarrow> (if b then x else y) \<noteq> None"
  by simp

lemma map_option_returns: "x \<noteq> None \<Longrightarrow> map_option f x \<noteq> None"
  by simp

lemmas returns = bind_returns case_prod_returns if_returns map_option_returns option.distinct(2)

lemma sendCommand_returns: "answering sys \<Longrightarrow> sendCommand sys cmd c p \<noteq> None"
  by (simp add: sendCommand_def answering_def del: not_None_eq split: prod.split option.split sum.split)

lemma cl_request_returns: "answering sys \<Longrightarrow> cl_request sys cmd c p \<noteq> None"
  unfolding cl_request_def by (intro returns sendCommand_returns)

lemma requests_return:
  assumes "answering sys"
  shows "cl_put sys k v c p \<noteq> None" "cl_get sys k c p \<noteq> None" "cl_del sys k c p \<noteq> None"
    "cl_exists sys k c p \<noteq> None" "cl_size sys c p \<noteq> None" "cl_clear sys c p \<noteq> None" "cl_ping sys c p \<noteq> None"
    "cl_disconnect sys c p \<noteq> None"
  unfolding cl_put_def cl_get_def cl_del_def cl_exists_def cl_size_def cl_clear_def cl_ping_def cl_disconnect_def
  by (intro returns cl_request_returns sendCommand_returns assms)+

lemma cli_line_returns: "answering sys \<Longrightarrow> cli_line sys line c p \<noteq> None"
  unfolding cli_line_def Let_def by (intro returns requests_return)

lemma cli_loop_returns: "answering sys \<Longrightarrow> cli_loop sys input c p \<noteq> None"
proof (induction input arbitrary: c p)
  case (Cons l ls)
  show ?case unfolding cli_loop.simps by (intro returns cli_line_returns Cons)
qed simp

lemma cl_options_code: "cl_options prog opts conf = Inl (code, out) \<Longrightarrow> code = 0 \<or> code = 1"
  by (induction prog opts conf rule: cl_options.induct) auto


text \<open>A peer that always says PONG, for the witness.\<close>

definition ponging :: "unit sockets" where
  "ponging = \<lparr>sys_send = (\<lambda>d p. (int (length d), p)), sys_recv = (\<lambda>n p. Some (Inr ''+PONG'', p)), sys_close = (\<lambda>p. p)\<rparr>"


subsection \<open>A script of commands\<close>

datatype cli_cmd = CPut string string | CGet string | CDel string | CExists string | CSize | CClear | CPing | CHelp

fun render :: "cli_cmd \<Rightarrow> string" where
  "render (CPut k v) = ''PUT '' @ k @ '' '' @ v"
| "render (CGet k) = ''GET '' @ k"
| "render (CDel k) = ''DEL '' @ k"
| "render (CExists k) = ''EXISTS '' @ k"
| "render CSize = ''SIZE''"
| "render CClear = ''CLEAR''"
| "render CPing = ''PING''"
| "render CHelp = ''HELP''"

text \<open>What a command does to a map, and what it prints.\<close>

fun cli_spec :: "cli_cmd \<Rightarrow> kvmap \<Rightarrow> kvmap \<times> string" where
  "cli_spec (CPut k v) m = (m(k \<mapsto> v), ''OK'' @ [LF])"
| "cli_spec (CGet k) m = (m, case m k of Some v \<Rightarrow> [CHR 0x22] @ v @ [CHR 0x22, LF] | None \<Rightarrow> ''(nil)'' @ [LF])"
| "cli_spec (CDel k) m = (m(k := None), ''(integer) '' @ (if m k \<noteq> None then ''1'' else ''0'') @ [LF])"
| "cli_spec (CExists k) m = (m, ''(integer) '' @ (if m k \<noteq> None then ''1'' else ''0'') @ [LF])"
| "cli_spec CSize m = (m, ''(integer) '' @ to_string (int (card (dom m))) @ [LF])"
| "cli_spec CClear m = (Map.empty, ''OK'' @ [LF])"
| "cli_spec CPing m = (m, ''PONG'' @ [LF])"
| "cli_spec CHelp m = (m, cl_help)"

fun cli_specs :: "cli_cmd list \<Rightarrow> kvmap \<Rightarrow> kvmap \<times> string" where
  "cli_specs [] m = (m, [])"
| "cli_specs (x # xs) m = (case cli_spec x m of (m1, out1) \<Rightarrow> case cli_specs xs m1 of (m2, out2) \<Rightarrow> (m2, out1 @ prompt @ out2))"

text \<open>Arguments that survive the way, and values that one read of the client takes.\<close>

fun cmd_ok :: "cli_cmd \<Rightarrow> bool" where
  "cmd_ok (CPut k v) \<longleftrightarrow> wireKey k \<and> wireValue v \<and> str_find k ''PUT'' = None \<and> length k + length v + 7 \<le> kExtraBuf \<and>
     length v + 6 \<le> 4095"
| "cmd_ok (CGet k) \<longleftrightarrow> wireKey k \<and> length k + 9 \<le> kExtraBuf"
| "cmd_ok (CDel k) \<longleftrightarrow> wireKey k \<and> length k + 9 \<le> kExtraBuf"
| "cmd_ok (CExists k) \<longleftrightarrow> wireKey k \<and> length k + 9 \<le> kExtraBuf"
| "cmd_ok _ \<longleftrightarrow> True"

definition readable :: "kvmap \<Rightarrow> bool" where
  "readable m \<longleftrightarrow> (\<forall>k v. m k = Some v \<longrightarrow> (v = [] \<or> last v \<noteq> CR \<and> last v \<noteq> LF) \<and> length v + 6 \<le> 4095)"

lemma readWord_word:
  assumes "w \<noteq> []" "\<forall>c \<in> set w. \<not> isspace c" "t = [] \<or> isspace (hd t)"
  shows "readWord (w @ t) = (w, t)"
proof -
  have d: "dropWhile isspace (w @ t) = w @ t" using assms(1,2) by (cases w) simp_all
  have "takeWhile (\<lambda>c. \<not> isspace c) (w @ t) = w" "dropWhile (\<lambda>c. \<not> isspace c) (w @ t) = t"
    using assms(2,3) by (cases t; simp)+
  with d show ?thesis by (simp add: readWord_def Let_def)
qed

lemma isspace_SP [simp]: "isspace SP" by (simp add: isspace_def)

lemma readWord_SP [simp]: "readWord (SP # s) = readWord s" by (simp add: readWord_def)

lemma readWord_Nil [simp]: "readWord [] = ([], [])" by (simp add: readWord_def)

lemma cli_value_wire: "wireValue v \<Longrightarrow> cli_value (SP # v) = v"
proof -
  assume v: "wireValue v"
  then have t: "takeWhile (\<lambda>c. c \<noteq> LF) (SP # v) = SP # v" by (auto simp: takeWhile_eq_all_conv wireValue_def)
  have "dropWhile (\<lambda>c. c = SP \<or> c = CHR 0x09) v = v"
    using v by (cases v) (auto simp: wireValue_def isspace_def)
  then have d: "dropWhile (\<lambda>c. c = SP \<or> c = CHR 0x09) (SP # v) = v" by simp
  show ?thesis using v unfolding cli_value_def t Let_def d by (simp add: wireValue_def)
qed

lemma command_words:
  "readWord (''PUT '' @ s) = (''PUT'', SP # s)" "readWord (''GET '' @ s) = (''GET'', SP # s)"
  "readWord (''DEL '' @ s) = (''DEL'', SP # s)" "readWord (''EXISTS '' @ s) = (''EXISTS'', SP # s)"
  "readWord ''SIZE'' = (''SIZE'', [])" "readWord ''CLEAR'' = (''CLEAR'', [])" "readWord ''PING'' = (''PING'', [])"
  "readWord ''HELP'' = (''HELP'', [])"
  using readWord_word [of "''PUT''" "SP # s"] readWord_word [of "''GET''" "SP # s"] readWord_word [of "''DEL''" "SP # s"]
    readWord_word [of "''EXISTS''" "SP # s"] readWord_word [of "''SIZE''" "[]"] readWord_word [of "''CLEAR''" "[]"]
    readWord_word [of "''PING''" "[]"] readWord_word [of "''HELP''" "[]"]
  by (simp_all add: isspace_def)

lemmas command_words_cons [simp] = command_words [unfolded append_Cons append_Nil]

lemma upper_bare [simp]: "toUpper ''SIZE'' = ''SIZE''" "toUpper ''CLEAR'' = ''CLEAR''" "toUpper ''PING'' = ''PING''"
  "toUpper ''HELP'' = ''HELP''"
  by (simp_all add: toUpper_def toupper_def)

lemma readWord_key: "wireKey k \<Longrightarrow> readWord k = (k, [])" "wireKey k \<Longrightarrow> readWord (k @ SP # v) = (k, SP # v)"
  using readWord_word [of k "[]"] readWord_word [of k "SP # v"] by (simp_all add: wireKey_def)

lemma card_upd: "card (dom (m(k \<mapsto> v))) \<le> Suc (card (dom m))"
  by (cases "finite (dom m)") (simp_all add: card_insert_if)

lemma card_spec: "card (dom (fst (cli_spec x m))) \<le> Suc (card (dom m))"
proof (cases x)
  case (CDel k)
  have "card (dom m - {k}) \<le> card (dom m)" by (rule card_Diff1_le)
  with CDel show ?thesis by simp
qed (use card_upd in simp_all)

lemma wireValue_last: "wireValue v \<Longrightarrow> last v \<noteq> LF"
  by (metis last_in_set wireValue_def)

lemma readable_spec: "readable m \<Longrightarrow> cmd_ok x \<Longrightarrow> readable (fst (cli_spec x m))"
  by (cases x) (auto simp: readable_def wireValue_last, auto simp: wireValue_def)

lemma cli_line_spec:
  assumes i: "idle s" "isConnected c" and x: "cmd_ok x" and m: "readable (kv_map (srvStore s))"
    and n: "card (dom (kv_map (srvStore s))) < 2 ^ 31"
  shows "\<exists>c' s'. cli_line session_sys (render x) c s = Some (False, snd (cli_spec x (kv_map (srvStore s))), c', s') \<and>
    isConnected c' \<and> idle s' \<and> kv_map (srvStore s') = fst (cli_spec x (kv_map (srvStore s)))"
proof (cases x)
  case (CPut k v)
  then have k: "wireKey k" "wireValue v" "k \<noteq> []" "v \<noteq> []" using x by (auto simp: wireKey_def wireValue_def)
  obtain s' where "cl_put session_sys k v c s = Some (True, c, s')" "idle s'"
    "kv_map (srvStore s') = (kv_map (srvStore s))(k \<mapsto> v)" using cl_put_idle [OF i k(1,2)] x CPut by auto
  with k i CPut show ?thesis by (simp add: cli_line_def readWord_key cli_value_wire)
next
  case (CGet k)
  then have k: "wireKey k" "k \<noteq> []" "length k + 6 \<le> kExtraBuf" using x by (auto simp: wireKey_def)
  show ?thesis
  proof (cases "kv_map (srvStore s) k")
    case None
    from cl_get_idle_missing [OF i k(1,3) None] None k CGet i show ?thesis
      by (auto simp: cli_line_def readWord_key isConnected_def)
  next
    case (Some v)
    then have "v = [] \<or> last v \<noteq> CR \<and> last v \<noteq> LF" "length v + 6 \<le> 4095" using m by (auto simp: readable_def)
    from cl_get_idle [OF i k(1,3) Some this] Some k CGet i show ?thesis by (auto simp: cli_line_def readWord_key)
  qed
next
  case (CDel k)
  then have k: "wireKey k" "k \<noteq> []" "length k + 6 \<le> kExtraBuf" using x by (auto simp: wireKey_def)
  from cl_del_idle [OF i k(1,3)] k CDel show ?thesis by (auto simp: cli_line_def readWord_key)
next
  case (CExists k)
  then have k: "wireKey k" "k \<noteq> []" "length k + 9 \<le> kExtraBuf" using x by (auto simp: wireKey_def)
  from cl_exists_idle [OF i k(1,3)] k CExists i show ?thesis by (auto simp: cli_line_def readWord_key)
next
  case CSize
  from cl_size_idle [OF i n] CSize i show ?thesis by (auto simp: cli_line_def)
next
  case CClear
  from cl_clear_idle [OF i] CClear i show ?thesis by (auto simp: cli_line_def)
next
  case CPing
  from cl_ping_idle [OF i] CPing i show ?thesis by (auto simp: cli_line_def)
next
  case CHelp
  with i show ?thesis by (simp add: cli_line_def)
qed

lemma cli_loop_spec:
  assumes "idle s" "isConnected c" "\<forall>x \<in> set xs. cmd_ok x" "readable (kv_map (srvStore s))"
    and "card (dom (kv_map (srvStore s))) + length xs < 2 ^ 31"
  shows "\<exists>c' s'. cli_loop session_sys (map render xs) c s = Some (snd (cli_specs xs (kv_map (srvStore s))), c', s') \<and>
    isConnected c' \<and> idle s' \<and> kv_map (srvStore s') = fst (cli_specs xs (kv_map (srvStore s)))"
  using assms
proof (induction xs arbitrary: c s)
  case (Cons x xs)
  let ?m = "kv_map (srvStore s)"
  have x: "cmd_ok x" "card (dom ?m) < 2 ^ 31" using Cons.prems(3,5) by simp_all
  obtain c1 s1 where l: "cli_line session_sys (render x) c s = Some (False, snd (cli_spec x ?m), c1, s1)"
    "isConnected c1" "idle s1" "kv_map (srvStore s1) = fst (cli_spec x ?m)"
    using cli_line_spec [OF Cons.prems(1,2) x(1) Cons.prems(4) x(2)] by blast
  have "readable (kv_map (srvStore s1))" using readable_spec [OF Cons.prems(4) x(1)] l(4) by simp
  moreover have "card (dom (kv_map (srvStore s1))) + length xs < 2 ^ 31"
    using card_spec [of x ?m] Cons.prems(5) by (simp add: l(4))
  ultimately obtain c2 s2 where
    "cli_loop session_sys (map render xs) c1 s1 = Some (snd (cli_specs xs (kv_map (srvStore s1))), c2, s2)"
    "isConnected c2" "idle s2" "kv_map (srvStore s2) = fst (cli_specs xs (kv_map (srvStore s1)))"
    using Cons.IH [OF l(3,2)] Cons.prems(3) by auto
  moreover have "render x \<noteq> []" by (cases x) simp_all
  ultimately show ?case using l by (simp add: split_beta)
qed simp



text \<open>The first command of a new session: its own response is left for the next read.\<close>

lemma session_first:
  assumes "kv_inv st" "isConnected c" "LF \<notin> set l" "l = [] \<or> last l \<noteq> CR" "length l + 2 \<le> kExtraBuf"
    and "spec_request (parseLine l Request_default) (kv_map st) = (m, resp)"
    and "command (parseLine l Request_default) \<noteq> kQuit"
  shows "\<exists>s'. sendCommand session_sys (l @ [CR, LF]) c (session_open st) = Some (welcomeText, c, s') \<and>
    toClient s' = [encodeResponse resp] \<and> buf_inv (inBuf s') \<and> kv_inv (srvStore s')"
proof -
  have line: "lineText (l @ [CR]) = l" using assms(4) by (auto simp: lineText_def popCR_def)
  have "serve ((l @ [CR]) @ LF # []) (kv_map st) = ([], m, [sendResponse resp])"
    using serve_line [of "l @ [CR]" "kv_map st" m resp "[]"] assms(3,6,7) by (simp add: request_of_def line serve_stop)
  moreover have "length (l @ [CR, LF]) \<le> kExtraBuf" using assms(5) by simp
  ultimately obtain b st' where "receive (l @ [CR, LF]) (buf_new kInitialSize, st) = Some (b, st', [sendResponse resp])"
    "buf_inv b" "kv_inv st'"
    using receive_spec [OF buf_new_inv(1) assms(1), of "l @ [CR, LF]" kInitialSize] by auto
  moreover have "length welcomeText \<le> 4095" "welcomeText \<noteq> []" by (simp_all add: welcomeText_def)
  ultimately show ?thesis
    using assms(2) by (auto simp: sendCommand_def session_sys_def session_open_def session_send_def session_recv_def
        onConnection_def sendResponse_def)
qed

lemma session_next:
  assumes "buf_inv (inBuf s)" "kv_inv (srvStore s)" "toClient s = d # ds" "d \<noteq> []" "length d \<le> 4095"
    and "length cmd \<le> kExtraBuf"
  shows "sendCommand session_sys cmd c s \<noteq> None"
proof -
  obtain b st es where "receive cmd (inBuf s, srvStore s) = Some (b, st, es)"
    using receive_spec [OF assms(1,2,6)] by blast
  with assms(3-5) show ?thesis
    by (auto simp: sendCommand_def session_sys_def session_send_def session_recv_def)
qed

text \<open>
  C35: against this server the client program refuses to start: when the welcome line arrives on its own, the
  start-up check takes it for the answer to PING and the program exits with code 1, whatever the input.
\<close>

theorem cli_refuses_server:
  assumes "kv_inv st" "0 \<le> sockResult r" "resolved r" "accepted r"
  shows "\<exists>out s. client_main session_sys prog [] r input (session_open st) = Some (1, out, ''Server not responding'' @ [LF], s)"
proof -
  let ?c = "client_new ''127.0.0.1'' (word_of_int 6379)\<lparr>sockfd := sockResult r\<rparr>"
  have c: "cl_connect (sockResult r) (sockErr r) (resolved r) (accepted r) (connErr r) (client_new ''127.0.0.1'' (word_of_int 6379)) = (True, ?c)"
    using assms(2-4) by (simp add: cl_connect_def isConnected_def client_new_def)
  have conn: "isConnected ?c" using assms(2) by (simp add: isConnected_def)
  have l: "LF \<notin> set ''PING''" "''PING'' = [] \<or> last ''PING'' \<noteq> CR" "length ''PING'' + 2 \<le> kExtraBuf"
    by (simp_all add: kExtraBuf_def)
  have rq: "parseLine ''PING'' Request_default = Request_default\<lparr>command := kPing\<rparr>" by (rule bare_lines)
  have sp: "spec_request (parseLine ''PING'' Request_default) (kv_map st) = (kv_map st, resp_pong)"
    "command (parseLine ''PING'' Request_default) \<noteq> kQuit" by (simp_all add: rq spec_request_def)
  obtain s1 where s1: "sendCommand session_sys (''PING'' @ [CR, LF]) ?c (session_open st) = Some (welcomeText, ?c, s1)"
    "toClient s1 = [encodeResponse resp_pong]" "buf_inv (inBuf s1)" "kv_inv (srvStore s1)"
    using session_first [OF assms(1) conn l sp] by blast
  have "str_find ''PONG'' welcomeText = None" by code_simp
  then have ping: "cl_ping session_sys ?c (session_open st) = Some (False, ?c, s1)" by (simp add: cl_ping_def s1(1) [simplified])
  have "sendCommand session_sys (''QUIT'' @ [CR, LF]) ?c s1 \<noteq> None"
    by (rule session_next [OF s1(3,4,2)]) (simp_all add: encode_short kExtraBuf_def)
  then obtain x c2 s2 where "sendCommand session_sys (''QUIT'' @ [CR, LF]) ?c s1 = Some (x, c2, s2)" by auto
  then have "cl_disconnect session_sys ?c s1 = Some (c2\<lparr>sockfd := -1\<rparr>, s2)"
    using assms(2) by (simp add: cl_disconnect_def session_sys_def)
  with ping c show ?thesis by (simp add: client_main_def)
qed

theorem cli_refuses_server_witness:
  "\<exists>out s. client_main session_sys ''kv'' [] \<lparr>sockResult = 3, sockErr = [], resolved = True, accepted = True, connErr = []\<rparr>
     [''GET k''] (session_open (kv_new 16 (\<lambda>_. 1))) = Some (1, out, ''Server not responding'' @ [LF], s)"
  using cli_refuses_server [OF kv_new_inv(1)] by simp

end
