(* ===== verification/Concurrent_Service.thy ===== *)
theory Concurrent_Service
  imports KV_Server
begin

text \<open>
  Many connections on one store.  The message callbacks of connections on different loops run at the same time;
  what they share is the store, whose operations hold the mutex of the skip list, and a request is one such
  operation.  So the callbacks interleave pass by pass of the loop of \<open>KVServer::onMessage\<close>
  (\<open>src/server/kv_server.cpp\<close>), and the step relation below lets them interleave freely.
\<close>

subsection \<open>One pass of the message loop\<close>

text \<open>The first result says whether the loop goes on.\<close>

definition message_pass :: "buffer \<Rightarrow> kvstore \<Rightarrow> (bool \<times> buffer \<times> kvstore \<times> effect list) option" where
  "message_pass b st =
     (if 0 < readableBytes b then
        (case parseRequest b Request_default of
           (parsed, b1, request) \<Rightarrow>
             if \<not> parsed then Some (False, b1, st, [])
             else do {
               (st1, response) \<leftarrow> handleRequest request st;
               Some (if command request = kQuit then (False, b1, st1, [sendResponse response, Shutdown])
                     else (True, b1, st1, [sendResponse response])) })
      else Some (False, b, st, []))"

text \<open>The callback is its passes, one after the other.\<close>

lemma onMessage_pass: "onMessage b st = do {
    (go, b1, st1, es) \<leftarrow> message_pass b st;
    (if go then map_option (\<lambda>(b2, st2, es2). (b2, st2, es @ es2)) (onMessage b1 st1) else Some (b1, st1, es)) }"
  by (subst onMessage.simps) (simp add: message_pass_def split: prod.split option.split)

lemma message_pass_cases:
  assumes "buf_inv b" "kv_inv st"
  obtains (rest) b1 where "LF \<notin> set (content b)" "message_pass b st = Some (False, b1, st, [])" "buf_inv b1"
      "content b1 = content b"
    | (request) l r b1 st1 where "content b = l @ LF # r" "LF \<notin> set l" "buf_inv b1" "content b1 = r" "kv_inv st1"
      "kv_map st1 = fst (spec_request (request_of l) (kv_map st))"
      "message_pass b st = Some (command (request_of l) \<noteq> kQuit, b1, st1,
         sendResponse (snd (spec_request (request_of l) (kv_map st))) #
         (if command (request_of l) = kQuit then [Shutdown] else []))"
proof (cases rule: framing.cases_line [OF assms(1)])
  case 1
  then show ?thesis using assms(1) by (intro rest) (auto simp: message_pass_def split: prod.split)
next
  case (2 l r b1)
  obtain st1 where st1: "handleRequest (request_of l) st = Some (st1, snd (spec_request (request_of l) (kv_map st)))"
    "kv_inv st1" "kv_map st1 = fst (spec_request (request_of l) (kv_map st))"
    using assms(2) by (rule handleRequestE)
  have "0 < readableBytes b" using 2(1) assms(1) by (simp add: readable_content)
  with 2 st1 show ?thesis by (intro request [of l r b1 st1]) (auto simp: message_pass_def request_of_def)
qed

subsection \<open>Connections and their interleaving\<close>

text \<open>
  The last two fields of a connection and the history are not in the code: what has been sent to it, the bytes that have
  arrived, and the requests of all connections in the order in which they were executed.
\<close>

record client_conn =
  inQueue :: buffer
  inCallback :: bool
  replies :: "effect list"
  arrived :: string

record hub =
  conns :: "nat \<Rightarrow> client_conn"
  shared :: kvstore
  history :: "(nat \<times> Request) list"

definition hub_new :: "kvstore \<Rightarrow> hub" where
  "hub_new st = \<lparr>conns = (\<lambda>i. \<lparr>inQueue = buf_new kInitialSize, inCallback = False, replies = [], arrived = []\<rparr>),
     shared = st, history = []\<rparr>"

text \<open>A readable event of connection \<open>i\<close> brings \<open>d\<close> and starts its callback.\<close>

definition arrive :: "nat \<Rightarrow> string \<Rightarrow> hub \<Rightarrow> hub" where
  "arrive i d s = (let c = conns s i in
     s\<lparr>conns := (conns s)(i := c\<lparr>inQueue := fst (readFd (Inr d) (inQueue c)), inCallback := True, arrived := arrived c @ d\<rparr>)\<rparr>)"

text \<open>The request that a pass executes, for the history.\<close>

definition executes :: "buffer \<Rightarrow> Request list" where
  "executes b = (case parseRequest b Request_default of (parsed, b1, request) \<Rightarrow>
     if 0 < readableBytes b \<and> parsed then [request] else [])"

definition run_pass :: "nat \<Rightarrow> hub \<Rightarrow> hub option" where
  "run_pass i s = (let c = conns s i in do {
     (go, b1, st1, es) \<leftarrow> message_pass (inQueue c) (shared s);
     Some (s\<lparr>conns := (conns s)(i := c\<lparr>inQueue := b1, inCallback := go, replies := replies c @ es\<rparr>),
        shared := st1, history := history s @ map (Pair i) (executes (inQueue c))\<rparr>) })"

inductive hub_step :: "hub \<Rightarrow> hub \<Rightarrow> bool" where
  arrives: "\<not> inCallback (conns s i) \<Longrightarrow> length d \<le> kExtraBuf \<Longrightarrow> hub_step s (arrive i d s)"
| passes: "inCallback (conns s i) \<Longrightarrow> run_pass i s = Some s' \<Longrightarrow> hub_step s s'"

inductive hub_reachable :: "kvstore \<Rightarrow> hub \<Rightarrow> bool" for st where
  init: "hub_reachable st (hub_new st)"
| step: "hub_reachable st s \<Longrightarrow> hub_step s s' \<Longrightarrow> hub_reachable st s'"

subsection \<open>The sequential specification\<close>

text \<open>A history on a finite map: the final map, and the effects with the connection they belong to.\<close>

fun spec_history :: "(nat \<times> Request) list \<Rightarrow> kvmap \<Rightarrow> kvmap \<times> (nat \<times> effect) list" where
  "spec_history [] m = (m, [])"
| "spec_history ((i, r) # h) m =
     (case spec_request r m of (m1, resp) \<Rightarrow>
      case spec_history h m1 of (m2, out) \<Rightarrow>
        (m2, (i, sendResponse resp) # (if command r = kQuit then [(i, Shutdown)] else []) @ out))"

definition ofConn :: "nat \<Rightarrow> (nat \<times> 'a) list \<Rightarrow> 'a list" where
  "ofConn i xs = map snd (filter (\<lambda>p. fst p = i) xs)"

lemma ofConn_simps [simp]: "ofConn i [] = []" "ofConn i (xs @ ys) = ofConn i xs @ ofConn i ys"
  "ofConn i ((j, x) # xs) = (if j = i then x # ofConn i xs else ofConn i xs)"
  by (simp_all add: ofConn_def)

lemma spec_history_snoc:
  "spec_history h m = (m1, out) \<Longrightarrow> spec_history (h @ [(i, r)]) m =
    (fst (spec_request r m1), out @ (i, sendResponse (snd (spec_request r m1))) # (if command r = kQuit then [(i, Shutdown)] else []))"
  by (induction h m arbitrary: m1 out rule: spec_history.induct) (auto split: prod.splits)

text \<open>
  A connection against the history: its replies are its part of the sequential replies, and its part of the history is
  the complete lines taken off the bytes that arrived.
\<close>

definition conn_agrees :: "nat \<Rightarrow> (nat \<times> Request) list \<Rightarrow> (nat \<times> effect) list \<Rightarrow> client_conn \<Rightarrow> bool" where
  "conn_agrees i h out c \<longleftrightarrow> buf_inv (inQueue c) \<and> replies c = ofConn i out \<and>
     (\<exists>ls. arrived c = concat (map (\<lambda>l. l @ [LF]) ls) @ content (inQueue c) \<and> (\<forall>l \<in> set ls. LF \<notin> set l) \<and>
        ofConn i h = map request_of ls) \<and>
     (\<not> inCallback c \<and> Shutdown \<notin> set (replies c) \<longrightarrow> LF \<notin> set (content (inQueue c)))"

definition hub_inv :: "kvstore \<Rightarrow> hub \<Rightarrow> bool" where
  "hub_inv st s \<longleftrightarrow> kv_inv (shared s) \<and> (\<exists>out. spec_history (history s) (kv_map st) = (kv_map (shared s), out) \<and>
     (\<forall>i. conn_agrees i (history s) out (conns s i)))"

lemma hub_inv_new: "kv_inv st \<Longrightarrow> hub_inv st (hub_new st)"
  by (simp add: hub_inv_def hub_new_def conn_agrees_def)

lemma arrive_inv:
  assumes "hub_inv st s" "length d \<le> kExtraBuf"
  shows "hub_inv st (arrive i d s)"
proof -
  obtain out where o: "kv_inv (shared s)" "spec_history (history s) (kv_map st) = (kv_map (shared s), out)"
    "\<forall>j. conn_agrees j (history s) out (conns s j)" using assms(1) by (auto simp: hub_inv_def)
  let ?c = "conns s i"
  have c: "conn_agrees i (history s) out ?c" using o(3) by blast
  then have "buf_inv (inQueue ?c)" by (simp add: conn_agrees_def)
  moreover have "length d \<le> readCapacity (inQueue ?c)" using assms(2) by (simp add: readCapacity_def)
  ultimately obtain b where b: "fst (readFd (Inr d) (inQueue ?c)) = b" "buf_inv b" "content b = content (inQueue ?c) @ d"
    using readFd_ok by fastforce
  have "conn_agrees i (history s) out (?c\<lparr>inQueue := b, inCallback := True, arrived := arrived ?c @ d\<rparr>)"
    using c b(2,3) by (auto simp: conn_agrees_def)
  with o b(1) show ?thesis by (auto simp: hub_inv_def arrive_def Let_def)
qed

lemma executes_line: "buf_inv b \<Longrightarrow> content b = l @ LF # r \<Longrightarrow> LF \<notin> set l \<Longrightarrow> executes b = [request_of l]"
  using framing.complete [of b l r] by (auto simp: executes_def request_of_def readable_content)

lemma executes_none: "buf_inv b \<Longrightarrow> LF \<notin> set (content b) \<Longrightarrow> executes b = []"
  using framing.incomplete [of b] by (auto simp: executes_def split: prod.split)

lemma run_pass_inv:
  assumes "hub_inv st s"
  shows "\<exists>s'. run_pass i s = Some s' \<and> hub_inv st s'"
proof -
  obtain out where o: "kv_inv (shared s)" "spec_history (history s) (kv_map st) = (kv_map (shared s), out)"
    "\<forall>j. conn_agrees j (history s) out (conns s j)" using assms by (auto simp: hub_inv_def)
  let ?c = "conns s i"
  have c: "conn_agrees i (history s) out ?c" using o(3) by blast
  then have b: "buf_inv (inQueue ?c)" by (simp add: conn_agrees_def)
  from b o(1) show ?thesis
  proof (cases rule: message_pass_cases)
    case (rest b1)
    then have "conn_agrees i (history s) out (?c\<lparr>inQueue := b1, inCallback := False\<rparr>)"
      using c by (auto simp: conn_agrees_def)
    with rest o executes_none [OF b rest(1)] show ?thesis
      by (auto simp: hub_inv_def run_pass_def Let_def)
  next
    case (request l r b1 st1)
    let ?rq = "request_of l" and ?h = "history s @ [(i, request_of l)]"
    let ?es = "sendResponse (snd (spec_request ?rq (kv_map (shared s)))) # (if command ?rq = kQuit then [Shutdown] else [])"
    let ?c1 = "?c\<lparr>inQueue := b1, inCallback := command ?rq \<noteq> kQuit, replies := replies ?c @ ?es\<rparr>"
    have h: "spec_history ?h (kv_map st) = (kv_map st1, out @ map (Pair i) ?es)"
      using spec_history_snoc [OF o(2), of i ?rq] request(6) by simp
    obtain ls where ls: "arrived ?c = concat (map (\<lambda>l. l @ [LF]) ls) @ content (inQueue ?c)" "\<forall>l \<in> set ls. LF \<notin> set l"
      "ofConn i (history s) = map request_of ls" using c by (auto simp: conn_agrees_def)
    have "arrived ?c = concat (map (\<lambda>l. l @ [LF]) (ls @ [l])) @ content b1" using ls(1) request(1,4) by simp
    moreover have "\<forall>l \<in> set (ls @ [l]). LF \<notin> set l" using ls(2) request(2) by simp
    moreover have "ofConn i ?h = map request_of (ls @ [l])" using ls(3) by simp
    ultimately have "\<exists>ls. arrived ?c = concat (map (\<lambda>l. l @ [LF]) ls) @ content b1 \<and> (\<forall>l \<in> set ls. LF \<notin> set l) \<and>
        ofConn i ?h = map request_of ls" by blast
    then have "conn_agrees i ?h (out @ map (Pair i) ?es) ?c1"
      using c request(3) by (auto simp: conn_agrees_def)
    moreover have "conn_agrees j ?h (out @ map (Pair i) ?es) (conns s j)" if "j \<noteq> i" for j
      using o(3) that by (auto simp: conn_agrees_def)
    ultimately show ?thesis using request(5,7) h executes_line [OF b request(1,2)]
      by (auto simp: hub_inv_def run_pass_def Let_def)
  qed
qed

lemma hub_reachable_inv: "hub_reachable st s \<Longrightarrow> kv_inv st \<Longrightarrow> hub_inv st s"
proof (induction rule: hub_reachable.induct)
  case (step s s')
  from step(2) show ?case
  proof cases
    case (passes i)
    with run_pass_inv [of st s i] step show ?thesis by auto
  qed (use step arrive_inv in auto)
qed (simp add: hub_inv_new)

text \<open>What has been executed stays executed: the history only grows, so a reply fixes the past of every later request.\<close>

lemma history_grows: "hub_step s s' \<Longrightarrow> \<exists>h. history s' = history s @ h"
  by (erule hub_step.cases) (auto simp: arrive_def run_pass_def Let_def split: Option.bind_splits)

lemma run_pass_eq: "run_pass i s = Some s' \<Longrightarrow> \<exists>go b st es. message_pass (inQueue (conns s i)) (shared s) = Some (go, b, st, es) \<and>
    s' = s\<lparr>conns := (conns s)(i := (conns s i)\<lparr>inQueue := b, inCallback := go, replies := replies (conns s i) @ es\<rparr>),
      shared := st, history := history s @ map (Pair i) (executes (inQueue (conns s i)))\<rparr>"
  by (auto simp: run_pass_def Let_def split: Option.bind_splits)

text \<open>A callback that nobody interrupts.\<close>

lemma uninterrupted:
  assumes "hub_inv st s" "inCallback (conns s i)"
    and "onMessage (inQueue (conns s i)) (shared s) = Some (b', st', es)"
  shows "\<exists>s'. hub_step\<^sup>*\<^sup>* s s' \<and> shared s' = st' \<and> (\<forall>j. j \<noteq> i \<longrightarrow> conns s' j = conns s j) \<and>
    conns s' i = (conns s i)\<lparr>inQueue := b', inCallback := False, replies := replies (conns s i) @ es\<rparr>"
  using assms
proof (induction "length (content (inQueue (conns s i)))" arbitrary: s es rule: less_induct)
  case less
  let ?c = "conns s i"
  obtain s1 where s1: "run_pass i s = Some s1" "hub_inv st s1" using run_pass_inv [OF less.prems(1)] by blast
  then have st: "hub_step s s1" using less.prems(2) by (blast intro: passes)
  obtain go b1 st1 es1 where m: "message_pass (inQueue ?c) (shared s) = Some (go, b1, st1, es1)"
    "conns s1 = (conns s)(i := ?c\<lparr>inQueue := b1, inCallback := go, replies := replies ?c @ es1\<rparr>)" "shared s1 = st1"
    using run_pass_eq [OF s1(1)] by auto
  show ?case
  proof (cases go)
    case False
    then have "b1 = b'" "st1 = st'" "es1 = es" using less.prems(3) m(1) by (simp_all add: onMessage_pass [of "inQueue ?c"])
    with False m st show ?thesis by (intro exI [of _ s1]) auto
  next
    case True
    obtain es2 where r: "onMessage b1 st1 = Some (b', st', es2)" "es = es1 @ es2"
      using less.prems(3) m(1) True by (auto simp: onMessage_pass [of "inQueue ?c"])
    have inv: "buf_inv (inQueue ?c)" "kv_inv (shared s)" using less.prems(1) by (auto simp: hub_inv_def conn_agrees_def)
    have "length (content b1) < length (content (inQueue ?c))"
      using inv m(1) True by (cases rule: message_pass_cases) auto
    with less.hyps [of s1] m(2,3) s1(2) r(1) True obtain s2 where
      "hub_step\<^sup>*\<^sup>* s1 s2" "shared s2 = st'" "\<forall>j. j \<noteq> i \<longrightarrow> conns s2 j = conns s1 j"
      "conns s2 i = (conns s1 i)\<lparr>inQueue := b', inCallback := False, replies := replies (conns s1 i) @ es2\<rparr>" by auto
    with st m(2) r(2) show ?thesis by (intro exI [of _ s2]) auto
  qed
qed

text \<open>Two clients, for the witnesses.\<close>

definition two_arrived :: "kvstore \<Rightarrow> hub" where
  "two_arrived st = arrive 1 (''GET a'' @ [LF]) (arrive 0 (''PUT a 1'' @ [LF]) (hub_new st))"

lemma two_arrived_facts:
  assumes "kv_inv st"
  shows "hub_reachable st (two_arrived st)" "hub_inv st (two_arrived st)"
    "content (inQueue (conns (two_arrived st) 0)) = ''PUT a 1'' @ [LF]" "content (inQueue (conns (two_arrived st) 1)) = ''GET a'' @ [LF]"
    "inCallback (conns (two_arrived st) 0)" "inCallback (conns (two_arrived st) 1)"
    "history (two_arrived st) = []" "shared (two_arrived st) = st"
proof -
  have r: "hub_reachable st (arrive 0 (''PUT a 1'' @ [LF]) (hub_new st))"
    by (rule hub_reachable.step [OF hub_reachable.init arrives]) (simp_all add: hub_new_def kExtraBuf_def)
  show r2: "hub_reachable st (two_arrived st)" unfolding two_arrived_def
    by (rule hub_reachable.step [OF r arrives]) (simp_all add: hub_new_def arrive_def kExtraBuf_def Let_def)
  show "hub_inv st (two_arrived st)" by (rule hub_reachable_inv [OF r2 assms])
  have b: "content (fst (readFd (Inr d) (buf_new kInitialSize))) = d" if "length d \<le> kExtraBuf" for d
  proof -
    have "length d \<le> readCapacity (buf_new kInitialSize)" using that by (simp add: readCapacity_def)
    from readFd_ok [OF buf_new_inv(1) this] show ?thesis by auto
  qed
  show "content (inQueue (conns (two_arrived st) 0)) = ''PUT a 1'' @ [LF]" "content (inQueue (conns (two_arrived st) 1)) = ''GET a'' @ [LF]"
    by (simp_all add: two_arrived_def arrive_def hub_new_def b kExtraBuf_def Let_def)
  show "inCallback (conns (two_arrived st) 0)" "inCallback (conns (two_arrived st) 1)"
    "history (two_arrived st) = []" "shared (two_arrived st) = st"
    by (simp_all add: two_arrived_def arrive_def hub_new_def Let_def)
qed

lemma two_requests: "request_of ''PUT a 1'' = mkRequest kPut ''a'' ''1''" "request_of ''GET a'' = mkRequest kGet ''a'' []"
  by code_simp+

subsection \<open>Properties\<close>

text \<open>
  C10: clients on different threads are served as if one after the other: under any interleaving of their callbacks there
  is one order of all requests executed so far, in which every connection's requests are the lines it sent, in its order, such
  that the store is what the finite map becomes and every connection has received exactly its part of the replies; and no
  callback is ever stuck.
\<close>

theorem concurrent_clients_serialize:
  assumes "hub_reachable st s" "kv_inv st"
  shows "\<exists>out. spec_history (history s) (kv_map st) = (kv_map (shared s), out) \<and>
    (\<forall>i. replies (conns s i) = ofConn i out \<and>
      (\<exists>ls. arrived (conns s i) = concat (map (\<lambda>l. l @ [LF]) ls) @ content (inQueue (conns s i)) \<and>
        (\<forall>l \<in> set ls. LF \<notin> set l) \<and> ofConn i (history s) = map request_of ls)) \<and>
    (\<forall>i. inCallback (conns s i) \<longrightarrow> (\<exists>s'. run_pass i s = Some s' \<and> hub_step s s'))"
proof -
  have inv: "hub_inv st s" using assms by (rule hub_reachable_inv)
  then have "\<forall>i. inCallback (conns s i) \<longrightarrow> (\<exists>s'. run_pass i s = Some s' \<and> hub_step s s')"
    using run_pass_inv passes by blast
  with inv show ?thesis by (auto simp: hub_inv_def conn_agrees_def)
qed

theorem concurrent_clients_serialize_witness:
  "\<exists>s. hub_reachable (kv_new 16 (\<lambda>_. 1)) s \<and> history s = [(0, mkRequest kPut ''a'' ''1''), (1, mkRequest kGet ''a'' [])] \<and>
     replies (conns s 1) = [Send (''+OK 1'' @ [CR, LF])] \<and> kv_map (shared s) = [''a'' \<mapsto> ''1'']"
proof -
  let ?st = "kv_new 16 (\<lambda>_. 1)" and ?s = "two_arrived (kv_new 16 (\<lambda>_. 1))"
  note f = two_arrived_facts [OF kv_new_inv(1), of 16 "\<lambda>_. 1"]
  obtain s1 where s1: "run_pass 0 ?s = Some s1" "hub_inv ?st s1" using run_pass_inv [OF f(2)] by blast
  obtain s2 where s2: "run_pass 1 s1 = Some s2" using run_pass_inv [OF s1(2)] by blast
  from run_pass_eq [OF s1(1)] have e1: "conns s1 1 = conns ?s 1" "history s1 = map (Pair 0) (executes (inQueue (conns ?s 0)))"
    using f(7) by auto
  from run_pass_eq [OF s2] have e2: "history s2 = history s1 @ map (Pair 1) (executes (inQueue (conns s1 1)))" by auto
  have b: "buf_inv (inQueue (conns ?s 0))" "buf_inv (inQueue (conns ?s 1))" using f(2) by (auto simp: hub_inv_def conn_agrees_def)
  have h: "history s2 = [(0, mkRequest kPut ''a'' ''1''), (1, mkRequest kGet ''a'' [])]"
    using executes_line [OF b(1), of "''PUT a 1''" "[]"] executes_line [OF b(2), of "''GET a''" "[]"] f(3,4)
    by (simp add: e2 e1 e1 [simplified] two_requests)
  have r1: "hub_reachable ?st s1" by (rule hub_reachable.step [OF f(1) passes [OF f(5) s1(1)]])
  have "inCallback (conns s1 1)" using e1(1) f(6) by simp
  from hub_reachable.step [OF r1 passes [OF this s2]] have r: "hub_reachable ?st s2" .
  have "encodeResponse (resp_ok ''1'') = ''+OK 1'' @ [CR, LF]" by code_simp
  with concurrent_clients_serialize [OF r kv_new_inv(1)] h r show ?thesis
    by (intro exI [of _ s2]) (auto simp: spec_request_def mkRequest_def sendResponse_def)
qed



end
