(* ===== verification/Request_Types.thy ===== *)
theory Request_Types
  imports KV_Server
begin

text \<open>
  What requests and stored pairs look like: the types that the protocol of \<open>src/protocol/codec.h\<close> gives to what
  comes from the network, kept by the store of the server.
\<close>

subsection \<open>Well-formed requests and maps\<close>

definition word_key :: "string \<Rightarrow> bool" where
  "word_key k \<longleftrightarrow> k \<noteq> [] \<and> (\<forall>c \<in> set k. \<not> isspace c)"

definition line_value :: "string \<Rightarrow> bool" where
  "line_value v \<longleftrightarrow> v \<noteq> [] \<and> \<not> isspace (hd v) \<and> LF \<notin> set v"

definition wf_request :: "Request \<Rightarrow> bool" where
  "wf_request r \<longleftrightarrow>
     (case command r of
        kPut \<Rightarrow> word_key (req_key r) \<and> line_value (req_value r)
      | kGet \<Rightarrow> word_key (req_key r) \<and> req_value r = []
      | kDel \<Rightarrow> word_key (req_key r) \<and> req_value r = []
      | kExists \<Rightarrow> word_key (req_key r) \<and> req_value r = []
      | _ \<Rightarrow> req_key r = [] \<and> req_value r = [])"

definition wf_map :: "kvmap \<Rightarrow> bool" where
  "wf_map m \<longleftrightarrow> (\<forall>k v. m k = Some v \<longrightarrow> word_key k \<and> line_value v)"

subsection \<open>The value of a PUT is never empty\<close>

lemma split_step: "split s = (let t = dropWhile isspace s in if t = [] then []
    else takeWhile (\<lambda>c. \<not> isspace c) t # split (dropWhile (\<lambda>c. \<not> isspace c) t))"
  by (subst split.simps) (simp only: Let_def)

lemma split_ConsE:
  assumes "split s = w # ws"
  obtains p r where "s = p @ w @ r" "split r = ws"
proof -
  let ?t = "dropWhile isspace s"
  have t: "?t \<noteq> []" "w = takeWhile (\<lambda>c. \<not> isspace c) ?t" "split (dropWhile (\<lambda>c. \<not> isspace c) ?t) = ws"
    using assms by (simp_all add: split_step [of s] Let_def split: if_splits)
  have "s = takeWhile isspace s @ w @ dropWhile (\<lambda>c. \<not> isspace c) ?t" by (simp add: t(2))
  with t(3) show thesis by (rule that [rotated])
qed

lemma put_rest:
  assumes "split s = w # k # v # ws"
  obtains p r where "s = p @ k @ r" "\<exists>c \<in> set r. \<not> isspace c"
proof -
  obtain p1 r1 where 1: "s = p1 @ w @ r1" "split r1 = k # v # ws" using assms by (rule split_ConsE)
  obtain p2 r2 where 2: "r1 = p2 @ k @ r2" "split r2 = v # ws" using 1(2) by (rule split_ConsE)
  have "set v \<subseteq> set r2" "v \<noteq> []" "\<forall>c \<in> set v. \<not> isspace c"
    using split_subset [of v r2] split_words [of v r2] 2(2) by simp_all
  then have "\<exists>c \<in> set r2. \<not> isspace c" by (cases v) auto
  with 1(1) 2(1) show thesis by (intro that [of "p1 @ w @ p2" r2]) simp_all
qed

lemma str_find_before_occurrence:
  assumes "s = p @ k @ r"
  obtains i where "str_find k s = Some i" "i \<le> length p"
proof -
  have o: "take (length k) (drop (length p) s) = k" by (simp add: assms)
  have "str_find k s \<noteq> None"
  proof
    assume "str_find k s = None"
    then have "\<forall>j \<le> length s. take (length k) (drop j s) \<noteq> k" by (simp only: str_find_None)
    moreover have "length p \<le> length s" by (simp add: assms)
    ultimately show False using o by blast
  qed
  then obtain i where i: "str_find k s = Some i" by blast
  have "\<not> length p < i" using str_find_first [OF i, of "length p"] o by blast
  then have "i \<le> length p" by simp
  with i show thesis by (rule that)
qed

lemma put_value_line:
  assumes "split s = w # k # v # ws" "LF \<notin> set s"
  shows "line_value (drop (skipSpaces s (findPos k s + length k)) s)"
proof -
  obtain p r where r: "s = p @ k @ r" "\<exists>c \<in> set r. \<not> isspace c" using assms(1) by (rule put_rest)
  obtain i where i: "str_find k s = Some i" "i \<le> length p" using r(1) by (rule str_find_before_occurrence)
  have le: "i + length k \<le> length s" using str_find_Some [OF i(1)] by simp
  have eq: "drop (skipSpaces s (findPos k s + length k)) s = dropWhile isspace (drop (i + length k) s)"
    using skipSpaces_eq [OF le] by (simp add: findPos_def i(1))
  have "drop (i + length k) s = drop (i + length k) (p @ k) @ r" using i(2) by (simp add: r(1))
  then have "\<exists>c \<in> set (drop (i + length k) s). \<not> isspace c" using r(2) by auto
  then have "dropWhile isspace (drop (i + length k) s) \<noteq> []" by (simp add: dropWhile_eq_Nil_conv)
  moreover from this have "\<not> isspace (hd (dropWhile isspace (drop (i + length k) s)))" by (rule hd_dropWhile)
  moreover have "LF \<notin> set (dropWhile isspace (drop (i + length k) s))" using assms(2) by (auto dest: set_dropWhileD in_set_dropD)
  ultimately show ?thesis by (simp add: line_value_def eq)
qed

lemma length_3E: "3 \<le> length xs \<Longrightarrow> \<exists>a b c ys. xs = a # b # c # ys"
  by (cases xs; cases "tl xs"; cases "tl (tl xs)") auto

lemma word_of_split: "Suc 0 < length (split s) \<Longrightarrow> word_key (split s ! Suc 0)"
  using split_words [of "split s ! Suc 0" s] by (simp add: word_key_def)

lemma parseLine_wf:
  assumes "LF \<notin> set s"
  shows "wf_request (parseLine s Request_default)"
proof -
  have d: "command Request_default = kUnknown" "req_key Request_default = []" "req_value Request_default = []"
    by (simp_all add: Request_default_def)
  have k: "wf_request (keyCommand cmd (split s) Request_default)" if "cmd \<in> {kGet, kDel, kExists}" for cmd
    using that word_of_split [of s] by (auto simp: keyCommand_def wf_request_def d)
  have p: "wf_request (putCommand s (split s) Request_default)"
  proof (cases "3 \<le> length (split s)")
    case True
    then obtain w q v ws where sp: "split s = w # q # v # ws" using length_3E by blast
    have "word_key q" using split_words [of q s] by (simp add: sp word_key_def)
    with put_value_line [OF sp assms] show ?thesis by (simp add: putCommand_def sp wf_request_def Let_def)
  qed (simp add: putCommand_def wf_request_def d)
  have b: "wf_request (Request_default\<lparr>command := cmd\<rparr>)" if "cmd \<in> {kSize, kClear, kPing, kQuit, kUnknown}" for cmd
    using that by (auto simp: wf_request_def d)
  show ?thesis using p k b by (simp add: parseLine_def Let_def)
qed

lemma request_of_wf: "LF \<notin> set l \<Longrightarrow> wf_request (request_of l)"
  using set_lineText [of l] by (auto simp: request_of_def intro: parseLine_wf)

lemma spec_request_wf: "wf_map m \<Longrightarrow> wf_request r \<Longrightarrow> wf_map (fst (spec_request r m))"
  by (auto simp: wf_map_def wf_request_def spec_request_def Let_def split: CommandType.splits if_splits)

lemma serve_wf: "serve s m = (r, m', es) \<Longrightarrow> wf_map m \<Longrightarrow> wf_map m'"
proof (induction "length s" arbitrary: s m es rule: less_induct)
  case less
  show ?case
  proof (cases "LF \<in> set s")
    case True
    then obtain l s' where s: "s = l @ LF # s'" "LF \<notin> set l" by (meson split_list_first)
    obtain m1 resp where sp: "spec_request (request_of l) m = (m1, resp)" by (cases "spec_request (request_of l) m")
    have m1: "wf_map m1" using spec_request_wf [OF less.prems(2) request_of_wf [OF s(2)]] sp by simp
    show ?thesis
    proof (cases "command (request_of l) = kQuit")
      case True
      with less.prems(1) serve_line [OF s(2) sp, of s'] s(1) m1 show ?thesis by auto
    next
      case False
      with less.prems(1) serve_line [OF s(2) sp, of s'] s(1) obtain es' where
        "serve s' m1 = (r, m', es')" by (auto split: prod.splits)
      with less.hyps [of s' m1 es'] m1 s(1) show ?thesis by simp
    qed
  qed (use less.prems in \<open>simp add: serve_stop\<close>)
qed

subsection \<open>Properties\<close>

text \<open>
  C12: whatever bytes the network delivers, every request taken off them is well formed (a key is one non-empty word, a value
  to be stored is a non-empty line that does not start with white space, other commands carry neither), and a store that
  held only such pairs still does after the message callback.
\<close>

theorem network_data_typed:
  assumes "buf_inv b" "kv_inv st" "wf_map (kv_map st)"
  shows "(\<forall>b' q. parseRequest b Request_default = (True, b', q) \<longrightarrow> wf_request q) \<and>
    (\<exists>b' st' es. onMessage b st = Some (b', st', es) \<and> kv_inv st' \<and> wf_map (kv_map st'))"
proof (intro conjI allI impI)
  fix b' q assume q: "parseRequest b Request_default = (True, b', q)"
  from assms(1) show "wf_request q"
  proof (cases rule: framing.cases_line)
    case (line l r b1)
    with q request_of_wf [of l] show ?thesis by (simp add: request_of_def)
  qed (use q in simp)
next
  from onMessage_spec [OF assms(1,2)] serve_wf [OF _ assms(3)]
  show "\<exists>b' st' es. onMessage b st = Some (b', st', es) \<and> kv_inv st' \<and> wf_map (kv_map st')" by blast
qed

theorem network_data_typed_witness:
  "\<exists>b' st' es. onMessage (append_bytes (''PUT T 5'' @ [LF]) (buf_new 64)) (kv_new 16 (\<lambda>_. 1)) = Some (b', st', es) \<and>
     wf_map (kv_map st')"
proof -
  have "buf_inv (append_bytes (''PUT T 5'' @ [LF]) (buf_new 64))"
    using append_bytes_inv [of "buf_new 64" "''PUT T 5'' @ [LF]"] by simp
  moreover have "wf_map (kv_map (kv_new 16 (\<lambda>_. 1)))" by (simp add: wf_map_def)
  ultimately show ?thesis using network_data_typed [OF _ kv_new_inv(1)] by blast
qed

end
