(* ===== verification/Reactor.thy ===== *)
theory Reactor
  imports Channel_Poller Event_Loop
begin

text \<open>
  \<open>EventLoop\<close> (\<open>src/net/eventloop.cpp\<close>) put together: the poller and the channels of \<open>Channel_Poller\<close>, the functor
  queue of \<open>Event_Loop\<close>, the thread it belongs to, and whole rounds of \<open>loop()\<close>.  What a handler or functor does
  in a round (queue functors, quit, change the events of channels) is an argument of the round, like the result of
  \<open>epoll_wait\<close>.
\<close>

subsection \<open>The object\<close>

text \<open>\<open>calls\<close> is not in the code: the handlers and functors called, in order.\<close>

datatype 'f call = HandlerCall nat handler | FunctorCall 'f

record ('f, 'k) reactor =
  theLoop :: "'f loop"
  threadId :: int
  rpoller :: "'k poller"
  wakeupChannel :: nat
  chansOf :: "nat \<Rightarrow> channel"
  evHandling :: bool
  activeChannels :: "nat list"
  currentActive :: "nat option"
  calls :: "'f call list"

text \<open>
  \<open>evtfd\<close> is the result of \<open>eventfd\<close>, \<open>wa\<close> the address of the wakeup channel, \<open>chans\<close> the channels there are.
\<close>

definition evloop_new :: "'k epoll_ctl \<Rightarrow> int \<Rightarrow> int \<Rightarrow> nat \<Rightarrow> (nat \<Rightarrow> channel) \<Rightarrow> 'k \<Rightarrow> ('f, 'k) reactor option" where
  "evloop_new ctl tid evtfd wa chans k =
     (if evtfd < 0 then None
      else map_option (\<lambda>(c, p). \<lparr>theLoop = loop_new, threadId = tid, rpoller = p, wakeupChannel = wa, chansOf = chans(wa := c),
          evHandling = False, activeChannels = [], currentActive = None, calls = []\<rparr>)
        (enableReading ctl ((channel_new wa evtfd)\<lparr>hasReadCb := True\<rparr>) (poller_new k)))"

definition evloop_dtor :: "'k epoll_ctl \<Rightarrow> ('f, 'k) reactor \<Rightarrow> ('f, 'k) reactor option" where
  "evloop_dtor ctl s = do {
     (c1, p1) \<leftarrow> disableAll ctl (chansOf s (wakeupChannel s)) (rpoller s);
     (c2, p2) \<leftarrow> chan_remove ctl c1 p1;
     Some (s\<lparr>rpoller := p2, chansOf := (chansOf s)(wakeupChannel s := c2)\<rparr>) }"

definition isInLoopThread :: "int \<Rightarrow> ('f, 'k) reactor \<Rightarrow> bool" where
  "isInLoopThread current s \<longleftrightarrow> threadId s = current"

text \<open>A wrong thread aborts the process.\<close>

definition assertInLoopThread :: "int \<Rightarrow> ('f, 'k) reactor \<Rightarrow> ('f, 'k) reactor option" where
  "assertInLoopThread current s = (if isInLoopThread current s then Some s else None)"

text \<open>\<open>updateChannel\<close> and \<open>removeChannel\<close> pass a channel to the poller; so channel changes go through the loop.\<close>

definition change_channel :: "'k epoll_ctl \<Rightarrow> nat \<Rightarrow> chan_op \<Rightarrow> ('f, 'k) reactor \<Rightarrow> ('f, 'k) reactor option" where
  "change_channel ctl a oper s =
     map_option (\<lambda>(c, p). s\<lparr>chansOf := (chansOf s)(a := c), rpoller := p\<rparr>) (chan_step ctl oper (chansOf s a) (rpoller s))"

definition loop_hasChannel :: "nat \<Rightarrow> ('f, 'k) reactor \<Rightarrow> bool" where
  "loop_hasChannel a s = hasChannel (chansOf s a) (rpoller s)"

subsection \<open>One loop per thread\<close>

text \<open>\<open>t_loopInThisThread\<close> of every thread, and the loops that exist, by address.\<close>

record ('f, 'k) process =
  loopInThread :: "int \<Rightarrow> nat option"
  loopAt :: "nat \<Rightarrow> ('f, 'k) reactor option"

definition create_loop :: "'k epoll_ctl \<Rightarrow> int \<Rightarrow> nat \<Rightarrow> int \<Rightarrow> nat \<Rightarrow> (nat \<Rightarrow> channel) \<Rightarrow> 'k \<Rightarrow> ('f, 'k) process \<Rightarrow> ('f, 'k) process option" where
  "create_loop ctl tid a evtfd wa chans k s =
     (if loopInThread s tid \<noteq> None then None
      else map_option (\<lambda>r. s\<lparr>loopInThread := (loopInThread s)(tid \<mapsto> a), loopAt := (loopAt s)(a \<mapsto> r)\<rparr>)
        (evloop_new ctl tid evtfd wa chans k))"

definition destroy_loop :: "'k epoll_ctl \<Rightarrow> int \<Rightarrow> nat \<Rightarrow> ('f, 'k) process \<Rightarrow> ('f, 'k) process option" where
  "destroy_loop ctl tid a s = do {
     r \<leftarrow> loopAt s a;
     r' \<leftarrow> evloop_dtor ctl r;
     Some (s\<lparr>loopInThread := (loopInThread s)(tid := None), loopAt := (loopAt s)(a := None)\<rparr>) }"

definition getEventLoopOfCurrentThread :: "int \<Rightarrow> ('f, 'k) process \<Rightarrow> nat option" where
  "getEventLoopOfCurrentThread tid s = loopInThread s tid"

subsection \<open>One round of \<open>loop()\<close>\<close>

text \<open>What handlers and functors do to the loop that runs them.\<close>

datatype 'f act = Post 'f | AskQuit | Change nat chan_op

fun perform :: "'k epoll_ctl \<Rightarrow> 'f act \<Rightarrow> ('f, 'k) reactor \<Rightarrow> ('f, 'k) reactor option" where
  "perform ctl (Post f) s = Some (s\<lparr>theLoop := queueInLoop True f (theLoop s)\<rparr>)"
| "perform ctl AskQuit s = Some (s\<lparr>theLoop := quitLoop True (theLoop s)\<rparr>)"
| "perform ctl (Change a oper) s = change_channel ctl a oper s"

fun perform_all :: "'k epoll_ctl \<Rightarrow> 'f act list \<Rightarrow> ('f, 'k) reactor \<Rightarrow> ('f, 'k) reactor option" where
  "perform_all ctl [] s = Some s"
| "perform_all ctl (x # xs) s = Option.bind (perform ctl x s) (perform_all ctl xs)"

text \<open>
  What happens in a round: the result of \<open>epoll_wait\<close>, which tied objects are alive, what each handler does,
  and what the functor number \<open>i\<close> does.
\<close>

record 'f round_in =
  readyEvents :: "(nat \<times> 32 word) list"
  ownerAlive :: "nat \<Rightarrow> bool"
  handlerActs :: "nat \<Rightarrow> handler \<Rightarrow> 'f act list"
  functorActs :: "nat \<Rightarrow> 'f act list"

text \<open>The read handler of the wakeup channel is the loop's own \<open>handleRead\<close>.\<close>

definition call_handler :: "'k epoll_ctl \<Rightarrow> 'f round_in \<Rightarrow> nat \<Rightarrow> handler \<Rightarrow> ('f, 'k) reactor \<Rightarrow> ('f, 'k) reactor option" where
  "call_handler ctl x a h s =
     (let s1 = s\<lparr>calls := calls s @ [HandlerCall a h]\<rparr> in
      if a = wakeupChannel s \<and> h = ReadCb then Some (s1\<lparr>theLoop := wakeupRead (theLoop s1)\<rparr>)
      else perform_all ctl (handlerActs x a h) s1)"

fun call_handlers :: "'k epoll_ctl \<Rightarrow> 'f round_in \<Rightarrow> nat \<Rightarrow> handler list \<Rightarrow> ('f, 'k) reactor \<Rightarrow> ('f, 'k) reactor option" where
  "call_handlers ctl x a [] s = Some s"
| "call_handlers ctl x a (h # hs) s = Option.bind (call_handler ctl x a h s) (call_handlers ctl x a hs)"

fun dispatch :: "'k epoll_ctl \<Rightarrow> 'f round_in \<Rightarrow> nat list \<Rightarrow> ('f, 'k) reactor \<Rightarrow> ('f, 'k) reactor option" where
  "dispatch ctl x [] s = Some s"
| "dispatch ctl x (a # active) s =
     Option.bind (call_handlers ctl x a (handleEvent (ownerAlive x a) (chansOf s a)) (s\<lparr>currentActive := Some a\<rparr>))
       (dispatch ctl x active)"

text \<open>\<open>i\<close> counts the functors of the round.\<close>

fun run_functors :: "'k epoll_ctl \<Rightarrow> 'f round_in \<Rightarrow> nat \<Rightarrow> 'f list \<Rightarrow> ('f, 'k) reactor \<Rightarrow> ('f, 'k) reactor option" where
  "run_functors ctl x i [] s = Some s"
| "run_functors ctl x i (f # fs) s =
     Option.bind (perform_all ctl (functorActs x i)
         (s\<lparr>theLoop := (theLoop s)\<lparr>place := Running fs, executed := executed (theLoop s) @ [f]\<rparr>, calls := calls s @ [FunctorCall f]\<rparr>))
       (run_functors ctl x (Suc i) fs)"

definition loop_round :: "'k epoll_ctl \<Rightarrow> 'f round_in \<Rightarrow> ('f, 'k) reactor \<Rightarrow> ('f, 'k) reactor option" where
  "loop_round ctl x s =
     (case poll (readyEvents x) (chansOf s) (rpoller s) of (chans, active, p) \<Rightarrow> do {
        s1 \<leftarrow> dispatch ctl x active (s\<lparr>chansOf := chans, rpoller := p, activeChannels := active, evHandling := True,
                theLoop := (theLoop s)\<lparr>place := Handling\<rparr>\<rparr>);
        (case takePending (theLoop s1) of (fs, l) \<Rightarrow> do {
           s2 \<leftarrow> run_functors ctl x 0 fs (s1\<lparr>currentActive := None, evHandling := False,
                   theLoop := l\<lparr>place := Running fs, early := False\<rparr>\<rparr>);
           Some (s2\<lparr>theLoop := (theLoop s2)\<lparr>place := Check, callingPending := False\<rparr>\<rparr>) }) })"

text \<open>The loop on the rounds that happen: None when it is still waiting after them.\<close>

fun loop_rounds :: "'k epoll_ctl \<Rightarrow> 'f round_in list \<Rightarrow> ('f, 'k) reactor \<Rightarrow> ('f, 'k) reactor option" where
  "loop_rounds ctl xs s =
     (if quit (theLoop s) then Some (s\<lparr>theLoop := (theLoop s)\<lparr>place := Stopped, looping := False\<rparr>\<rparr>)
      else case xs of [] \<Rightarrow> None
        | x # xs' \<Rightarrow> Option.bind (loop_round ctl x (s\<lparr>theLoop := (theLoop s)\<lparr>place := Poll\<rparr>\<rparr>)) (loop_rounds ctl xs'))"

definition evloop_loop :: "'k epoll_ctl \<Rightarrow> 'f round_in list \<Rightarrow> ('f, 'k) reactor \<Rightarrow> ('f, 'k) reactor option" where
  "evloop_loop ctl xs s = loop_rounds ctl xs (s\<lparr>theLoop := (theLoop s)\<lparr>place := Check, looping := True, quit := False\<rparr>\<rparr>)"

text \<open>Threads create loops, run them, and destroy the loops they have created.\<close>

inductive proc_reachable :: "'k epoll_ctl \<Rightarrow> 'k \<Rightarrow> ('f, 'k) process \<Rightarrow> bool" for ctl k where
  none: "proc_reachable ctl k \<lparr>loopInThread = Map.empty, loopAt = Map.empty\<rparr>"
| create: "proc_reachable ctl k s \<Longrightarrow> loopAt s a = None \<Longrightarrow> create_loop ctl tid a evtfd wa chans k s = Some s' \<Longrightarrow>
    proc_reachable ctl k s'"
| destroy: "proc_reachable ctl k s \<Longrightarrow> loopAt s a = Some r \<Longrightarrow> destroy_loop ctl (threadId r) a s = Some s' \<Longrightarrow>
    proc_reachable ctl k s'"
| works: "proc_reachable ctl k s \<Longrightarrow> loopAt s a = Some r \<Longrightarrow> loop_round ctl x r = Some r' \<Longrightarrow>
    proc_reachable ctl k (s\<lparr>loopAt := (loopAt s)(a \<mapsto> r')\<rparr>)"

subsection \<open>What a round does\<close>

text \<open>The effects on the functor queue and the wakeups, as a list.\<close>

datatype 'f loop_op = OpPost 'f | OpQuit | OpWakeup

fun apply_op :: "'f loop_op \<Rightarrow> 'f loop \<Rightarrow> 'f loop" where
  "apply_op (OpPost f) l = queueInLoop True f l"
| "apply_op OpQuit l = quitLoop True l"
| "apply_op OpWakeup l = wakeupRead l"

fun act_ops :: "'f act \<Rightarrow> 'f loop_op list" where
  "act_ops (Post f) = [OpPost f]"
| "act_ops AskQuit = [OpQuit]"
| "act_ops (Change a oper) = []"

fun posted :: "'f loop_op list \<Rightarrow> 'f list" where
  "posted [] = []"
| "posted (OpPost f # os) = f # posted os"
| "posted (x # os) = posted os"

definition call_ops :: "'f round_in \<Rightarrow> nat \<Rightarrow> nat \<Rightarrow> handler \<Rightarrow> 'f loop_op list" where
  "call_ops x wa a h = (if a = wa \<and> h = ReadCb then [OpWakeup] else concat (map act_ops (handlerActs x a h)))"

text \<open>The handlers of a ready channel, what a round does to the loop before its functors, and the functors.\<close>

definition handlersOf :: "'f round_in \<Rightarrow> ('f, 'k) reactor \<Rightarrow> nat \<Rightarrow> 32 word \<Rightarrow> handler list" where
  "handlersOf x s a ev = handleEvent (ownerAlive x a) ((chansOf s a)\<lparr>revents := ev\<rparr>)"

definition round_ops :: "'f round_in \<Rightarrow> ('f, 'k) reactor \<Rightarrow> 'f loop_op list" where
  "round_ops x s = concat (map (\<lambda>(a, ev). concat (map (call_ops x (wakeupChannel s) a) (handlersOf x s a ev))) (readyEvents x))"

fun run_loop :: "'f round_in \<Rightarrow> nat \<Rightarrow> 'f list \<Rightarrow> 'f loop \<Rightarrow> 'f loop" where
  "run_loop x i [] l = l"
| "run_loop x i (f # fs) l = run_loop x (Suc i) fs
     (fold apply_op (concat (map act_ops (functorActs x i))) (l\<lparr>place := Running fs, executed := executed l @ [f]\<rparr>))"

definition round_loop :: "'f round_in \<Rightarrow> ('f, 'k) reactor \<Rightarrow> 'f loop" where
  "round_loop x s =
     (let l = fold apply_op (round_ops x s) ((theLoop s)\<lparr>place := Handling\<rparr>) in
      (run_loop x 0 (pending l) (l\<lparr>callingPending := True, pending := [], place := Running (pending l), early := False\<rparr>))
        \<lparr>place := Check, callingPending := False\<rparr>)"

lemma apply_op_fields: "pending (apply_op x l) = pending l @ posted [x]" "place (apply_op x l) = place l"
  "callingPending (apply_op x l) = callingPending l"
  by (cases x; simp add: loop_defs Let_def)+

lemma posted_append [simp]: "posted (xs @ ys) = posted xs @ posted ys"
  by (induction xs rule: posted.induct) simp_all

lemma fold_ops [simp]: "pending (fold apply_op xs l) = pending l @ posted xs" "place (fold apply_op xs l) = place l"
  "callingPending (fold apply_op xs l) = callingPending l"
proof -
  have "pending (fold apply_op xs l) = pending l @ posted xs \<and> place (fold apply_op xs l) = place l \<and>
      callingPending (fold apply_op xs l) = callingPending l"
  proof (induction xs arbitrary: l)
    case (Cons x xs)
    have "posted (x # xs) = posted [x] @ posted xs" using posted_append [of "[x]" xs] by simp
    with Cons [of "apply_op x l"] show ?case by (simp add: apply_op_fields del: posted.simps)
  qed simp
  then show "pending (fold apply_op xs l) = pending l @ posted xs" "place (fold apply_op xs l) = place l"
    "callingPending (fold apply_op xs l) = callingPending l" by simp_all
qed

text \<open>Every channel is registered as it says, under its own address and a descriptor of its own.\<close>

definition reactor_ok :: "('k \<Rightarrow> int \<Rightarrow> (32 word \<times> nat) option) \<Rightarrow> ('f, 'k) reactor \<Rightarrow> bool" where
  "reactor_ok view s \<longleftrightarrow> (\<forall>a. chan_ok view (chansOf s a) (rpoller s) \<and> cid (chansOf s a) = a) \<and>
     (\<forall>a b. fd (chansOf s a) = fd (chansOf s b) \<longrightarrow> a = b)"

text \<open>Nothing that handlers do changes what is dispatched.\<close>

definition same_dispatch :: "('f, 'k) reactor \<Rightarrow> ('f, 'k) reactor \<Rightarrow> bool" where
  "same_dispatch s s' \<longleftrightarrow> wakeupChannel s' = wakeupChannel s \<and>
     (\<forall>al a. handleEvent al (chansOf s' a) = handleEvent al (chansOf s a))"

lemma same_dispatch_refl [simp]: "same_dispatch s s"
  by (simp add: same_dispatch_def)

lemma same_dispatch_trans: "same_dispatch s s' \<Longrightarrow> same_dispatch s' s'' \<Longrightarrow> same_dispatch s s''"
  by (simp add: same_dispatch_def)

lemma reactor_ok_cong: "chansOf s' = chansOf s \<Longrightarrow> rpoller s' = rpoller s \<Longrightarrow> reactor_ok view s' \<longleftrightarrow> reactor_ok view s"
  by (simp add: reactor_ok_def)

lemma chan_ok_frame: "kernel p' = k \<Longrightarrow> view k (fd c) = view (kernel p) (fd c) \<Longrightarrow> channels p' (fd c) = channels p (fd c) \<Longrightarrow>
    chan_ok view c p' \<longleftrightarrow> chan_ok view c p"
  by (simp add: chan_ok_def hasChannel_def)

lemma fillActive:
  "distinct (map fst ready) \<Longrightarrow> \<exists>chans'. fillActiveChannels ready chans = (chans', map fst ready) \<and>
    (\<forall>a. chans' a = (case map_of ready a of None \<Rightarrow> chans a | Some ev \<Rightarrow> (chans a)\<lparr>revents := ev\<rparr>))"
proof (induction ready arbitrary: chans)
  case (Cons r ready)
  obtain a ev where r: "r = (a, ev)" by (cases r)
  have n: "map_of ready a = None" using Cons.prems r by (force simp: map_of_eq_None_iff)
  define ch where "ch = chans(a := (chans a)\<lparr>revents := ev\<rparr>)"
  obtain chans' where c: "fillActiveChannels ready ch = (chans', map fst ready)"
    "\<And>b. chans' b = (case map_of ready b of None \<Rightarrow> ch b | Some ev \<Rightarrow> (ch b)\<lparr>revents := ev\<rparr>)"
    using Cons.IH [of ch] Cons.prems by auto
  have "chans' b = (case map_of (r # ready) b of None \<Rightarrow> chans b | Some ev \<Rightarrow> (chans b)\<lparr>revents := ev\<rparr>)" for b
    using c(2) [of b] n by (cases "b = a") (simp_all add: r ch_def split: option.split)
  with c(1) show ?case by (simp add: r ch_def)
qed simp

lemma poll_result:
  assumes "distinct (map fst ready)"
  obtains chans' p' where "poll ready chans p = (chans', map fst ready, p')" "kernel p' = kernel p" "channels p' = channels p"
    "\<And>a. chans' a = (case map_of ready a of None \<Rightarrow> chans a | Some ev \<Rightarrow> (chans a)\<lparr>revents := ev\<rparr>)"
proof -
  obtain chans' where c: "fillActiveChannels ready chans = (chans', map fst ready)"
    "\<forall>a. chans' a = (case map_of ready a of None \<Rightarrow> chans a | Some ev \<Rightarrow> (chans a)\<lparr>revents := ev\<rparr>)"
    using fillActive [OF assms, of chans] by blast
  show thesis
  proof (cases "ready = []")
    case True
    then show ?thesis by (intro that [of chans p]) (simp_all add: poll_def)
  next
    case False
    with c show ?thesis
      by (intro that [of chans' "if length ready = evCapacity p then p\<lparr>evCapacity := evCapacity p * 2\<rparr> else p"])
        (simp_all add: poll_def)
  qed
qed

context epoll_kernel
begin

lemma change_channel_ok:
  assumes "reactor_ok view s"
  shows "\<exists>s'. change_channel ctl a oper s = Some s' \<and> reactor_ok view s' \<and> same_dispatch s s' \<and> theLoop s' = theLoop s \<and> calls s' = calls s"
proof -
  let ?c = "chansOf s a"
  have ok: "chan_ok view ?c (rpoller s)" using assms by (simp add: reactor_ok_def)
  from chan_step_ok [OF ok, of oper] obtain c p where cp: "chan_step ctl oper ?c (rpoller s) = Some (c, p)" "chan_ok view c p"
    "c = ?c\<lparr>events := newEvents oper (events ?c), addedToLoop := (oper \<noteq> RemoveChan), index := index c\<rparr>"
    "\<forall>f. f \<noteq> fd ?c \<longrightarrow> view (kernel p) f = view (kernel (rpoller s)) f \<and> channels p f = channels (rpoller s) f" by blast
  have f: "fd c = fd ?c" "cid c = cid ?c" "handleEvent al c = handleEvent al ?c" for al
    using arg_cong [OF cp(3), of fd] arg_cong [OF cp(3), of cid] arg_cong [OF cp(3), of "handleEvent al"]
    by (simp_all add: handleEvent_def handleEventWithGuard_def)
  have o: "chan_ok view (chansOf s b) p" if "b \<noteq> a" for b
  proof -
    have "fd (chansOf s b) \<noteq> fd ?c" using assms that by (auto simp: reactor_ok_def)
    with cp(4) chan_ok_frame [OF refl, of view p "chansOf s b" "rpoller s"] assms show ?thesis by (simp add: reactor_ok_def)
  qed
  define s' where "s' = s\<lparr>chansOf := (chansOf s)(a := c), rpoller := p\<rparr>"
  have e: "change_channel ctl a oper s = Some s'" by (simp add: change_channel_def cp(1) s'_def)
  have fd': "fd (chansOf s' b) = fd (chansOf s b)" "cid (chansOf s' b) = cid (chansOf s b)" for b
    by (simp_all add: s'_def f(1,2))
  have "chan_ok view (chansOf s' b) (rpoller s')" for b
    using cp(2) o [of b] by (simp add: s'_def)
  then have "reactor_ok view s'" using assms by (simp add: reactor_ok_def fd')
  moreover have "same_dispatch s s'" by (simp add: same_dispatch_def s'_def f(3))
  ultimately show ?thesis using e by (simp add: s'_def)
qed

lemma perform_ok:
  assumes "reactor_ok view s"
  shows "\<exists>s'. perform ctl x s = Some s' \<and> reactor_ok view s' \<and> same_dispatch s s' \<and>
    theLoop s' = fold apply_op (act_ops x) (theLoop s) \<and> calls s' = calls s"
proof (cases x)
  case (Change a oper)
  with change_channel_ok [OF assms, of a oper] show ?thesis by auto
qed (use assms in \<open>simp_all add: same_dispatch_def reactor_ok_def\<close>)

lemma perform_all_ok:
  assumes "reactor_ok view s"
  shows "\<exists>s'. perform_all ctl xs s = Some s' \<and> reactor_ok view s' \<and> same_dispatch s s' \<and>
    theLoop s' = fold apply_op (concat (map act_ops xs)) (theLoop s) \<and> calls s' = calls s"
  using assms
proof (induction xs arbitrary: s)
  case (Cons x xs)
  from perform_ok [OF Cons.prems, of x] obtain s1 where s1: "perform ctl x s = Some s1" "reactor_ok view s1" "same_dispatch s s1"
    "theLoop s1 = fold apply_op (act_ops x) (theLoop s)" "calls s1 = calls s" by blast
  from Cons.IH [OF s1(2)] s1 show ?case by (auto intro: same_dispatch_trans)
qed simp

lemma call_handler_ok:
  assumes "reactor_ok view s"
  shows "\<exists>s'. call_handler ctl x a h s = Some s' \<and> reactor_ok view s' \<and> same_dispatch s s' \<and>
    theLoop s' = fold apply_op (call_ops x (wakeupChannel s) a h) (theLoop s) \<and> calls s' = calls s @ [HandlerCall a h]"
proof (cases "a = wakeupChannel s \<and> h = ReadCb")
  case True
  with assms show ?thesis by (simp add: call_handler_def call_ops_def Let_def same_dispatch_def reactor_ok_def)
next
  case False
  have "reactor_ok view (s\<lparr>calls := calls s @ [HandlerCall a h]\<rparr>)" using assms by (simp add: reactor_ok_def)
  from perform_all_ok [OF this, of "handlerActs x a h"] show ?thesis
    unfolding call_handler_def Let_def if_not_P [OF False] call_ops_def by (auto simp: same_dispatch_def)
qed

lemma call_handlers_ok:
  assumes "reactor_ok view s"
  shows "\<exists>s'. call_handlers ctl x a hs s = Some s' \<and> reactor_ok view s' \<and> same_dispatch s s' \<and>
    theLoop s' = fold apply_op (concat (map (call_ops x (wakeupChannel s) a) hs)) (theLoop s) \<and>
    calls s' = calls s @ map (HandlerCall a) hs"
  using assms
proof (induction hs arbitrary: s)
  case (Cons h hs)
  from call_handler_ok [OF Cons.prems, of x a h] obtain s1 where s1: "call_handler ctl x a h s = Some s1" "reactor_ok view s1"
    "same_dispatch s s1" "theLoop s1 = fold apply_op (call_ops x (wakeupChannel s) a h) (theLoop s)"
    "calls s1 = calls s @ [HandlerCall a h]" by blast
  from s1(3) have "wakeupChannel s1 = wakeupChannel s" by (simp add: same_dispatch_def)
  with Cons.IH [OF s1(2)] s1 show ?case by (auto intro: same_dispatch_trans)
qed simp

lemma dispatch_ok:
  assumes "reactor_ok view s"
  shows "\<exists>s'. dispatch ctl x active s = Some s' \<and> reactor_ok view s' \<and> same_dispatch s s' \<and>
    theLoop s' = fold apply_op (concat (map (\<lambda>a. concat (map (call_ops x (wakeupChannel s) a)
      (handleEvent (ownerAlive x a) (chansOf s a)))) active)) (theLoop s) \<and>
    calls s' = calls s @ concat (map (\<lambda>a. map (HandlerCall a) (handleEvent (ownerAlive x a) (chansOf s a))) active)"
  using assms
proof (induction active arbitrary: s)
  case (Cons a active)
  let ?s = "s\<lparr>currentActive := Some a\<rparr>"
  have "reactor_ok view ?s" using Cons.prems by (simp add: reactor_ok_def)
  from call_handlers_ok [OF this, of x a "handleEvent (ownerAlive x a) (chansOf s a)"] obtain s1 where
    s1: "call_handlers ctl x a (handleEvent (ownerAlive x a) (chansOf s a)) ?s = Some s1" "reactor_ok view s1" "same_dispatch ?s s1"
    "theLoop s1 = fold apply_op (concat (map (call_ops x (wakeupChannel s) a) (handleEvent (ownerAlive x a) (chansOf s a)))) (theLoop s)"
    "calls s1 = calls s @ map (HandlerCall a) (handleEvent (ownerAlive x a) (chansOf s a))" by auto
  from s1(3) have d: "wakeupChannel s1 = wakeupChannel s" "\<And>al a. handleEvent al (chansOf s1 a) = handleEvent al (chansOf s a)"
    "same_dispatch s s1" by (simp_all add: same_dispatch_def)
  from Cons.IH [OF s1(2)] s1(1,4,5) d show ?case by (auto intro: same_dispatch_trans [OF d(3)])
qed simp

lemma run_functors_ok:
  assumes "reactor_ok view s"
  shows "\<exists>s'. run_functors ctl x i fs s = Some s' \<and> reactor_ok view s' \<and> theLoop s' = run_loop x i fs (theLoop s) \<and>
    calls s' = calls s @ map FunctorCall fs"
  using assms
proof (induction fs arbitrary: s i)
  case (Cons f fs)
  let ?s = "s\<lparr>theLoop := (theLoop s)\<lparr>place := Running fs, executed := executed (theLoop s) @ [f]\<rparr>, calls := calls s @ [FunctorCall f]\<rparr>"
  have "reactor_ok view ?s" using Cons.prems by (simp add: reactor_ok_def)
  from perform_all_ok [OF this, of "functorActs x i"] obtain s1 where s1: "perform_all ctl (functorActs x i) ?s = Some s1"
    "reactor_ok view s1" "theLoop s1 = fold apply_op (concat (map act_ops (functorActs x i))) (theLoop ?s)" "calls s1 = calls ?s" by blast
  from Cons.IH [OF s1(2), of "Suc i"] s1 show ?case by auto
qed simp

lemma loop_round_ok:
  assumes "reactor_ok view s" "distinct (map fst (readyEvents x))"
  shows "\<exists>s'. loop_round ctl x s = Some s' \<and> reactor_ok view s' \<and> theLoop s' = round_loop x s \<and>
    calls s' = calls s @ concat (map (\<lambda>(a, ev). map (HandlerCall a) (handlersOf x s a ev)) (readyEvents x)) @
      map FunctorCall (pending (theLoop s) @ posted (round_ops x s))"
proof -
  obtain chans' p' where p: "poll (readyEvents x) (chansOf s) (rpoller s) = (chans', map fst (readyEvents x), p')"
    "kernel p' = kernel (rpoller s)" "channels p' = channels (rpoller s)"
    "\<And>a. chans' a = (case map_of (readyEvents x) a of None \<Rightarrow> chansOf s a | Some ev \<Rightarrow> (chansOf s a)\<lparr>revents := ev\<rparr>)"
    using poll_result [OF assms(2)] by blast
  define s0 where "s0 = s\<lparr>chansOf := chans', rpoller := p', activeChannels := map fst (readyEvents x), evHandling := True,
    theLoop := (theLoop s)\<lparr>place := Handling\<rparr>\<rparr>"
  have same: "fd (chans' a) = fd (chansOf s a)" "cid (chans' a) = cid (chansOf s a)"
    "chan_ok view (chans' a) p' = chan_ok view (chansOf s a) (rpoller s)" for a
    using p(2,3) by (auto simp: p(4) chan_ok_def hasChannel_def split: option.split)
  have ok: "reactor_ok view s0" using assms(1) by (simp add: reactor_ok_def s0_def same)
  have ev: "chansOf s0 a = (chansOf s a)\<lparr>revents := e\<rparr>" if "(a, e) \<in> set (readyEvents x)" for a e
    using assms(2) that by (simp add: s0_def p(4))
  have m: "map (\<lambda>a. F a (handleEvent (ownerAlive x a) (chansOf s0 a))) (map fst (readyEvents x)) =
      map (\<lambda>(a, e). F a (handlersOf x s a e)) (readyEvents x)" for F :: "nat \<Rightarrow> handler list \<Rightarrow> 'c"
    by (auto simp: ev handlersOf_def)
  have w: "wakeupChannel s0 = wakeupChannel s" "calls s0 = calls s" by (simp_all add: s0_def)
  obtain s1 where s1: "dispatch ctl x (map fst (readyEvents x)) s0 = Some s1" "reactor_ok view s1"
    "theLoop s1 = fold apply_op (round_ops x s) (theLoop s0)"
    "calls s1 = calls s @ concat (map (\<lambda>(a, ev). map (HandlerCall a) (handlersOf x s a ev)) (readyEvents x))"
    using dispatch_ok [OF ok, of x "map fst (readyEvents x)"]
    unfolding w m [of "\<lambda>a hs. concat (map (call_ops x (wakeupChannel s) a) hs)"] m [of "\<lambda>a hs. map (HandlerCall a) hs"]
      round_ops_def [symmetric] by blast
  define s2 where "s2 = s1\<lparr>currentActive := None, evHandling := False, theLoop := (theLoop s1)\<lparr>callingPending := True, pending := [],
    place := Running (pending (theLoop s1)), early := False\<rparr>\<rparr>"
  have "reactor_ok view s2" using s1(2) by (simp add: reactor_ok_def s2_def)
  from run_functors_ok [OF this, of x 0 "pending (theLoop s1)"] obtain s3 where s3: "run_functors ctl x 0 (pending (theLoop s1)) s2 = Some s3"
    "reactor_ok view s3" "theLoop s3 = run_loop x 0 (pending (theLoop s1)) (theLoop s2)"
    "calls s3 = calls s2 @ map FunctorCall (pending (theLoop s1))" by blast
  have pd: "pending (theLoop s1) = pending (theLoop s) @ posted (round_ops x s)" by (simp add: s1(3) fold_ops s0_def)
  have "loop_round ctl x s = Some (s3\<lparr>theLoop := (theLoop s3)\<lparr>place := Check, callingPending := False\<rparr>\<rparr>)"
    using s1(1) s3(1) unfolding loop_round_def p(1) prod.case s0_def [symmetric] by (simp add: takePending_def s2_def)
  moreover have "theLoop (s3\<lparr>theLoop := (theLoop s3)\<lparr>place := Check, callingPending := False\<rparr>\<rparr>) = round_loop x s"
    by (simp add: round_loop_def Let_def s3(3) s2_def s1(3) s0_def)
  ultimately show ?thesis using s3(2,4) s1(4) pd by (simp add: reactor_ok_def s2_def)
qed

end

lemma executed_ops: "executed (fold apply_op xs l) = executed l"
proof (induction xs arbitrary: l)
  case (Cons x xs)
  have "executed (apply_op x l) = executed l" by (cases x) (simp_all add: loop_defs Let_def)
  with Cons show ?case by simp
qed simp

lemma quit_ops: "quit (fold apply_op xs l) \<longleftrightarrow> quit l \<or> OpQuit \<in> set xs"
proof (induction xs arbitrary: l)
  case (Cons x xs)
  have "quit (apply_op x l) \<longleftrightarrow> quit l \<or> x = OpQuit" by (cases x) (simp_all add: loop_defs Let_def)
  with Cons show ?case by auto
qed simp

lemma run_loop_keeps: "quit l \<Longrightarrow> quit (run_loop x i fs l)" "executed (run_loop x i fs l) = executed l @ fs"
  by (induction x i fs l rule: run_loop.induct) (simp_all add: quit_ops executed_ops)

lemma round_loop_executed: "executed (round_loop x s) = executed (theLoop s) @ pending (theLoop s) @ posted (round_ops x s)"
  by (simp add: round_loop_def Let_def executed_ops run_loop_keeps)

lemma loop_rounds_unfold: "loop_rounds ctl (x # xs) s =
  (if quit (theLoop s) then Some (s\<lparr>theLoop := (theLoop s)\<lparr>place := Stopped, looping := False\<rparr>\<rparr>)
   else Option.bind (loop_round ctl x (s\<lparr>theLoop := (theLoop s)\<lparr>place := Poll\<rparr>\<rparr>)) (loop_rounds ctl xs))"
  by (simp only: loop_rounds.simps list.case)

lemma loop_rounds_quit: "quit (theLoop s) \<Longrightarrow> loop_rounds ctl xs s = Some (s\<lparr>theLoop := (theLoop s)\<lparr>place := Stopped, looping := False\<rparr>\<rparr>)"
  by (simp only: loop_rounds.simps if_True)

declare loop_rounds.simps [simp del]

lemma round_ops_loop [simp]: "round_ops x (s\<lparr>theLoop := l\<rparr>) = round_ops x s"
  by (simp add: round_ops_def handlersOf_def)

subsection \<open>A round is steps of the loop\<close>

lemma wakeupRead_idem: "wakeups l = 0 \<Longrightarrow> wakeupRead l = l"
  by (simp add: wakeupRead_def)

lemma apply_op_wakeups: "\<not> callingPending l \<Longrightarrow> wakeups (apply_op x l) = (if x = OpWakeup then 0 else wakeups l)"
  by (cases x) (simp_all add: loop_defs Let_def)

lemma wakeup_commutes: "\<not> callingPending l \<Longrightarrow> fold apply_op xs (wakeupRead l) = wakeupRead (fold apply_op xs l)"
proof (induction xs arbitrary: l)
  case (Cons x xs)
  have "apply_op x (wakeupRead l) = wakeupRead (apply_op x l)"
    using Cons.prems by (cases x) (simp_all add: loop_defs Let_def)
  moreover have "\<not> callingPending (apply_op x l)" using Cons.prems by (simp add: apply_op_fields)
  ultimately show ?case using Cons.IH by simp
qed simp

lemma wakeup_done: "\<not> callingPending l \<Longrightarrow> OpWakeup \<in> set xs \<or> wakeups l = 0 \<Longrightarrow> wakeups (fold apply_op xs l) = 0"
  by (induction xs arbitrary: l) (auto simp: apply_op_wakeups apply_op_fields wakeupRead_def)

lemma handling_steps:
  assumes "place l = Handling" "\<not> callingPending l" "OpWakeup \<notin> set xs \<or> wakeups l = 0"
  shows "loop_step\<^sup>*\<^sup>* l (fold apply_op xs l)"
  using assms
proof (induction xs arbitrary: l)
  case (Cons x xs)
  have "loop_step\<^sup>*\<^sup>* l (apply_op x l)"
  proof (cases x)
    case OpWakeup
    then show ?thesis using Cons.prems(3) by (simp add: wakeupRead_idem)
  qed (use Cons.prems(1) in \<open>auto intro: handler_queues handler_quits\<close>)
  moreover have "loop_step\<^sup>*\<^sup>* (apply_op x l) (fold apply_op xs (apply_op x l))"
    using Cons.prems by (intro Cons.IH) (auto simp: apply_op_fields apply_op_wakeups)
  ultimately show ?case by (simp add: rtranclp_trans)
qed simp

lemma functor_steps:
  "place l = Running fs \<Longrightarrow> loop_step\<^sup>*\<^sup>* l (fold apply_op (concat (map act_ops xs)) l)"
proof (induction xs arbitrary: l)
  case (Cons x xs)
  have "loop_step\<^sup>*\<^sup>* l (fold apply_op (act_ops x) l)"
    using Cons.prems by (cases x) (auto intro: functor_queues functor_quits)
  moreover have "loop_step\<^sup>*\<^sup>* (fold apply_op (act_ops x) l) (fold apply_op (concat (map act_ops xs)) (fold apply_op (act_ops x) l))"
    using Cons.prems by (intro Cons.IH) simp
  ultimately show ?case by (simp add: rtranclp_trans)
qed simp

lemma run_loop_steps:
  "place l = Running fs \<Longrightarrow> loop_step\<^sup>*\<^sup>* l (run_loop x i fs l) \<and> place (run_loop x i fs l) = Running []"
proof (induction x i fs l rule: run_loop.induct)
  case (2 x i f fs l)
  let ?l = "l\<lparr>place := Running fs, executed := executed l @ [f]\<rparr>"
  have "loop_step l ?l" using "2.prems" by (rule run)
  moreover have "loop_step\<^sup>*\<^sup>* ?l (fold apply_op (concat (map act_ops (functorActs x i))) ?l)" by (rule functor_steps) simp
  ultimately show ?case using "2.IH" by (auto intro: converse_rtranclp_into_rtranclp rtranclp_trans)
qed simp

lemma round_loop_steps:
  assumes "place (theLoop s) = Poll" "\<not> callingPending (theLoop s)" "OpWakeup \<in> set (round_ops x s) \<Longrightarrow> 0 < wakeups (theLoop s)"
  shows "loop_step\<^sup>*\<^sup>* (theLoop s) (round_loop x s)"
proof -
  let ?h = "(theLoop s)\<lparr>place := Handling\<rparr>" and ?ops = "round_ops x s"
  let ?l = "fold apply_op ?ops ?h"
  have h: "place ?h = Handling" "\<not> callingPending ?h" using assms(2) by simp_all
  have to_l: "loop_step\<^sup>*\<^sup>* (theLoop s) ?l"
  proof (cases "OpWakeup \<in> set ?ops")
    case True
    have "loop_step (theLoop s) (wakeupRead ?h)" using assms(1) assms(3) [OF True] by (rule poll_wakeup)
    moreover have "loop_step\<^sup>*\<^sup>* (wakeupRead ?h) (fold apply_op ?ops (wakeupRead ?h))"
      using h by (intro handling_steps) (simp_all add: wakeupRead_def)
    moreover have "fold apply_op ?ops (wakeupRead ?h) = ?l"
      using wakeup_commutes [OF h(2)] wakeup_done [OF h(2)] True by (simp add: wakeupRead_idem)
    ultimately show ?thesis by (simp add: converse_rtranclp_into_rtranclp)
  next
    case False
    have "loop_step (theLoop s) ?h" using assms(1) by (rule poll_other)
    with handling_steps [OF h] False show ?thesis by (blast intro: converse_rtranclp_into_rtranclp)
  qed
  let ?r = "(?l\<lparr>callingPending := True, pending := []\<rparr>)\<lparr>place := Running (pending ?l), early := False\<rparr>"
  have "loop_step ?l ?r" by (rule swap) (simp_all add: takePending_def)
  moreover have "loop_step\<^sup>*\<^sup>* ?r (run_loop x 0 (pending ?l) ?r)" "place (run_loop x 0 (pending ?l) ?r) = Running []"
    using run_loop_steps [of ?r "pending ?l" x 0] by simp_all
  moreover have "loop_step (run_loop x 0 (pending ?l) ?r) (round_loop x s)"
    using pending_done [OF calculation(3)] by (simp add: round_loop_def Let_def)
  ultimately show ?thesis using to_l
    by (meson converse_rtranclp_into_rtranclp rtranclp.rtrancl_into_rtrancl rtranclp_trans)
qed

text \<open>Functors that functors have queued wait for the next round, with the wakeup for it.\<close>

lemma run_loop_pending:
  "callingPending l \<Longrightarrow> (pending l \<noteq> [] \<longrightarrow> 0 < wakeups l) \<Longrightarrow>
    pending (run_loop x i fs l) = pending l @ posted (concat (map (\<lambda>j. concat (map act_ops (functorActs x j))) [i..<i + length fs])) \<and>
    (pending (run_loop x i fs l) \<noteq> [] \<longrightarrow> 0 < wakeups (run_loop x i fs l))"
proof (induction x i fs l rule: run_loop.induct)
  case (2 x i f fs l)
  let ?ops = "concat (map act_ops (functorActs x i))"
  let ?l = "l\<lparr>place := Running fs, executed := executed l @ [f]\<rparr>"
  have act: "callingPending l' \<Longrightarrow> (pending l' \<noteq> [] \<longrightarrow> 0 < wakeups l') \<Longrightarrow>
      pending (fold apply_op (concat (map act_ops xs)) l') \<noteq> [] \<longrightarrow> 0 < wakeups (fold apply_op (concat (map act_ops xs)) l')" for xs l'
  proof (induction xs arbitrary: l')
    case (Cons y ys)
    then show ?case by (cases y) (auto simp: loop_defs Let_def)
  qed simp
  have r: "[i..<i + length (f # fs)] = i # [Suc i..<Suc i + length fs]" by (simp add: upt_rec)
  show ?case using "2.IH" act [of ?l "functorActs x i"] "2.prems" unfolding r by simp
qed simp

subsection \<open>Loops and their threads\<close>

lemma perform_all_thread: "perform_all ctl xs s = Some s' \<Longrightarrow> threadId s' = threadId s"
proof (induction xs arbitrary: s)
  case (Cons x xs)
  then show ?case by (cases x) (auto simp: change_channel_def split: Option.bind_splits)
qed simp

lemma call_handlers_thread: "call_handlers ctl x a hs s = Some s' \<Longrightarrow> threadId s' = threadId s"
proof (induction hs arbitrary: s)
  case (Cons h hs)
  then show ?case
    by (auto simp: call_handler_def Let_def split: Option.bind_splits if_splits dest: perform_all_thread)
qed simp

lemma dispatch_thread: "dispatch ctl x active s = Some s' \<Longrightarrow> threadId s' = threadId s"
proof (induction active arbitrary: s)
  case (Cons a active)
  then show ?case by (fastforce split: Option.bind_splits dest: call_handlers_thread)
qed simp

lemma run_functors_thread: "run_functors ctl x i fs s = Some s' \<Longrightarrow> threadId s' = threadId s"
proof (induction fs arbitrary: s i)
  case (Cons f fs)
  then show ?case by (fastforce split: Option.bind_splits dest: perform_all_thread)
qed simp

lemma loop_round_thread: "loop_round ctl x s = Some s' \<Longrightarrow> threadId s' = threadId s"
  by (fastforce simp: loop_round_def takePending_def split: prod.splits Option.bind_splits dest: dispatch_thread run_functors_thread)

definition proc_inv :: "('f, 'k) process \<Rightarrow> bool" where
  "proc_inv s \<longleftrightarrow> (\<forall>t a. loopInThread s t = Some a \<longleftrightarrow> (\<exists>r. loopAt s a = Some r \<and> threadId r = t))"

lemma evloop_new_thread: "evloop_new ctl tid evtfd wa chans k = Some r \<Longrightarrow> threadId r = tid"
  by (auto simp: evloop_new_def split: if_splits)

lemma proc_reachable_inv: "proc_reachable ctl k s \<Longrightarrow> proc_inv s"
proof (induction rule: proc_reachable.induct)
  case (create s a tid evtfd wa chans s')
  then show ?case by (fastforce simp: proc_inv_def create_loop_def split: if_splits dest: evloop_new_thread)
next
  case (destroy s a r s')
  then have inv: "\<And>t a. loopInThread s t = Some a \<longleftrightarrow> (\<exists>r. loopAt s a = Some r \<and> threadId r = t)" and a: "loopAt s a = Some r"
    and s': "loopInThread s' = (loopInThread s)(threadId r := None)" "loopAt s' = (loopAt s)(a := None)"
    by (auto simp: proc_inv_def destroy_loop_def split: Option.bind_splits)
  have t: "loopInThread s (threadId r) = Some a" using inv a by blast
  have u: "b = a" if "loopAt s b = Some r'" "threadId r' = threadId r" for b r'
  proof -
    have "loopInThread s (threadId r) = Some b" using inv that by blast
    with t show ?thesis by simp
  qed
  have "loopInThread s' t = Some b \<longleftrightarrow> (\<exists>r. loopAt s' b = Some r \<and> threadId r = t)" for t b
  proof (cases "t = threadId r")
    case True
    with u [of b] show ?thesis by (auto simp: s')
  next
    case False
    show ?thesis
    proof (cases "b = a")
      case True
      with inv [of t a] a False show ?thesis by (simp add: s')
    next
      case nb: False
      with inv [of t b] False show ?thesis by (simp add: s')
    qed
  qed
  then show ?case by (simp add: proc_inv_def)
next
  case (works s a r x r')
  then show ?case using loop_round_thread [OF works(3)] by (auto simp: proc_inv_def)
qed (simp add: proc_inv_def)

subsection \<open>Properties\<close>

text \<open>
  C19: a round of the loop calls, for every ready channel in the order of the poll, exactly the handlers of its events, and
  after all of them the functors that were pending, those the handlers have queued included, in order; whatever handlers and
  functors do to channels, no \<open>epoll_ctl\<close> call fails.  What the functors queue is left for the next round, with a wakeup
  that ends its poll.
\<close>

theorem round_dispatches:
  assumes "reactor_ok (\<lambda>k. k) s" "distinct (map fst (readyEvents x))"
  shows "\<exists>s' fs. loop_round interest_ctl x s = Some s' \<and> reactor_ok (\<lambda>k. k) s' \<and> fs = pending (theLoop s) @ posted (round_ops x s) \<and>
    calls s' = calls s @ concat (map (\<lambda>(a, ev). map (HandlerCall a)
        (handleEvent (ownerAlive x a) ((chansOf s a)\<lparr>revents := ev\<rparr>))) (readyEvents x)) @ map FunctorCall fs \<and>
    pending (theLoop s') = posted (concat (map (\<lambda>i. concat (map act_ops (functorActs x i))) [0..<length fs])) \<and>
    (pending (theLoop s') \<noteq> [] \<longrightarrow> 0 < wakeups (theLoop s'))"
proof -
  let ?fs = "pending (theLoop s) @ posted (round_ops x s)"
  let ?l = "fold apply_op (round_ops x s) ((theLoop s)\<lparr>place := Handling\<rparr>)"
  let ?r = "?l\<lparr>callingPending := True, pending := [], place := Running (pending ?l), early := False\<rparr>"
  have "pending ?l = ?fs" by simp
  with run_loop_pending [of ?r x 0 ?fs] have "pending (round_loop x s) = posted (concat (map (\<lambda>i. concat (map act_ops (functorActs x i))) [0..<length ?fs])) \<and>
    (pending (round_loop x s) \<noteq> [] \<longrightarrow> 0 < wakeups (round_loop x s))" by (simp add: round_loop_def Let_def)
  with ep.loop_round_ok [OF assms] show ?thesis by (auto simp: handlersOf_def)
qed

text \<open>A loop with a wakeup channel and a second, written channel, for the witnesses.\<close>

definition sampleReactor :: "(nat, interest) reactor" where
  "sampleReactor = \<lparr>theLoop = loop_new\<lparr>place := Poll, looping := True, pending := [7], queued := [7], wakeups := 1\<rparr>, threadId = 1,
     rpoller = poller_new Map.empty, wakeupChannel = 0,
     chansOf = (\<lambda>a. (channel_new a (int a))\<lparr>hasReadCb := True, hasWriteCb := True\<rparr>), evHandling = False,
     activeChannels = [], currentActive = None, calls = []\<rparr>"

definition sampleRound :: "nat round_in" where
  "sampleRound = \<lparr>readyEvents = [(3, EPOLLIN OR EPOLLOUT), (0, EPOLLIN)], ownerAlive = (\<lambda>a. True),
     handlerActs = (\<lambda>a h. if h = ReadCb then [Post 8, Change 3 EnableWriting] else []), functorActs = (\<lambda>i. if i = 0 then [Post 9] else [])\<rparr>"

lemma sampleReactor_ok: "reactor_ok (\<lambda>k. k) sampleReactor"
  by (simp add: reactor_ok_def sampleReactor_def chan_ok_def channel_new_def poller_new_def index_defs)

lemma sample_events: "handleEvent True ((chansOf sampleReactor a)\<lparr>revents := EPOLLIN OR EPOLLOUT\<rparr>) = [ReadCb, WriteCb]"
  "handleEvent True ((chansOf sampleReactor a)\<lparr>revents := EPOLLIN\<rparr>) = [ReadCb]"
  by (simp_all add: handleEvent_def handleEventWithGuard_def sampleReactor_def channel_new_def event_defs)

lemma sample_ops: "round_ops sampleRound sampleReactor = [OpPost 8, OpWakeup]"
  by (simp add: round_ops_def handlersOf_def sampleRound_def sample_events call_ops_def)
    (simp add: sampleReactor_def)

theorem round_dispatches_witness:
  "\<exists>s'. loop_round interest_ctl sampleRound sampleReactor = Some s' \<and>
     calls s' = [HandlerCall 3 ReadCb, HandlerCall 3 WriteCb, HandlerCall 0 ReadCb, FunctorCall 7, FunctorCall 8] \<and>
     pending (theLoop s') = [9] \<and> 0 < wakeups (theLoop s')"
proof -
  have d: "distinct (map fst (readyEvents sampleRound))" by (simp add: sampleRound_def)
  have p: "pending (theLoop sampleReactor) = [7]" "calls sampleReactor = []" by (simp_all add: sampleReactor_def)
  have e: "readyEvents sampleRound = [(3, EPOLLIN OR EPOLLOUT), (0, EPOLLIN)]" "ownerAlive sampleRound a = True"
    "functorActs sampleRound = (\<lambda>i. if i = 0 then [Post 9] else [])" for a by (simp_all add: sampleRound_def)
  show ?thesis
    using round_dispatches [OF sampleReactor_ok d] unfolding sample_ops p e by (auto simp: sample_events upt_rec)
qed

text \<open>
  C20: a round of the loop is a sequence of steps of the interleaved loop from \<open>poll\<close> back to the test of the quit
  flag, so what holds in every reachable state of the interleaving holds of the loop with its poller and channels.
\<close>

theorem round_refines_steps:
  assumes "reactor_ok (\<lambda>k. k) s" "distinct (map fst (readyEvents x))" "place (theLoop s) = Poll"
    and "reachable (theLoop s)" "OpWakeup \<in> set (round_ops x s) \<longrightarrow> 0 < wakeups (theLoop s)"
  shows "\<exists>s'. loop_round interest_ctl x s = Some s' \<and> loop_step\<^sup>*\<^sup>* (theLoop s) (theLoop s') \<and> reachable (theLoop s') \<and>
    place (theLoop s') = Check \<and> executed (theLoop s') = queued (theLoop s) @ posted (round_ops x s)"
proof -
  obtain s' where s': "loop_round interest_ctl x s = Some s'" "theLoop s' = round_loop x s" "place (round_loop x s) = Check"
    using ep.loop_round_ok [OF assms(1,2)] by (auto simp: round_loop_def Let_def)
  have inv: "in_order (theLoop s)" "awake (theLoop s)" using reachable_inv [OF assms(4)] by simp_all
  then have "\<not> callingPending (theLoop s)" using assms(3) by (simp add: awake_def)
  from round_loop_steps [OF assms(3) this] assms(5) have steps: "loop_step\<^sup>*\<^sup>* (theLoop s) (round_loop x s)" by blast
  then have r: "reachable (round_loop x s)" using assms(4) by (rule reachable_star)
  have "executed (round_loop x s) = executed (theLoop s) @ pending (theLoop s) @ posted (round_ops x s)"
    by (rule round_loop_executed)
  moreover have "queued (theLoop s) = executed (theLoop s) @ pending (theLoop s)" using inv(1) assms(3) by (simp add: in_order_def)
  ultimately show ?thesis using s' steps r by auto
qed

lemma sample_reachable: "reachable (theLoop sampleReactor)"
proof -
  let ?s0 = "loop_new\<lparr>place := Poll, looping := True\<rparr> :: nat loop"
  let ?s1 = "(pushFunctor 7 ?s0)\<lparr>owed := owed ?s0 + 1\<rparr>"
  have "reachable ?s1" by (rule reachable.step [OF reachable_polling other_pushes])
  then have "reachable (wakeup (?s1\<lparr>owed := owed ?s1 - 1\<rparr>))"
    by (rule reachable.step) (rule other_wakes; simp add: pushFunctor_def loop_new_def)
  then show ?thesis by (simp add: sampleReactor_def wakeup_def pushFunctor_def loop_new_def)
qed

theorem round_refines_steps_witness:
  "\<exists>s'. loop_round interest_ctl sampleRound sampleReactor = Some s' \<and> reachable (theLoop s') \<and> executed (theLoop s') = [7, 8]"
proof -
  have d: "distinct (map fst (readyEvents sampleRound))" by (simp add: sampleRound_def)
  have p: "place (theLoop sampleReactor) = Poll" "0 < wakeups (theLoop sampleReactor)" "queued (theLoop sampleReactor) = [7]"
    by (simp_all add: sampleReactor_def)
  show ?thesis
    using round_refines_steps [OF sampleReactor_ok d p(1) sample_reachable] p(2,3) unfolding sample_ops by auto
qed

text \<open>
  A handler that quits the loop ends \<open>loop()\<close>: the round it runs in is finished, the functors that are pending by then
  included, and \<open>loop()\<close> returns without another poll.
\<close>

lemma quit_ends_loop:
  assumes "reactor_ok (\<lambda>k. k) s" "distinct (map fst (readyEvents x))" "OpQuit \<in> set (round_ops x s)"
  shows "\<exists>s'. evloop_loop interest_ctl (x # xs) s = Some s' \<and> place (theLoop s') = Stopped \<and> \<not> looping (theLoop s') \<and>
    executed (theLoop s') = executed (theLoop s) @ pending (theLoop s) @ posted (round_ops x s)"
proof -
  let ?s = "s\<lparr>theLoop := (theLoop s)\<lparr>place := Check, looping := True, quit := False, place := Poll\<rparr>\<rparr>"
  have "reactor_ok (\<lambda>k. k) ?s" using assms(1) by (simp add: reactor_ok_def)
  from ep.loop_round_ok [OF this assms(2)] obtain s1 where s1: "loop_round interest_ctl x ?s = Some s1" "theLoop s1 = round_loop x ?s"
    by blast
  have "quit (theLoop s1)" using assms(3) by (simp add: s1(2) round_loop_def Let_def run_loop_keeps quit_ops)
  from loop_rounds_quit [OF this, of interest_ctl xs] s1 show ?thesis
    by (simp add: evloop_loop_def loop_rounds_unfold round_loop_executed)
qed

text \<open>
  C21: every thread has at most one loop: under any order in which threads create, run and destroy their loops,
  \<open>getEventLoopOfCurrentThread\<close> is the loop that answers \<open>isInLoopThread\<close>, and creating another one in that thread aborts,
  while it succeeds in every thread without one.
\<close>

theorem one_loop_per_thread:
  assumes "proc_reachable interest_ctl Map.empty s"
  shows "(getEventLoopOfCurrentThread t s = Some a \<longleftrightarrow> (\<exists>r. loopAt s a = Some r \<and> isInLoopThread t r)) \<and>
    (loopAt s b = Some r1 \<and> loopAt s c = Some r2 \<and> isInLoopThread t r1 \<and> isInLoopThread t r2 \<longrightarrow> b = c) \<and>
    (0 \<le> evtfd \<longrightarrow> (create_loop interest_ctl t d evtfd wa chans Map.empty s = None \<longleftrightarrow> (\<exists>e r. loopAt s e = Some r \<and> isInLoopThread t r)))"
proof -
  have inv: "loopInThread s t = Some a \<longleftrightarrow> (\<exists>r. loopAt s a = Some r \<and> threadId r = t)" for a
    using proc_reachable_inv [OF assms] by (simp add: proc_inv_def)
  have "chan_ok (\<lambda>k. k) ((channel_new wa evtfd)\<lparr>hasReadCb := True\<rparr>) (poller_new Map.empty)"
    by (simp add: chan_ok_def channel_new_def poller_new_def index_defs)
  from ep.chan_step_ok [OF this, of EnableReading] have
    "0 \<le> evtfd \<Longrightarrow> evloop_new interest_ctl t evtfd wa chans Map.empty \<noteq> None" by (auto simp: evloop_new_def)
  then have c: "0 \<le> evtfd \<longrightarrow> (create_loop interest_ctl t d evtfd wa chans Map.empty s = None \<longleftrightarrow> loopInThread s t \<noteq> None)"
    by (auto simp: create_loop_def)
  have "loopInThread s t \<noteq> None \<longleftrightarrow> (\<exists>e r. loopAt s e = Some r \<and> threadId r = t)" using inv by blast
  moreover have "b = c" if "loopAt s b = Some r1" "loopAt s c = Some r2" "threadId r1 = t" "threadId r2 = t"
    using inv [of b] inv [of c] that by auto
  ultimately show ?thesis using c
    by (simp add: getEventLoopOfCurrentThread_def isInLoopThread_def inv [of a])
qed

theorem one_loop_per_thread_witness:
  "\<exists>s :: (nat, interest) process. proc_reachable interest_ctl Map.empty s \<and> getEventLoopOfCurrentThread 1 s = Some 5 \<and>
     create_loop interest_ctl 1 6 4 0 (\<lambda>a. channel_new a 0) Map.empty s = None \<and>
     create_loop interest_ctl 2 6 4 0 (\<lambda>a. channel_new a 0) Map.empty s \<noteq> None"
proof -
  let ?p = "\<lparr>loopInThread = Map.empty, loopAt = Map.empty\<rparr> :: (nat, interest) process" and ?ch = "\<lambda>a. channel_new a 0"
  have r0: "proc_reachable interest_ctl Map.empty ?p" by (rule proc_reachable.none)
  obtain s where s: "create_loop interest_ctl 1 5 3 0 ?ch Map.empty ?p = Some s"
    using one_loop_per_thread [OF r0, where t = 1 and evtfd = 3 and d = 5 and wa = 0 and chans = ?ch] by fastforce
  have "proc_reachable interest_ctl Map.empty s" by (rule proc_reachable.create [OF r0 _ s]) simp
  moreover have l: "loopInThread s = [1 \<mapsto> 5]" using s by (auto simp: create_loop_def)
  ultimately show ?thesis
    using one_loop_per_thread [of s 1 5, where evtfd = 4 and d = 6 and wa = 0 and chans = ?ch]
      one_loop_per_thread [of s 2, where evtfd = 4 and d = 6 and wa = 0 and chans = ?ch]
    by (intro exI [of _ s]) (auto simp: getEventLoopOfCurrentThread_def create_loop_def)
qed

end
