(* ===== verification/Sync.thy ===== *)
theory Sync
  imports Prelude
begin

text \<open>
  The monitors of \<open>src/base\<close>: \<open>BlockingQueue\<close> and \<open>BoundedBlockingQueue\<close> (\<open>blocking_queue.h\<close>),
  \<open>CountDownLatch\<close> (\<open>count_down_latch.h\<close>), \<open>ThreadPool\<close> (\<open>threadpool.h\<close>, \<open>threadpool.cpp\<close>) and the
  holder of \<open>MutexLock\<close> (\<open>mutex.h\<close>).  A method body runs under the mutex, so it is one atomic step; a
  method that waits on its condition is a step that is not enabled (None) until the condition holds.
\<close>

subsection \<open>The queues\<close>

record 'a bqueue = items :: "'a list"

definition bq_new :: "'a bqueue" where
  "bq_new = \<lparr>items = []\<rparr>"

definition bq_put :: "'a \<Rightarrow> 'a bqueue \<Rightarrow> 'a bqueue option" where
  "bq_put x q = Some (q\<lparr>items := items q @ [x]\<rparr>)"

definition bq_take :: "'a bqueue \<Rightarrow> ('a \<times> 'a bqueue) option" where
  "bq_take q = (case items q of [] \<Rightarrow> None | x # xs \<Rightarrow> Some (x, q\<lparr>items := xs\<rparr>))"

definition bq_size :: "'a bqueue \<Rightarrow> nat" where
  "bq_size q = length (items q)"

definition bq_empty :: "'a bqueue \<Rightarrow> bool" where
  "bq_empty q \<longleftrightarrow> items q = []"

record 'a bounded =
  bitems :: "'a list"
  maxSize :: nat

definition bb_new :: "nat \<Rightarrow> 'a bounded" where
  "bb_new m = \<lparr>bitems = [], maxSize = m\<rparr>"

definition bb_put :: "'a \<Rightarrow> 'a bounded \<Rightarrow> 'a bounded option" where
  "bb_put x q = (if maxSize q \<le> length (bitems q) then None else Some (q\<lparr>bitems := bitems q @ [x]\<rparr>))"

definition bb_take :: "'a bounded \<Rightarrow> ('a \<times> 'a bounded) option" where
  "bb_take q = (case bitems q of [] \<Rightarrow> None | x # xs \<Rightarrow> Some (x, q\<lparr>bitems := xs\<rparr>))"

definition bb_full :: "'a bounded \<Rightarrow> bool" where
  "bb_full q \<longleftrightarrow> maxSize q \<le> length (bitems q)"

definition bb_empty :: "'a bounded \<Rightarrow> bool" where
  "bb_empty q \<longleftrightarrow> bitems q = []"

definition bb_size :: "'a bounded \<Rightarrow> nat" where
  "bb_size q = length (bitems q)"

definition bb_capacity :: "'a bounded \<Rightarrow> nat" where
  "bb_capacity q = maxSize q"

subsection \<open>The latch\<close>

record latch = latchCount :: int

definition latch_new :: "int \<Rightarrow> latch" where
  "latch_new n = \<lparr>latchCount = n\<rparr>"

text \<open>Whether \<open>wait\<close> can return, and the step that returns.\<close>

definition latch_wait :: "latch \<Rightarrow> latch option" where
  "latch_wait l = (if 0 < latchCount l then None else Some l)"

text \<open>\<open>countDown\<close> with whether it wakes the waiting threads.\<close>

definition countDown :: "latch \<Rightarrow> latch \<times> bool" where
  "countDown l = (let l1 = l\<lparr>latchCount := latchCount l - 1\<rparr> in (l1, latchCount l1 = 0))"

definition getCount :: "latch \<Rightarrow> int" where
  "getCount l = latchCount l"

subsection \<open>The thread pool\<close>

text \<open>
  \<open>workers\<close> is how many threads were started.  \<open>run\<close> without workers executes the task in the caller;
  its result says so.
\<close>

record 'a pool =
  tasks :: "'a list"
  maxQueueSize :: nat
  running :: bool
  workers :: nat

definition pool_new :: "'a pool" where
  "pool_new = \<lparr>tasks = [], maxQueueSize = 0, running = False, workers = 0\<rparr>"

definition setMaxQueueSize :: "nat \<Rightarrow> 'a pool \<Rightarrow> 'a pool" where
  "setMaxQueueSize m p = p\<lparr>maxQueueSize := m\<rparr>"

definition pool_start :: "nat \<Rightarrow> 'a pool \<Rightarrow> 'a pool" where
  "pool_start n p = p\<lparr>running := True, workers := n\<rparr>"

definition pool_stop :: "'a pool \<Rightarrow> 'a pool" where
  "pool_stop p = p\<lparr>running := False\<rparr>"

text \<open>The destructor stops a pool that runs.\<close>

definition pool_dtor :: "'a pool \<Rightarrow> 'a pool" where
  "pool_dtor p = (if running p then pool_stop p else p)"

definition queueSize :: "'a pool \<Rightarrow> nat" where
  "queueSize p = length (tasks p)"

definition isFull :: "'a pool \<Rightarrow> bool" where
  "isFull p \<longleftrightarrow> 0 < maxQueueSize p \<and> maxQueueSize p \<le> length (tasks p)"

datatype run_result = RanInline | Dropped | Accepted

definition pool_run :: "'a \<Rightarrow> 'a pool \<Rightarrow> (run_result \<times> 'a pool) option" where
  "pool_run t p =
     (if workers p = 0 then Some (RanInline, p)
      else if isFull p \<and> running p then None
      else if \<not> running p then Some (Dropped, p)
      else Some (Accepted, p\<lparr>tasks := tasks p @ [t]\<rparr>))"

text \<open>\<open>take\<close>: None while it waits; Some None is the empty task of a stopped pool.\<close>

definition pool_take :: "'a pool \<Rightarrow> ('a option \<times> 'a pool) option" where
  "pool_take p =
     (case tasks p of
        [] \<Rightarrow> if running p then None else Some (None, p)
      | t # ts \<Rightarrow> Some (Some t, p\<lparr>tasks := ts\<rparr>))"

text \<open>One round of a worker: it leaves its loop when the pool no longer runs.\<close>

datatype 'a round = Left | Waits | Executes 'a | Nothing

definition worker_round :: "'a pool \<Rightarrow> 'a round \<times> 'a pool" where
  "worker_round p =
     (if \<not> running p then (Left, p)
      else case pool_take p of
          None \<Rightarrow> (Waits, p)
        | Some (None, p') \<Rightarrow> (Nothing, p')
        | Some (Some t, p') \<Rightarrow> (Executes t, p'))"

text \<open>
  A worker thread, \<open>runInThread\<close>: the initialisation callback, if there is one, then rounds until the pool has stopped;
  an exception, of the callback or of a task, ends the process or is thrown on.  The results of the rounds are the list
  \<open>rs\<close>, and \<open>ends t\<close> is what the call of the task \<open>t\<close> does.
\<close>

datatype 'a weffect = InitCallback | Runs 'a | WStderr string | WAbort | WRethrow

fun caught :: "string \<Rightarrow> outcome \<Rightarrow> 'a weffect list \<Rightarrow> 'a weffect list" where
  "caught nm Returns es = es"
| "caught nm (ThrowsException what) es =
     [WStderr (''exception caught in ThreadPool '' @ nm @ [LF]), WStderr (''reason: '' @ what @ [LF]), WAbort]"
| "caught nm ThrowsOther es = [WStderr (''unknown exception caught in ThreadPool '' @ nm @ [LF]), WRethrow]"

fun worker_loop :: "string \<Rightarrow> ('a \<Rightarrow> outcome) \<Rightarrow> 'a round list \<Rightarrow> 'a weffect list" where
  "worker_loop nm ends [] = []"
| "worker_loop nm ends (Left # rs) = []"
| "worker_loop nm ends (Waits # rs) = worker_loop nm ends rs"
| "worker_loop nm ends (Nothing # rs) = worker_loop nm ends rs"
| "worker_loop nm ends (Executes t # rs) = Runs t # caught nm (ends t) (worker_loop nm ends rs)"

definition pool_runInThread :: "string \<Rightarrow> outcome option \<Rightarrow> ('a \<Rightarrow> outcome) \<Rightarrow> 'a round list \<Rightarrow> 'a weffect list" where
  "pool_runInThread nm initCb ends rs =
     (case initCb of None \<Rightarrow> worker_loop nm ends rs
      | Some out \<Rightarrow> InitCallback # caught nm out (worker_loop nm ends rs))"

subsection \<open>The holder of a mutex\<close>

record mutex = holder :: int

definition mutex_lock :: "int \<Rightarrow> mutex \<Rightarrow> mutex" where
  "mutex_lock tid m = m\<lparr>holder := tid\<rparr>"

definition mutex_unlock :: "mutex \<Rightarrow> mutex" where
  "mutex_unlock m = m\<lparr>holder := 0\<rparr>"

definition isLockedByThisThread :: "int \<Rightarrow> mutex \<Rightarrow> bool" where
  "isLockedByThisThread tid m \<longleftrightarrow> holder m = tid"

text \<open>Assertions: None aborts the process.\<close>

definition assertLocked :: "int \<Rightarrow> mutex \<Rightarrow> unit option" where
  "assertLocked tid m = (if isLockedByThisThread tid m then Some () else None)"

definition mutex_dtor :: "mutex \<Rightarrow> unit option" where
  "mutex_dtor m = (if holder m = 0 then Some () else None)"

text \<open>A guarded block ends with the mutex free, so the destructor passes; while another thread is inside, it aborts.\<close>

lemma guarded_then_dtor: "mutex_dtor (mutex_unlock (mutex_lock t m)) = Some ()" "0 < t \<Longrightarrow> mutex_dtor (mutex_lock t m) = None"
  by (simp_all add: mutex_dtor_def mutex_unlock_def mutex_lock_def)

subsection \<open>The contract of a queue between threads\<close>

datatype 'a qevent = Put 'a | Take

text \<open>
  Producers and consumers in any order; an operation that would block does not happen.  The result
  is the queue, what was put and what was taken.
\<close>

fun q_run :: "('a \<Rightarrow> 'q \<Rightarrow> 'q option) \<Rightarrow> ('q \<Rightarrow> ('a \<times> 'q) option) \<Rightarrow> 'a qevent list \<Rightarrow> 'q \<Rightarrow> 'q \<times> 'a list \<times> 'a list" where
  "q_run pt tk [] q = (q, [], [])"
| "q_run pt tk (Put x # es) q =
     (case pt x q of
        None \<Rightarrow> q_run pt tk es q
      | Some q' \<Rightarrow> (case q_run pt tk es q' of (r, ps, ts) \<Rightarrow> (r, x # ps, ts)))"
| "q_run pt tk (Take # es) q =
     (case tk q of
        None \<Rightarrow> q_run pt tk es q
      | Some (x, q') \<Rightarrow> (case q_run pt tk es q' of (r, ps, ts) \<Rightarrow> (r, ps, x # ts)))"

locale monitor_queue =
  fixes good :: "'q \<Rightarrow> bool"
    and elems :: "'q \<Rightarrow> 'a list"
    and put :: "'a \<Rightarrow> 'q \<Rightarrow> 'q option"
    and get :: "'q \<Rightarrow> ('a \<times> 'q) option"
  assumes put: "good q \<Longrightarrow> put x q = Some q' \<Longrightarrow> good q' \<and> elems q' = elems q @ [x]"
    and get: "good q \<Longrightarrow> get q = Some (x, q') \<Longrightarrow> good q' \<and> elems q = x # elems q'"
    and get_blocks: "good q \<Longrightarrow> get q = None \<longleftrightarrow> elems q = []"
begin

text \<open>Nothing is lost, duplicated or reordered.\<close>

lemma run_fifo:
  assumes "good q" "q_run put get es q = (q', ps, ts)"
  shows "good q' \<and> elems q @ ps = ts @ elems q'"
  using assms
proof (induction es arbitrary: q ps ts)
  case (Cons e es)
  show ?case
  proof (cases e)
    case (Put x)
    show ?thesis
    proof (cases "put x q")
      case None
      with Cons Put show ?thesis by simp
    next
      case (Some q1)
      from put [OF Cons.prems(1) this] have q1: "good q1" "elems q1 = elems q @ [x]" by simp_all
      obtain ps' where "q_run put get es q1 = (q', ps', ts)" "ps = x # ps'"
        using Cons.prems(2) Put Some by (auto split: prod.splits)
      with Cons.IH [OF q1(1)] q1(2) show ?thesis by simp
    qed
  next
    case Take
    show ?thesis
    proof (cases "get q")
      case None
      with Cons Take show ?thesis by simp
    next
      case (Some xq)
      obtain x q1 where xq: "xq = (x, q1)" by (cases xq)
      from get [OF Cons.prems(1) Some [unfolded xq]] have q1: "good q1" "elems q = x # elems q1" by simp_all
      obtain ts' where "q_run put get es q1 = (q', ps, ts')" "ts = x # ts'"
        using Cons.prems(2) Take Some xq by (auto split: prod.splits)
      with Cons.IH [OF q1(1)] q1(2) show ?thesis by simp
    qed
  qed
qed simp

end

interpretation bkq: monitor_queue "\<lambda>_. True" items bq_put bq_take
  by unfold_locales (auto simp: bq_put_def bq_take_def split: list.splits)

interpretation bdq: monitor_queue "\<lambda>q. length (bitems q) \<le> maxSize q" bitems bb_put bb_take
  by unfold_locales (auto simp: bb_put_def bb_take_def split: list.splits if_splits)

text \<open>The queue of a running pool with workers, seen by producers and workers.\<close>

definition pool_put :: "'a \<Rightarrow> 'a pool \<Rightarrow> 'a pool option" where
  "pool_put t p = (case pool_run t p of Some (Accepted, p') \<Rightarrow> Some p' | _ \<Rightarrow> None)"

definition pool_get :: "'a pool \<Rightarrow> ('a \<times> 'a pool) option" where
  "pool_get p = (case worker_round p of (Executes t, p') \<Rightarrow> Some (t, p') | _ \<Rightarrow> None)"

definition pool_ok :: "'a pool \<Rightarrow> bool" where
  "pool_ok p \<longleftrightarrow> running p \<and> 0 < workers p \<and> (0 < maxQueueSize p \<longrightarrow> length (tasks p) \<le> maxQueueSize p)"

interpretation tpq: monitor_queue pool_ok tasks pool_put pool_get
  by unfold_locales
    (auto simp: pool_ok_def pool_put_def pool_get_def pool_run_def worker_round_def pool_take_def isFull_def
      split: list.splits if_splits option.splits)

subsection \<open>Properties\<close>

text \<open>
  C33: under any interleaving of producers and consumers a bounded queue hands out what was put, in
  order, each element once, holds the rest, and never exceeds its capacity; a producer waits exactly
  while it is full and a consumer exactly while it is empty.
\<close>

theorem bounded_queue_fifo:
  "case q_run bb_put bb_take es (bb_new m) of (q, ps, ts) \<Rightarrow>
     ps = ts @ bitems q \<and> bb_size q \<le> m \<and> (\<forall>x. bb_put x q = None \<longleftrightarrow> bb_full q) \<and> (bb_take q = None \<longleftrightarrow> bb_empty q)"
proof -
  obtain q ps ts where r: "q_run bb_put bb_take es (bb_new m) = (q, ps, ts)"
    by (cases "q_run bb_put bb_take es (bb_new m)")
  have m: "maxSize q = m" if "q_run bb_put bb_take es s = (q, ps, ts)" "maxSize s = m" for s
    using that
  proof (induction es arbitrary: s ps ts)
    case (Cons e es)
    then show ?case
      by (cases e) (auto simp: bb_put_def bb_take_def split: if_splits list.splits prod.splits)
  qed simp
  have "length (bitems (bb_new m)) \<le> maxSize (bb_new m)" by (simp add: bb_new_def)
  from bdq.run_fifo [OF this r] have "length (bitems q) \<le> maxSize q" "ps = ts @ bitems q"
    by (simp_all add: bb_new_def)
  moreover have "maxSize q = m" by (rule m [OF r]) (simp add: bb_new_def)
  ultimately show ?thesis
    unfolding r prod.case
    by (auto simp: bb_put_def bb_take_def bb_full_def bb_empty_def bb_size_def split: list.splits)
qed



text \<open>
  \<open>wait\<close> returns exactly when the latch has been counted down as often as it was set to, and the
  waiting threads are woken by exactly that count.
\<close>

lemma latch_opens:
  "(latch_wait (((\<lambda>l. fst (countDown l)) ^^ k) (latch_new n)) \<noteq> None \<longleftrightarrow> n \<le> int k) \<and>
   (snd (countDown (((\<lambda>l. fst (countDown l)) ^^ k) (latch_new n))) \<longleftrightarrow> n = int k + 1)"
proof -
  have "latchCount (((\<lambda>l. fst (countDown l)) ^^ k) (latch_new n)) = n - int k"
    by (induction k) (simp_all add: latch_new_def countDown_def Let_def)
  then show ?thesis by (auto simp: latch_wait_def countDown_def Let_def)
qed

end
