(* ===== verification/Monitor.thy ===== *)
theory Monitor
  imports Sync
begin

text \<open>
  \<open>MutexLock\<close>, \<open>MutexLockGuard\<close> and \<open>Condition\<close> (\<open>src/base/mutex.h\<close>) shared by any number of threads: the
  pthread mutex with its owner, the field \<open>holder_\<close> that the code keeps beside it, and the places in \<open>lock\<close>,
  \<open>unlock\<close> and \<open>wait\<close> between the two.  \<open>pthread_cond_wait\<close> releases the mutex and goes to sleep in one step, may
  return without a notification, and returns with the mutex.
\<close>

subsection \<open>Places and steps\<close>

text \<open>
  A thread in \<open>lock\<close> after \<open>pthread_mutex_lock\<close>; in the critical section; in \<open>unlock\<close> after \<open>unassignHolder\<close>; in \<open>wait\<close>
  before, in and after \<open>pthread_cond_wait\<close>.
\<close>

datatype mplace = Outside | Locked | Inside | Unlocking | WaitBegins | Asleep | Woken | WaitEnds

text \<open>\<open>mutexOf\<close> holds \<open>holder_\<close>, \<open>pthreadOwner\<close> is the state of the pthread mutex.\<close>

record monitor =
  mutexOf :: mutex
  pthreadOwner :: "int option"
  placeOf :: "int \<Rightarrow> mplace"

definition monitor_new :: monitor where
  "monitor_new = \<lparr>mutexOf = \<lparr>holder = 0\<rparr>, pthreadOwner = None, placeOf = (\<lambda>t. Outside)\<rparr>"

definition assignHolder :: "int \<Rightarrow> monitor \<Rightarrow> monitor" where
  "assignHolder tid s = s\<lparr>mutexOf := (mutexOf s)\<lparr>holder := tid\<rparr>\<rparr>"

definition unassignHolder :: "monitor \<Rightarrow> monitor" where
  "unassignHolder s = s\<lparr>mutexOf := (mutexOf s)\<lparr>holder := 0\<rparr>\<rparr>"

definition goes :: "int \<Rightarrow> mplace \<Rightarrow> monitor \<Rightarrow> monitor" where
  "goes t m s = s\<lparr>placeOf := (placeOf s)(t := m)\<rparr>"

text \<open>Thread ids are positive.  \<open>notify\<close> wakes one sleeper, \<open>notifyAll\<close> all of them.\<close>

inductive mon_step :: "monitor \<Rightarrow> monitor \<Rightarrow> bool" where
  lock_pthread: "0 < t \<Longrightarrow> placeOf s t = Outside \<Longrightarrow> pthreadOwner s = None \<Longrightarrow> mon_step s (goes t Locked (s\<lparr>pthreadOwner := Some t\<rparr>))"
| lock_assign: "placeOf s t = Locked \<Longrightarrow> mon_step s (goes t Inside (assignHolder t s))"
| unlock_unassign: "placeOf s t = Inside \<Longrightarrow> mon_step s (goes t Unlocking (unassignHolder s))"
| unlock_pthread: "placeOf s t = Unlocking \<Longrightarrow> mon_step s (goes t Outside (s\<lparr>pthreadOwner := None\<rparr>))"
| wait_unassign: "placeOf s t = Inside \<Longrightarrow> mon_step s (goes t WaitBegins (unassignHolder s))"
| wait_sleep: "placeOf s t = WaitBegins \<Longrightarrow> mon_step s (goes t Asleep (s\<lparr>pthreadOwner := None\<rparr>))"
| notify: "placeOf s u = Asleep \<Longrightarrow> mon_step s (goes u Woken s)"
| notifyAll: "mon_step s (s\<lparr>placeOf := (\<lambda>u. if placeOf s u = Asleep then Woken else placeOf s u)\<rparr>)"
| wakes_by_itself: "placeOf s t = Asleep \<Longrightarrow> mon_step s (goes t Woken s)"
| wait_pthread: "placeOf s t = Woken \<Longrightarrow> pthreadOwner s = None \<Longrightarrow> mon_step s (goes t WaitEnds (s\<lparr>pthreadOwner := Some t\<rparr>))"
| wait_assign: "placeOf s t = WaitEnds \<Longrightarrow> mon_step s (goes t Inside (assignHolder t s))"

inductive mon_reachable :: "monitor \<Rightarrow> bool" where
  init: "mon_reachable monitor_new"
| step: "mon_reachable s \<Longrightarrow> mon_step s s' \<Longrightarrow> mon_reachable s'"

inductive_cases mon_stepE: "mon_step s s'"

lemmas mon_defs = goes_def assignHolder_def unassignHolder_def

subsection \<open>The invariant\<close>

definition owns :: "mplace \<Rightarrow> bool" where
  "owns m \<longleftrightarrow> m = Locked \<or> m = Inside \<or> m = Unlocking \<or> m = WaitBegins \<or> m = WaitEnds"

lemma owns_simps [simp]: "\<not> owns Outside" "owns Locked" "owns Inside" "owns Unlocking" "owns WaitBegins" "\<not> owns Asleep"
  "\<not> owns Woken" "owns WaitEnds"
  by (simp_all add: owns_def)

text \<open>The owner of the pthread mutex is the one thread at an owning place; \<open>holder_\<close> is its id exactly inside.\<close>

definition mon_inv :: "monitor \<Rightarrow> bool" where
  "mon_inv s \<longleftrightarrow> (\<forall>t. owns (placeOf s t) \<longleftrightarrow> pthreadOwner s = Some t) \<and>
     (\<forall>t. placeOf s t \<noteq> Outside \<longrightarrow> 0 < t) \<and>
     holder (mutexOf s) = (case pthreadOwner s of Some t \<Rightarrow> if placeOf s t = Inside then t else 0 | None \<Rightarrow> 0)"

lemma mon_inv_new: "mon_inv monitor_new"
  by (simp add: mon_inv_def monitor_new_def)

lemma mon_inv_step: "mon_step s s' \<Longrightarrow> mon_inv s \<Longrightarrow> mon_inv s'"
proof (induction rule: mon_step.induct)
  case (notifyAll s)
  define f where "f u = (if placeOf s u = Asleep then Woken else placeOf s u)" for u
  have "owns (f u) = owns (placeOf s u)" "f u = Inside \<longleftrightarrow> placeOf s u = Inside" "f u = Outside \<longleftrightarrow> placeOf s u = Outside" for u
    by (auto simp: f_def)
  with notifyAll show ?case unfolding f_def [symmetric] by (simp add: mon_inv_def split: option.split)
qed (auto simp: mon_inv_def mon_defs split: option.splits if_splits, (metis owns_simps mplace.distinct)+)

lemma mon_reachable_inv: "mon_reachable s \<Longrightarrow> mon_inv s"
  by (induction rule: mon_reachable.induct) (simp_all add: mon_inv_new mon_inv_step)

subsection \<open>Properties\<close>

text \<open>
  C32: the monitor excludes: under any interleaving at most one thread is in the critical section, also around waits,
  \<open>isLockedByThisThread\<close> answers true exactly in that thread, the field is clear whenever the mutex is free, as the destructor
  asserts, and no thread blocks another for ever: whoever owns the mutex has a step of its own, and when nobody does, every
  thread that wants it can take it.
\<close>

theorem monitor_excludes:
  assumes "mon_reachable s"
  shows "(placeOf s t = Inside \<and> placeOf s u = Inside \<longrightarrow> t = u) \<and>
    (0 < t \<longrightarrow> (isLockedByThisThread t (mutexOf s) \<longleftrightarrow> placeOf s t = Inside)) \<and>
    (pthreadOwner s = None \<longrightarrow> holder (mutexOf s) = 0) \<and>
    (pthreadOwner s = Some t \<longrightarrow> (\<exists>s'. mon_step s s' \<and> placeOf s' t \<noteq> placeOf s t)) \<and>
    (pthreadOwner s = None \<and> 0 < t \<and> placeOf s t \<in> {Outside, Woken} \<longrightarrow> (\<exists>s'. mon_step s s' \<and> pthreadOwner s' = Some t))"
proof -
  have inv: "\<And>t. owns (placeOf s t) \<longleftrightarrow> pthreadOwner s = Some t" "\<And>t. placeOf s t \<noteq> Outside \<Longrightarrow> 0 < t"
    "holder (mutexOf s) = (case pthreadOwner s of Some t \<Rightarrow> if placeOf s t = Inside then t else 0 | None \<Rightarrow> 0)"
    using mon_reachable_inv [OF assms] by (auto simp: mon_inv_def)
  have one: "placeOf s t = Inside \<Longrightarrow> pthreadOwner s = Some t" for t using inv(1) [of t] by simp
  have "isLockedByThisThread t (mutexOf s) \<longleftrightarrow> placeOf s t = Inside" if "0 < t"
    using that inv(3) one [of t] by (auto simp: isLockedByThisThread_def split: option.splits if_splits)
  moreover have "\<exists>s'. mon_step s s' \<and> placeOf s' t \<noteq> placeOf s t" if "pthreadOwner s = Some t"
  proof (cases "placeOf s t")
    case Locked
    with lock_assign [OF Locked] show ?thesis by (intro exI [of _ "goes t Inside (assignHolder t s)"]) (simp add: mon_defs)
  next
    case Inside
    with unlock_unassign [OF Inside] show ?thesis by (intro exI [of _ "goes t Unlocking (unassignHolder s)"]) (simp add: mon_defs)
  next
    case Unlocking
    with unlock_pthread [OF Unlocking] show ?thesis by (intro exI [of _ "goes t Outside (s\<lparr>pthreadOwner := None\<rparr>)"]) (simp add: mon_defs)
  next
    case WaitBegins
    with wait_sleep [OF WaitBegins] show ?thesis by (intro exI [of _ "goes t Asleep (s\<lparr>pthreadOwner := None\<rparr>)"]) (simp add: mon_defs)
  next
    case WaitEnds
    with wait_assign [OF WaitEnds] show ?thesis by (intro exI [of _ "goes t Inside (assignHolder t s)"]) (simp add: mon_defs)
  qed (use that inv(1) [of t] in simp_all)
  moreover have "\<exists>s'. mon_step s s' \<and> pthreadOwner s' = Some t"
    if "pthreadOwner s = None" "0 < t" "placeOf s t \<in> {Outside, Woken}"
  proof (cases "placeOf s t = Outside")
    case True
    with lock_pthread [OF that(2) True that(1)] show ?thesis
      by (intro exI [of _ "goes t Locked (s\<lparr>pthreadOwner := Some t\<rparr>)"]) (simp add: mon_defs)
  next
    case False
    with that(3) have "placeOf s t = Woken" by simp
    with wait_pthread [OF this that(1)] show ?thesis
      by (intro exI [of _ "goes t WaitEnds (s\<lparr>pthreadOwner := Some t\<rparr>)"]) (simp add: mon_defs)
  qed
  ultimately show ?thesis using one [of t] one [of u] inv(3) by auto
qed

theorem monitor_excludes_witness:
  "\<exists>s. mon_reachable s \<and> placeOf s 7 = Asleep \<and> placeOf s 8 = Inside \<and> isLockedByThisThread 8 (mutexOf s) \<and>
     \<not> isLockedByThisThread 7 (mutexOf s)"
proof -
  let ?a = "goes 7 Locked (monitor_new\<lparr>pthreadOwner := Some 7\<rparr>)"
  let ?b = "goes 7 Inside (assignHolder 7 ?a)"
  let ?c = "goes 7 WaitBegins (unassignHolder ?b)"
  let ?d = "goes 7 Asleep (?c\<lparr>pthreadOwner := None\<rparr>)"
  let ?e = "goes 8 Locked (?d\<lparr>pthreadOwner := Some 8\<rparr>)"
  let ?f = "goes 8 Inside (assignHolder 8 ?e)"
  have "mon_reachable ?a" by (rule mon_reachable.step [OF mon_reachable.init lock_pthread]) (simp_all add: monitor_new_def)
  then have "mon_reachable ?b" by (rule mon_reachable.step [OF _ lock_assign]) (simp add: mon_defs)
  then have "mon_reachable ?c" by (rule mon_reachable.step [OF _ wait_unassign]) (simp add: mon_defs)
  then have "mon_reachable ?d" by (rule mon_reachable.step [OF _ wait_sleep]) (simp add: mon_defs)
  then have "mon_reachable ?e" by (rule mon_reachable.step [OF _ lock_pthread]) (simp_all add: mon_defs monitor_new_def)
  then have r: "mon_reachable ?f" by (rule mon_reachable.step [OF _ lock_assign]) (simp add: mon_defs)
  have p: "placeOf ?f 7 = Asleep" "placeOf ?f 8 = Inside" by (simp_all add: mon_defs)
  have "isLockedByThisThread 8 (mutexOf ?f)" "\<not> isLockedByThisThread 7 (mutexOf ?f)"
    using monitor_excludes [OF r, of 8 7] monitor_excludes [OF r, of 7 8] unfolding p by simp_all
  with r p show ?thesis by blast
qed

end
