(* ===== verification/Socket_Wrapper.thy ===== *)
theory Socket_Wrapper
  imports Inet_Address
begin

text \<open>
  \<open>Socket\<close> (\<open>src/net/socket.h\<close>, \<open>socket.cpp\<close>): the options and the state of one descriptor under the calls of the
  wrapper, and the listening socket that \<open>Acceptor\<close> makes of it.  The results of the system calls are arguments; where the
  code logs at level FATAL the process ends, which is None.
\<close>

record osocket =
  osFd :: int
  tcpNoDelay :: bool
  reuseAddr :: bool
  reusePort :: bool
  keepAlive :: bool
  boundTo :: "inet_address option"
  listens :: bool
  wrClosed :: bool
  osClosed :: bool

definition socket_new :: "int \<Rightarrow> osocket" where
  "socket_new f = \<lparr>osFd = f, tcpNoDelay = False, reuseAddr = False, reusePort = False, keepAlive = False,
     boundTo = None, listens = False, wrClosed = False, osClosed = False\<rparr>"

definition socket_dtor :: "osocket \<Rightarrow> osocket" where
  "socket_dtor s = s\<lparr>osClosed := True\<rparr>"

definition bindAddress :: "int \<Rightarrow> inet_address \<Rightarrow> osocket \<Rightarrow> osocket option" where
  "bindAddress ret localaddr s = (if ret < 0 then None else Some (s\<lparr>boundTo := Some localaddr\<rparr>))"

definition socket_listen :: "int \<Rightarrow> osocket \<Rightarrow> osocket option" where
  "socket_listen ret s = (if ret < 0 then None else Some (s\<lparr>listens := True\<rparr>))"

definition shutdownWrite :: "int \<Rightarrow> osocket \<Rightarrow> osocket" where
  "shutdownWrite ret s = (if ret < 0 then s else s\<lparr>wrClosed := True\<rparr>)"

text \<open>An option that \<open>setsockopt\<close> refuses stays as it is; the code goes on.\<close>

definition setTcpNoDelay :: "int \<Rightarrow> bool \<Rightarrow> osocket \<Rightarrow> osocket" where
  "setTcpNoDelay ret on s = (if ret < 0 then s else s\<lparr>tcpNoDelay := on\<rparr>)"

definition setReuseAddr :: "int \<Rightarrow> bool \<Rightarrow> osocket \<Rightarrow> osocket" where
  "setReuseAddr ret on s = (if ret < 0 then s else s\<lparr>reuseAddr := on\<rparr>)"

definition setReusePort :: "int \<Rightarrow> bool \<Rightarrow> osocket \<Rightarrow> osocket" where
  "setReusePort ret on s = (if ret < 0 then s else s\<lparr>reusePort := on\<rparr>)"

definition setKeepAlive :: "int \<Rightarrow> bool \<Rightarrow> osocket \<Rightarrow> osocket" where
  "setKeepAlive ret on s = (if ret < 0 then s else s\<lparr>keepAlive := on\<rparr>)"

definition createNonblockingSocket :: "int \<Rightarrow> int option" where
  "createNonblockingSocket sockfd' = (if sockfd' < 0 then None else Some sockfd')"

text \<open>The socket of the acceptor: created, made reusable and bound by the constructor.\<close>

definition acceptor_socket :: "int \<Rightarrow> int \<Rightarrow> int \<Rightarrow> int \<Rightarrow> inet_address \<Rightarrow> bool \<Rightarrow> osocket option" where
  "acceptor_socket created ra rp bound listenAddr reuseport = do {
     f \<leftarrow> createNonblockingSocket created;
     bindAddress bound listenAddr (setReusePort rp reuseport (setReuseAddr ra True (socket_new f))) }"

text \<open>
  The acceptor's constructor either aborts or leaves a socket that is bound to the address it was given; it listens only
  when \<open>listen\<close> is called.
\<close>

lemma acceptor_socket_bound:
  "acceptor_socket created ra rp bound listenAddr reuseport =
    (if created < 0 \<or> bound < 0 then None
     else Some ((socket_new created)\<lparr>reuseAddr := 0 \<le> ra, reusePort := 0 \<le> rp \<and> reuseport, boundTo := Some listenAddr\<rparr>))"
  by (auto simp: acceptor_socket_def createNonblockingSocket_def bindAddress_def setReusePort_def setReuseAddr_def socket_new_def)

lemma acceptor_socket_listens:
  "acceptor_socket created ra rp bound listenAddr reuseport = Some s \<Longrightarrow>
    \<not> listens s \<and> boundTo s = Some listenAddr \<and> (0 \<le> ret \<longrightarrow> (\<exists>s'. socket_listen ret s = Some s' \<and> listens s' \<and> boundTo s' = Some listenAddr))"
  by (auto simp: acceptor_socket_bound socket_new_def socket_listen_def split: if_splits)

end
