(* ===== verification/Base_Util.thy ===== *)
theory Base_Util
  imports Prelude "HOL-Library.Signed_Division"
begin

text \<open>
  Small parts of \<open>src/base\<close>: time stamps (\<open>timestamp.h\<close>, \<open>timestamp.cpp\<close>), the cached thread id
  (\<open>current_thread.h\<close>, \<open>logger.cpp\<close>), log lines (\<open>logger.h\<close>, \<open>logger.cpp\<close>) and the deadline of a timed
  wait (\<open>mutex.h\<close>, \<open>condition.cpp\<close>).  64-bit numbers are integers: the values that occur stay far
  inside the range.  Division and remainder truncate, as in C++.
\<close>

subsection \<open>Formatting\<close>

text \<open>\<open>%5d\<close> and \<open>%06d\<close>: padded on the left with spaces, or with zeros behind the sign.\<close>

definition padLeft :: "nat \<Rightarrow> char \<Rightarrow> string \<Rightarrow> string" where
  "padLeft w c s = replicate (w - length s) c @ s"

definition format5d :: "int \<Rightarrow> string" where
  "format5d i = padLeft 5 (CHR '' '') (to_string i)"

definition format06d :: "int \<Rightarrow> string" where
  "format06d i = (if i < 0 then CHR ''-'' # padLeft 5 (CHR ''0'') (digits10 (nat (- i)))
                  else padLeft 6 (CHR ''0'') (digits10 (nat i)))"

subsection \<open>Time stamps\<close>

record timestamp = microSecondsSinceEpoch :: int

definition kMicroSecondsPerSecond :: int where
  "kMicroSecondsPerSecond = 1000 * 1000"

definition ts_invalid :: timestamp where
  "ts_invalid = \<lparr>microSecondsSinceEpoch = 0\<rparr>"

text \<open>\<open>now\<close>: the two fields of \<open>gettimeofday\<close>.\<close>

definition ts_now :: "int \<Rightarrow> int \<Rightarrow> timestamp" where
  "ts_now tv_sec tv_usec = \<lparr>microSecondsSinceEpoch = tv_sec * kMicroSecondsPerSecond + tv_usec\<rparr>"

definition ts_valid :: "timestamp \<Rightarrow> bool" where
  "ts_valid t \<longleftrightarrow> 0 < microSecondsSinceEpoch t"

definition secondsSinceEpoch :: "timestamp \<Rightarrow> int" where
  "secondsSinceEpoch t = microSecondsSinceEpoch t sdiv kMicroSecondsPerSecond"

definition ts_toString :: "timestamp \<Rightarrow> string" where
  "ts_toString t = take 31
     (to_string (microSecondsSinceEpoch t sdiv kMicroSecondsPerSecond) @ ''.'' @
      format06d (microSecondsSinceEpoch t smod kMicroSecondsPerSecond))"

definition ts_of :: "int \<Rightarrow> timestamp" where
  "ts_of us = \<lparr>microSecondsSinceEpoch = us\<rparr>"

definition ts_less :: "timestamp \<Rightarrow> timestamp \<Rightarrow> bool" where
  "ts_less a b \<longleftrightarrow> microSecondsSinceEpoch a < microSecondsSinceEpoch b"

definition ts_eq :: "timestamp \<Rightarrow> timestamp \<Rightarrow> bool" where
  "ts_eq a b \<longleftrightarrow> microSecondsSinceEpoch a = microSecondsSinceEpoch b"

definition ts_ne :: "timestamp \<Rightarrow> timestamp \<Rightarrow> bool" where
  "ts_ne a b \<longleftrightarrow> \<not> ts_eq a b"

subsection \<open>The current thread\<close>

record tls =
  cachedTid :: int
  tidText :: string
  tidTextLength :: int
  threadName :: string

definition tls_new :: tls where
  "tls_new = \<lparr>cachedTid = 0, tidText = [], tidTextLength = 6, threadName = ''unknown''\<rparr>"

definition cacheTid :: "int \<Rightarrow> tls \<Rightarrow> tls" where
  "cacheTid gettid t =
     (if cachedTid t = 0
      then t\<lparr>cachedTid := gettid, tidTextLength := int (length (format5d gettid)), tidText := take 31 (format5d gettid)\<rparr>
      else t)"

definition tid :: "int \<Rightarrow> tls \<Rightarrow> int \<times> tls" where
  "tid gettid t = (let t1 = (if cachedTid t = 0 then cacheTid gettid t else t) in (cachedTid t1, t1))"

definition tidString :: "tls \<Rightarrow> string" where
  "tidString t = tidText t"

definition tidStringLength :: "tls \<Rightarrow> int" where
  "tidStringLength t = tidTextLength t"

definition thread_name :: "tls \<Rightarrow> string" where
  "thread_name t = threadName t"

subsection \<open>Log lines\<close>

datatype LogLevel = TRACE | DBG | INFO | WARN | ERROR | FATAL

fun levelCode :: "LogLevel \<Rightarrow> nat" where
  "levelCode TRACE = 0"
| "levelCode DBG = 1"
| "levelCode INFO = 2"
| "levelCode WARN = 3"
| "levelCode ERROR = 4"
| "levelCode FATAL = 5"

fun LogLevelName :: "LogLevel \<Rightarrow> string" where
  "LogLevelName TRACE = ''TRACE ''"
| "LogLevelName DBG = ''DEBUG ''"
| "LogLevelName INFO = ''INFO  ''"
| "LogLevelName WARN = ''WARN  ''"
| "LogLevelName ERROR = ''ERROR ''"
| "LogLevelName FATAL = ''FATAL ''"

text \<open>The macros: the lower three levels test the global level, the others always log.\<close>

definition log_enabled :: "LogLevel \<Rightarrow> LogLevel \<Rightarrow> bool" where
  "log_enabled g lev \<longleftrightarrow>
     (if lev = TRACE \<or> lev = DBG \<or> lev = INFO then levelCode g \<le> levelCode lev else True)"

definition getBaseName :: "string \<Rightarrow> string" where
  "getBaseName path = rev (takeWhile (\<lambda>c. c \<noteq> CHR ''/'') (rev path))"

text \<open>
  What one log statement writes, with \<open>time\<close> the formatted time, and whether the process aborts.  The
  levels TRACE and DBG pass the name of the function.
\<close>

definition logLine :: "string \<Rightarrow> tls \<Rightarrow> LogLevel \<Rightarrow> string \<Rightarrow> string \<Rightarrow> int \<Rightarrow> string \<Rightarrow> string" where
  "logLine time t lev func path line msg =
     time @ '' '' @ tidString t @ '' '' @ LogLevelName lev @
     (if lev = TRACE \<or> lev = DBG then func @ '' '' else []) @
     msg @ '' - '' @ getBaseName path @ '':'' @ to_string line @ [LF]"

definition log_stmt :: "LogLevel \<Rightarrow> string \<Rightarrow> tls \<Rightarrow> LogLevel \<Rightarrow> string \<Rightarrow> string \<Rightarrow> int \<Rightarrow> string \<Rightarrow> string \<times> bool" where
  "log_stmt g time t lev func path line msg =
     (if log_enabled g lev then (logLine time t lev func path line msg, lev = FATAL) else ([], False))"

subsection \<open>The deadline of a timed wait\<close>

definition kNanoSecondsPerSecond :: int where
  "kNanoSecondsPerSecond = 1000000000"

record timespec =
  tv_sec :: int
  tv_nsec :: int

text \<open>
  \<open>nanoseconds\<close> is the duration after the conversion from \<open>double\<close>.  The two computations of
  \<open>mutex.h\<close> and \<open>condition.cpp\<close>, and what each returns for the result of \<open>pthread_cond_timedwait\<close>.
\<close>

definition deadline_header :: "int \<Rightarrow> timespec \<Rightarrow> timespec" where
  "deadline_header nanoseconds now =
     (let s = tv_sec now + nanoseconds sdiv kNanoSecondsPerSecond;
          n = tv_nsec now + nanoseconds smod kNanoSecondsPerSecond
      in if kNanoSecondsPerSecond \<le> n then \<lparr>tv_sec = s + 1, tv_nsec = n - kNanoSecondsPerSecond\<rparr>
         else \<lparr>tv_sec = s, tv_nsec = n\<rparr>)"

definition deadline_source :: "int \<Rightarrow> timespec \<Rightarrow> timespec" where
  "deadline_source nanoseconds now =
     \<lparr>tv_sec = tv_sec now + (tv_nsec now + nanoseconds) sdiv kNanoSecondsPerSecond,
      tv_nsec = (tv_nsec now + nanoseconds) smod kNanoSecondsPerSecond\<rparr>"

definition ETIMEDOUT :: int where "ETIMEDOUT = 110"

definition waited_header :: "int \<Rightarrow> bool" where
  "waited_header r \<longleftrightarrow> ETIMEDOUT \<noteq> r"

definition waited_source :: "int \<Rightarrow> bool" where
  "waited_source r \<longleftrightarrow> ETIMEDOUT = r"

lemma trunc_nonneg:
  fixes a b :: int
  assumes "0 \<le> a" "0 < b"
  shows "a sdiv b = a div b" "a smod b = a mod b"
  using assms smod_mod_positive [of a b] by (cases "a = 0"; simp add: signed_divide_int_def)+

text \<open>Adding two amounts in range carries at most one unit.\<close>

lemma carry:
  fixes n d b :: int
  assumes "0 \<le> n" "n < b"
  shows "(n + d) div b = d div b + (if b \<le> n + d mod b then 1 else 0)"
    and "(n + d) mod b = n + d mod b - (if b \<le> n + d mod b then b else 0)"
proof -
  have b: "0 < b" and r: "0 \<le> d mod b" "d mod b < b" using assms by auto
  define q where "q = (if b \<le> n + d mod b then 1 else 0 :: int)"
  have e: "n + d = b * (d div b + q) + (n + d mod b - b * q)" by (simp add: algebra_simps)
  have "0 \<le> n + d mod b - b * q" "n + d mod b - b * q < b" using assms r by (simp_all add: q_def) (use r in linarith)
  from int_div_pos_eq [OF e this] int_mod_pos_eq [OF e this]
  show "(n + d) div b = d div b + (if b \<le> n + d mod b then 1 else 0)"
    "(n + d) mod b = n + d mod b - (if b \<le> n + d mod b then b else 0)" by (simp_all add: q_def)
qed

subsection \<open>Properties\<close>

text \<open>
  For a duration that is not negative and a clock value in range, both definitions of
  \<open>waitForSeconds\<close> compute the same deadline: the clock value plus the duration, with the nanoseconds in
  range, as \<open>pthread_cond_timedwait\<close> requires; and for every result of the wait they return opposite values.
\<close>

lemma timed_wait_deadline:
  assumes "0 \<le> ns" "0 \<le> tv_nsec now" "tv_nsec now < kNanoSecondsPerSecond"
  shows "deadline_header ns now = deadline_source ns now \<and>
    0 \<le> tv_nsec (deadline_header ns now) \<and> tv_nsec (deadline_header ns now) < kNanoSecondsPerSecond \<and>
    tv_sec (deadline_header ns now) * kNanoSecondsPerSecond + tv_nsec (deadline_header ns now) =
      tv_sec now * kNanoSecondsPerSecond + tv_nsec now + ns \<and>
    waited_header r = (\<not> waited_source r)"
proof -
  let ?b = kNanoSecondsPerSecond
  have b: "0 < ?b" by (simp add: kNanoSecondsPerSecond_def)
  have sum: "0 \<le> tv_nsec now + ns" using assms by simp
  have src: "deadline_source ns now = \<lparr>tv_sec = tv_sec now + (tv_nsec now + ns) div ?b, tv_nsec = (tv_nsec now + ns) mod ?b\<rparr>"
    by (simp add: deadline_source_def trunc_nonneg [OF sum b])
  moreover have "deadline_header ns now = deadline_source ns now"
    unfolding src carry [OF assms(2,3)]
    by (simp add: deadline_header_def trunc_nonneg [OF assms(1) b] Let_def)
  moreover have "(tv_sec now + (tv_nsec now + ns) div ?b) * ?b + (tv_nsec now + ns) mod ?b = tv_sec now * ?b + tv_nsec now + ns"
    using div_mult_mod_eq [of "tv_nsec now + ns" ?b] by (simp add: algebra_simps)
  ultimately show ?thesis using b by (simp add: waited_header_def waited_source_def)
qed

end
