(* ===== verification/Logging.thy ===== *)
theory Logging
  imports Base_Util
begin

text \<open>
  The logger (\<open>src/base/logger.h\<close>, \<open>logger.cpp\<close>): the global level, the output and flush functions that can be replaced,
  and log statements one after the other, up to the one that ends the process.
\<close>

subsection \<open>Levels are ordered\<close>

lemma levelCode_inj: "levelCode a = levelCode b \<longleftrightarrow> a = b"
  by (cases a; cases b) simp_all

instantiation LogLevel :: linorder
begin

definition less_eq_LogLevel :: "LogLevel \<Rightarrow> LogLevel \<Rightarrow> bool" where
  "less_eq_LogLevel a b = (levelCode a \<le> levelCode b)"

definition less_LogLevel :: "LogLevel \<Rightarrow> LogLevel \<Rightarrow> bool" where
  "less_LogLevel a b = (levelCode a < levelCode b)"

instance
  by standard (auto simp: less_eq_LogLevel_def less_LogLevel_def levelCode_inj)

end

lemma level_bounds: "TRACE \<le> lev" "lev \<le> FATAL"
  by (cases lev; simp add: less_eq_LogLevel_def)+

text \<open>The macros compare with the global level only below WARN.\<close>

lemma log_enabled_iff: "log_enabled g lev \<longleftrightarrow> WARN \<le> lev \<or> g \<le> lev"
  by (cases lev) (auto simp: log_enabled_def less_eq_LogLevel_def)

subsection \<open>Sinks\<close>

text \<open>\<open>'w\<close> is what the output functions act on.\<close>

record 'w logger =
  gLogLevel :: LogLevel
  gOutput :: "string \<Rightarrow> 'w \<Rightarrow> 'w"
  gFlush :: "'w \<Rightarrow> 'w"

text \<open>Standard output: what has reached the terminal, and what is still in the buffer of \<open>stdio\<close>, which \<open>abort\<close> drops.\<close>

record stdio =
  terminal :: string
  unflushed :: string

definition defaultOutput :: "string \<Rightarrow> stdio \<Rightarrow> stdio" where
  "defaultOutput msg w = w\<lparr>unflushed := unflushed w @ msg\<rparr>"

definition defaultFlush :: "stdio \<Rightarrow> stdio" where
  "defaultFlush w = w\<lparr>terminal := terminal w @ unflushed w, unflushed := []\<rparr>"

definition logger_init :: "stdio logger" where
  "logger_init = \<lparr>gLogLevel = INFO, gOutput = defaultOutput, gFlush = defaultFlush\<rparr>"

definition setLogLevel :: "LogLevel \<Rightarrow> 'w logger \<Rightarrow> 'w logger" where
  "setLogLevel lev g = g\<lparr>gLogLevel := lev\<rparr>"

definition setOutput :: "(string \<Rightarrow> 'w \<Rightarrow> 'w) \<Rightarrow> 'w logger \<Rightarrow> 'w logger" where
  "setOutput f g = g\<lparr>gOutput := f\<rparr>"

definition setFlush :: "('w \<Rightarrow> 'w) \<Rightarrow> 'w logger \<Rightarrow> 'w logger" where
  "setFlush f g = g\<lparr>gFlush := f\<rparr>"

subsection \<open>Statements\<close>

record log_call =
  lcTime :: string
  lcThread :: tls
  lcLevel :: LogLevel
  lcFunc :: string
  lcPath :: string
  lcLine :: int
  lcMsg :: string

definition lineOf :: "log_call \<Rightarrow> string" where
  "lineOf c = logLine (lcTime c) (lcThread c) (lcLevel c) (lcFunc c) (lcPath c) (lcLine c) (lcMsg c)"

text \<open>The destructor writes the line; at level FATAL it flushes and aborts.\<close>

definition logger_dtor :: "log_call \<Rightarrow> 'w logger \<Rightarrow> 'w \<Rightarrow> 'w \<times> bool" where
  "logger_dtor c g w = (let w1 = gOutput g (lineOf c) w in if lcLevel c = FATAL then (gFlush g w1, True) else (w1, False))"

definition log_statement :: "log_call \<Rightarrow> 'w logger \<Rightarrow> 'w \<Rightarrow> 'w \<times> bool" where
  "log_statement c g w = (if log_enabled (gLogLevel g) (lcLevel c) then logger_dtor c g w else (w, False))"

text \<open>\<open>CHECK_NOTNULL\<close>: a null pointer is a FATAL line with the name of the expression, without the name of a function.\<close>

definition checkNotNull :: "log_call \<Rightarrow> 'p option \<Rightarrow> 'w logger \<Rightarrow> 'w \<Rightarrow> 'w \<times> bool" where
  "checkNotNull c ptr g w = (if ptr = None then logger_dtor (c\<lparr>lcLevel := FATAL\<rparr>) g w else (w, False))"

fun log_all :: "log_call list \<Rightarrow> 'w logger \<Rightarrow> 'w \<Rightarrow> 'w \<times> bool" where
  "log_all [] g w = (w, False)"
| "log_all (c # cs) g w = (case log_statement c g w of (w1, aborted) \<Rightarrow> if aborted then (w1, True) else log_all cs g w1)"

text \<open>The lines of a program: those of the enabled statements, up to the first FATAL one.\<close>

fun linesTo :: "LogLevel \<Rightarrow> log_call list \<Rightarrow> string" where
  "linesTo lev [] = []"
| "linesTo lev (c # cs) = (if WARN \<le> lcLevel c \<or> lev \<le> lcLevel c then lineOf c else []) @
     (if lcLevel c = FATAL then [] else linesTo lev cs)"

text \<open>
  With the default sink every enabled line is written once and in order, whatever the level is set to a FATAL statement
  ends the process, and then nothing of the log is lost in the buffer.
\<close>

lemma log_reaches_terminal:
  assumes "log_all cs (setLogLevel lev logger_init) w = (w', aborted)"
  shows "terminal w' @ unflushed w' = terminal w @ unflushed w @ linesTo lev cs \<and> (aborted \<longleftrightarrow> FATAL \<in> lcLevel ` set cs) \<and>
    (aborted \<longrightarrow> unflushed w' = [])"
  using assms
proof (induction cs arbitrary: w)
  case (Cons c cs)
  have lv: "gLogLevel (setLogLevel lev logger_init) = lev" "gOutput (setLogLevel lev logger_init) = defaultOutput"
    "gFlush (setLogLevel lev logger_init) = defaultFlush" by (simp_all add: setLogLevel_def logger_init_def)
  show ?case
  proof (cases "lcLevel c = FATAL")
    case True
    then show ?thesis using Cons.prems level_bounds(2) [of WARN]
      by (auto simp: log_statement_def log_enabled_iff logger_dtor_def lv Let_def defaultFlush_def defaultOutput_def)
  next
    case False
    then have "log_all cs (setLogLevel lev logger_init) (if WARN \<le> lcLevel c \<or> lev \<le> lcLevel c then defaultOutput (lineOf c) w else w) = (w', aborted)"
      using Cons.prems by (auto simp: log_statement_def log_enabled_iff logger_dtor_def lv Let_def split: if_splits)
    from Cons.IH [OF this] False show ?thesis by (auto simp: defaultOutput_def)
  qed
qed simp

text \<open>The first line of a thread has no id: only \<open>tid\<close> fills the text that the logger prints.\<close>

lemma first_line_without_id: "lcThread c = tls_new \<Longrightarrow> lineOf c = lcTime c @ ''  '' @ LogLevelName (lcLevel c) @
    (if lcLevel c = TRACE \<or> lcLevel c = DBG then lcFunc c @ '' '' else []) @ lcMsg c @ '' - '' @ getBaseName (lcPath c) @ '':'' @
    to_string (lcLine c) @ [LF]"
  by (simp add: lineOf_def logLine_def tidString_def tls_new_def)

end
