(* ===== verification/Time_Format.thy ===== *)
theory Time_Format
  imports Base_Util
begin

text \<open>
  \<open>Timestamp::toFormattedString\<close> of \<open>src/base/timestamp.cpp\<close>, with the calendar of \<open>gmtime_r\<close>: the time at the head of
  every log line.
\<close>

subsection \<open>The calendar\<close>

definition leap :: "int \<Rightarrow> bool" where
  "leap y \<longleftrightarrow> y mod 4 = 0 \<and> (y mod 100 \<noteq> 0 \<or> y mod 400 = 0)"

definition yearLen :: "int \<Rightarrow> int" where
  "yearLen y = (if leap y then 366 else 365)"

definition monthLen :: "int \<Rightarrow> nat \<Rightarrow> int" where
  "monthLen y m = (if m = 1 then (if leap y then 29 else 28) else if m \<in> {3, 5, 8, 10} then 30 else 31)"

lemma yearLen_bounds: "365 \<le> yearLen y" "yearLen y \<le> 366"
  by (simp_all add: yearLen_def)

lemma monthLen_bounds: "28 \<le> monthLen y m" "monthLen y m \<le> 31"
  by (simp_all add: monthLen_def)

text \<open>The year of the day number \<open>d\<close> counted from the start of the year \<open>y\<close>, and the day of that year.\<close>

function yearOf :: "int \<Rightarrow> int \<Rightarrow> int \<times> int" where
  "yearOf d y =
     (if d < 0 then yearOf (d + yearLen (y - 1)) (y - 1)
      else if d < yearLen y then (y, d)
      else yearOf (d - yearLen y) (y + 1))"
  by pat_completeness auto
termination
proof (relation "measure (\<lambda>(d, y). if d < 0 then nat (400 - d) else nat d)")
  fix d y :: int
  show "((d + yearLen (y - 1), y - 1), d, y) \<in> measure (\<lambda>(d, y). if d < 0 then nat (400 - d) else nat d)" if "d < 0"
    using that yearLen_bounds [of "y - 1"] by auto
  show "((d - yearLen y, y + 1), d, y) \<in> measure (\<lambda>(d, y). if d < 0 then nat (400 - d) else nat d)"
    if "\<not> d < 0" "\<not> d < yearLen y"
    using that yearLen_bounds [of y] by auto
qed simp

function monthOf :: "int \<Rightarrow> int \<Rightarrow> nat \<Rightarrow> nat \<times> int" where
  "monthOf y d m = (if d < monthLen y m then (m, d) else monthOf y (d - monthLen y m) (m + 1))"
  by pat_completeness auto
termination
proof (relation "measure (\<lambda>(y, d, m). nat d)")
  fix y d :: int and m :: nat
  show "((y, d - monthLen y m, m + 1), y, d, m) \<in> measure (\<lambda>(y, d, m). nat d)" if "\<not> d < monthLen y m"
    using that monthLen_bounds [of y m] by auto
qed simp

declare yearOf.simps [simp del] monthOf.simps [simp del]

record tm =
  tm_year :: int
  tm_mon :: int
  tm_mday :: int
  tm_hour :: int
  tm_min :: int
  tm_sec :: int

definition gmtime_r :: "int \<Rightarrow> tm" where
  "gmtime_r s =
     (case yearOf (s div 86400) 1970 of (y, yd) \<Rightarrow> case monthOf y yd 0 of (m, d) \<Rightarrow>
        \<lparr>tm_year = y - 1900, tm_mon = int m, tm_mday = d + 1,
         tm_hour = s mod 86400 div 3600, tm_min = s mod 3600 div 60, tm_sec = s mod 60\<rparr>)"

subsection \<open>The text\<close>

text \<open>\<open>%4d\<close> and \<open>%02d\<close>.\<close>

definition format4d :: "int \<Rightarrow> string" where
  "format4d i = padLeft 4 (CHR '' '') (to_string i)"

definition format02d :: "int \<Rightarrow> string" where
  "format02d i = (if i < 0 then CHR ''-'' # padLeft 1 (CHR ''0'') (digits10 (nat (- i)))
                  else padLeft 2 (CHR ''0'') (digits10 (nat i)))"

definition ts_toFormattedString :: "bool \<Rightarrow> timestamp \<Rightarrow> string" where
  "ts_toFormattedString showMicroseconds t =
     (let tm_time = gmtime_r (microSecondsSinceEpoch t sdiv kMicroSecondsPerSecond);
          date = format4d (tm_year tm_time + 1900) @ ''-'' @ format02d (tm_mon tm_time + 1) @ ''-'' @ format02d (tm_mday tm_time) @ '' '' @
            format02d (tm_hour tm_time) @ '':'' @ format02d (tm_min tm_time) @ '':'' @ format02d (tm_sec tm_time)
      in if showMicroseconds
         then take 63 (date @ ''.'' @ format06d (microSecondsSinceEpoch t smod kMicroSecondsPerSecond))
         else take 63 date)"

subsection \<open>Dates in order\<close>

lemma yearOf_ge: "0 \<le> d \<Longrightarrow> z \<le> y \<Longrightarrow> z \<le> fst (yearOf d y)"
proof (induction d y rule: yearOf.induct)
  case (1 d y)
  then show ?case by (subst yearOf.simps) auto
qed

lemma yearOf_range: "0 \<le> snd (yearOf d y) \<and> snd (yearOf d y) < yearLen (fst (yearOf d y))"
proof (induction d y rule: yearOf.induct)
  case (1 d y)
  then show ?case by (cases "d < 0"; cases "d < yearLen y"; simp add: yearOf.simps [of d y])
qed

lemma yearOf_less:
  assumes "0 \<le> d" "d < e"
  shows "fst (yearOf d y) < fst (yearOf e y) \<or> fst (yearOf d y) = fst (yearOf e y) \<and> snd (yearOf d y) < snd (yearOf e y)"
  using assms
proof (induction d y arbitrary: e rule: yearOf.induct)
  case (1 d y)
  show ?case
  proof (cases "d < yearLen y")
    case True
    with "1.prems" yearOf_ge [of "e - yearLen y" "y + 1" "y + 1"] show ?thesis
      by (cases "e < yearLen y") (simp_all add: yearOf.simps [of _ y])
  next
    case False
    with "1.IH" (2) [of "e - yearLen y"] "1.prems" show ?thesis by (simp add: yearOf.simps [of _ y])
  qed
qed

lemma monthOf_ge: "n \<le> m \<Longrightarrow> n \<le> fst (monthOf y d m)"
proof (induction y d m rule: monthOf.induct)
  case (1 y d m)
  then show ?case by (subst monthOf.simps) auto
qed

lemma monthOf_less:
  assumes "0 \<le> d" "d < e"
  shows "fst (monthOf y d m) < fst (monthOf y e m) \<or> fst (monthOf y d m) = fst (monthOf y e m) \<and> snd (monthOf y d m) < snd (monthOf y e m)"
  using assms
proof (induction y d m arbitrary: e rule: monthOf.induct)
  case (1 y d m)
  show ?case
  proof (cases "d < monthLen y m")
    case True
    with "1.prems" monthOf_ge [of "m + 1" "m + 1" y "e - monthLen y m"] show ?thesis
      by (cases "e < monthLen y m") (simp_all add: monthOf.simps [of y _ m])
  next
    case False
    with "1.IH" [of "e - monthLen y m"] "1.prems" show ?thesis by (simp add: monthOf.simps [of y _ m])
  qed
qed

text \<open>The days from the start of the month \<open>m\<close> to the end of the year.\<close>

definition daysLeft :: "int \<Rightarrow> nat \<Rightarrow> int" where
  "daysLeft y m = (\<Sum>j \<in> {m..<12}. monthLen y j)"

lemma daysLeft_step: "m < 12 \<Longrightarrow> daysLeft y m = monthLen y m + daysLeft y (m + 1)"
  by (simp add: daysLeft_def sum.atLeast_Suc_lessThan)

lemma daysLeft_0: "daysLeft y 0 = yearLen y"
  by (simp add: daysLeft_step) (simp add: daysLeft_def monthLen_def yearLen_def)

lemma monthOf_range:
  assumes "0 \<le> d" "d < daysLeft y m" "m \<le> 12"
  shows "fst (monthOf y d m) < 12 \<and> 0 \<le> snd (monthOf y d m) \<and> snd (monthOf y d m) < 31"
  using assms
proof (induction y d m rule: monthOf.induct)
  case (1 y d m)
  have m: "m < 12" using "1.prems" by (cases "m = 12") (simp_all add: daysLeft_def)
  show ?case
  proof (cases "d < monthLen y m")
    case True
    with "1.prems"(1) m monthLen_bounds [of y m] show ?thesis by (simp add: monthOf.simps [of y d m])
  next
    case False
    with "1.IH" "1.prems" m show ?thesis by (simp add: monthOf.simps [of y d m] daysLeft_step)
  qed
qed

subsection \<open>Numbers of a fixed width\<close>

fun fixed :: "nat \<Rightarrow> nat \<Rightarrow> string" where
  "fixed 0 n = []"
| "fixed (Suc w) n = fixed w (n div 10) @ [digit (n mod 10)]"

lemma fixed_length [simp]: "length (fixed w n) = w"
  by (induction w n rule: fixed.induct) simp_all

lemma fixed_numeral: "fixed (numeral w) n = fixed (pred_numeral w) (n div 10) @ [digit (n mod 10)]"
  unfolding numeral_eq_Suc [of w] by (rule fixed.simps)

lemma fixed_zero: "fixed w 0 = replicate w (CHR ''0'')"
  by (induction w) (simp_all add: digit_eval replicate_append_same)

lemma fixed_pad: "n < 10 ^ w \<Longrightarrow> 0 < w \<Longrightarrow> padLeft w (CHR ''0'') (digits10 n) = fixed w n"
proof (induction w arbitrary: n)
  case (Suc w)
  show ?case
  proof (cases "n < 10")
    case True
    then have "n div 10 = 0" "n mod 10 = n" "digits10 n = [digit n]" by (simp_all add: digits10.simps)
    then show ?thesis by (simp add: padLeft_def fixed_zero)
  next
    case False
    have w: "0 < w" using False Suc.prems(1) by (cases w) auto
    have "n div 10 < 10 ^ w" using Suc.prems(1) by (simp add: div_less_iff_less_mult mult.commute)
    from Suc.IH [OF this w] False show ?thesis by (simp add: padLeft_def digits10.simps [of n])
  qed
qed simp

lemma char_less_code: "(of_char c :: nat) < of_char d \<Longrightarrow> c < d"
  by (simp add: less_char_def)

lemma digit_less: "a < b \<Longrightarrow> b < 10 \<Longrightarrow> digit a < digit b"
  by (rule char_less_code) (simp add: digit_def)

lemma append_less_left: "length u = length v \<Longrightarrow> u < v \<Longrightarrow> u @ x < v @ (y :: 'a :: order list)"
proof (induction u v rule: list_induct2)
  case (Cons a u b v)
  then show ?case by (auto simp: Cons_less_Cons)
qed simp

lemma append_less_right: "x < y \<Longrightarrow> u @ x < u @ (y :: 'a :: order list)"
  by (induction u) (simp_all add: Cons_less_Cons)

lemma fixed_less: "m < n \<Longrightarrow> n < 10 ^ w \<Longrightarrow> fixed w m < fixed w n"
proof (induction w arbitrary: m n)
  case (Suc w)
  show ?case
  proof (cases "m div 10 = n div 10")
    case True
    then have "m mod 10 < n mod 10" using Suc.prems(1) by (metis div_mult_mod_eq nat_add_left_cancel_less)
    then have "digit (m mod 10) < digit (n mod 10)" by (rule digit_less) simp
    with True show ?thesis by (simp add: append_less_right Cons_less_Cons)
  next
    case False
    then have "m div 10 < n div 10" using Suc.prems(1) by (meson div_le_mono le_neq_implies_less less_imp_le)
    moreover have "n div 10 < 10 ^ w" using Suc.prems(2) by (simp add: div_less_iff_less_mult mult.commute)
    ultimately have "fixed w (m div 10) < fixed w (n div 10)" by (rule Suc.IH)
    then show ?thesis by (simp add: append_less_left)
  qed
qed simp

subsection \<open>The order of the texts\<close>

text \<open>Numbers of fixed widths, each with what separates it from the next; their order as tuples.\<close>

fun lay :: "(nat \<times> int \<times> string) list \<Rightarrow> string" where
  "lay [] = []"
| "lay ((w, n, sep) # fs) = fixed w (nat n) @ sep @ lay fs"

fun lay_less :: "(nat \<times> int \<times> string) list \<Rightarrow> (nat \<times> int \<times> string) list \<Rightarrow> bool" where
  "lay_less ((w, m, sep) # xs) ((w', n, sep') # ys) \<longleftrightarrow>
     w = w' \<and> sep = sep' \<and> 0 \<le> m \<and> n < 10 ^ w \<and> (m < n \<or> m = n \<and> lay_less xs ys)"
| "lay_less _ _ \<longleftrightarrow> False"

lemma lay_order: "lay_less xs ys \<Longrightarrow> lay xs < lay ys"
proof (induction xs ys rule: lay_less.induct)
  case (1 w m sep xs w' n sep' ys)
  from "1.prems" have e: "w' = w" "sep' = sep" "0 \<le> m" "n < 10 ^ w" "m < n \<or> m = n \<and> lay_less xs ys" by auto
  from e(5) show ?case
  proof
    assume "m < n"
    then have "nat m < nat n" "nat n < 10 ^ w" using e(3,4) by (simp_all add: nat_less_iff)
    then have "fixed w (nat m) < fixed w (nat n)" by (rule fixed_less)
    then show ?thesis by (simp add: e(1,2) append_less_left)
  next
    assume "m = n \<and> lay_less xs ys"
    with "1.IH" show ?thesis by (simp add: e(1,2) append_less_right)
  qed
qed simp_all

definition stamp_fields :: "int \<Rightarrow> (nat \<times> int \<times> string) list" where
  "stamp_fields t =
     (let s = t div 1000000; (y, yd) = yearOf (s div 60 div 60 div 24) 1970; (m, d) = monthOf y yd 0 in
      [(4, y, ''-''), (2, int m + 1, ''-''), (2, d + 1, '' ''), (2, s div 60 div 60 mod 24, '':''),
       (2, s div 60 mod 60, '':''), (2, s mod 60, ''.''), (6, t mod 1000000, [])])"

lemma radix_less: "(a :: int) < b \<Longrightarrow> 0 < k \<Longrightarrow> a div k < b div k \<or> a div k = b div k \<and> a mod k < b mod k"
  by (metis div_mult_mod_eq add_less_cancel_left order_le_imp_less_or_eq zdiv_mono1 less_imp_le)

lemma mod_div_split: "0 < a \<Longrightarrow> 0 < b \<Longrightarrow> (s :: int) mod (a * b) div a = s div a mod b"
  by (simp add: zmod_zmult2_eq)

lemma gmtime_fields: "s mod 86400 div 3600 = s div 60 div 60 mod 24" "s mod 3600 div 60 = s div 60 mod 60"
  "s div 86400 = s div 60 div 60 div 24" for s :: int
proof -
  have h: "s div 3600 = s div 60 div 60" using zdiv_zmult2_eq [of 60 s 60] by simp
  have "s mod (3600 * 24) div 3600 = s div 3600 mod 24" by (rule mod_div_split) simp_all
  then show "s mod 86400 div 3600 = s div 60 div 60 mod 24" unfolding h by simp
  have "s mod (60 * 60) div 60 = s div 60 mod 60" by (rule mod_div_split) simp_all
  then show "s mod 3600 div 60 = s div 60 mod 60" by simp
  have "s div (3600 * 24) = s div 3600 div 24" by (rule zdiv_zmult2_eq) simp
  then show "s div 86400 = s div 60 div 60 div 24" unfolding h by simp
qed

definition yearOfStamp :: "timestamp \<Rightarrow> int" where
  "yearOfStamp t = fst (yearOf (microSecondsSinceEpoch t div 1000000 div 60 div 60 div 24) 1970)"

lemma stamp_year: "0 \<le> microSecondsSinceEpoch t \<Longrightarrow> 1970 \<le> yearOfStamp t"
  by (simp add: yearOfStamp_def yearOf_ge pos_imp_zdiv_nonneg_iff)

lemma month_day_range: "0 \<le> snd (monthOf (fst (yearOf d y)) (snd (yearOf d y)) 0) \<and> snd (monthOf (fst (yearOf d y)) (snd (yearOf d y)) 0) < 31 \<and>
    fst (monthOf (fst (yearOf d y)) (snd (yearOf d y)) 0) < 12"
  using yearOf_range [of d y] monthOf_range [of "snd (yearOf d y)" "fst (yearOf d y)" 0] by (simp add: daysLeft_0)

lemma stamp_less:
  assumes "0 \<le> a" "a < b" "fst (yearOf (b div 1000000 div 60 div 60 div 24) 1970) < 10000"
  shows "lay_less (stamp_fields a) (stamp_fields b)"
proof -
  define sa sb da db where "sa = a div 1000000" "sb = b div 1000000" "da = sa div 60 div 60 div 24" "db = sb div 60 div 60 div 24"
  obtain ya yda yb ydb where y: "yearOf da 1970 = (ya, yda)" "yearOf db 1970 = (yb, ydb)" by fastforce
  obtain ma dda mb ddb where m: "monthOf ya yda 0 = (ma, dda)" "monthOf yb ydb 0 = (mb, ddb)" by fastforce
  have nn: "0 \<le> da" using assms(1) by (simp add: sa_sb_da_db_def pos_imp_zdiv_nonneg_iff)
  have date: "da < db \<Longrightarrow> ya < yb \<or> ya = yb \<and> (ma < mb \<or> ma = mb \<and> dda < ddb)"
    using yearOf_less [OF nn, of db 1970] monthOf_less [of yda ydb ya 0] yearOf_range [of da 1970] y m by auto
  have same: "da = db \<Longrightarrow> ya = yb \<and> ma = mb \<and> dda = ddb" using y m by simp
  have "fst (yearOf db 1970) < 10000" using assms(3) unfolding sa_sb_da_db_def .
  then have bounds: "0 \<le> ya" "yb < 10000" "0 \<le> dda" "int mb < 99" "ddb < 99"
    using yearOf_ge [OF nn, of 1970 1970] month_day_range [of da 1970] month_day_range [of db 1970] y m by simp_all
  have small: "0 \<le> x mod 24" "x mod 24 < 100" "0 \<le> x mod 60" "x mod 60 < 100" "0 \<le> x mod 1000000" "x mod 1000000 < 1000000" for x :: int
    using pos_mod_bound [of 24 x] pos_mod_bound [of 60 x] by (simp_all del: pos_mod_bound)
  have day: "da < db \<or> da = db \<and> sa div 60 div 60 mod 24 < sb div 60 div 60 mod 24" if "sa div 60 div 60 < sb div 60 div 60"
    using radix_less [OF that, of 24] by (simp add: sa_sb_da_db_def)
  have hour: "sa div 60 div 60 < sb div 60 div 60 \<or> sa div 60 div 60 = sb div 60 div 60 \<and> sa div 60 mod 60 < sb div 60 mod 60"
    if "sa div 60 < sb div 60" using radix_less [OF that, of 60] by simp
  have minute: "sa div 60 < sb div 60 \<or> sa div 60 = sb div 60 \<and> sa mod 60 < sb mod 60" if "sa < sb"
    using radix_less [OF that, of 60] by simp
  have second: "sa < sb \<or> sa = sb \<and> a mod 1000000 < b mod 1000000"
    using radix_less [OF assms(2), of 1000000] by (simp add: sa_sb_da_db_def)
  have eqs: "sa = sb \<Longrightarrow> da = db" "sa div 60 = sb div 60 \<Longrightarrow> da = db" "sa div 60 div 60 = sb div 60 div 60 \<Longrightarrow> da = db"
    by (simp_all add: sa_sb_da_db_def)
  have goal: ?thesis if "da < db \<or> da = db \<and> (sa div 60 div 60 mod 24 < sb div 60 div 60 mod 24 \<or>
      sa div 60 div 60 mod 24 = sb div 60 div 60 mod 24 \<and> (sa div 60 mod 60 < sb div 60 mod 60 \<or>
      sa div 60 mod 60 = sb div 60 mod 60 \<and> (sa mod 60 < sb mod 60 \<or> sa mod 60 = sb mod 60 \<and> a mod 1000000 < b mod 1000000)))"
  proof -
    define T where "T \<longleftrightarrow> sa div 60 div 60 mod 24 < sb div 60 div 60 mod 24 \<or>
      sa div 60 div 60 mod 24 = sb div 60 div 60 mod 24 \<and> (sa div 60 mod 60 < sb div 60 mod 60 \<or>
      sa div 60 mod 60 = sb div 60 mod 60 \<and> (sa mod 60 < sb mod 60 \<or> sa mod 60 = sb mod 60 \<and> a mod 1000000 < b mod 1000000))"
    have "ya < yb \<or> ya = yb \<and> (ma < mb \<or> ma = mb \<and> (dda < ddb \<or> dda = ddb \<and> T))"
      using that date same unfolding T_def [symmetric] by blast
    moreover have "int mb + 1 < 100" "ddb + 1 < 100" "0 \<le> dda + 1" using bounds by simp_all
    moreover have "int ma + 1 \<le> int mb \<longleftrightarrow> ma < mb" "dda + 1 \<le> ddb \<longleftrightarrow> dda < ddb" by auto
    ultimately show ?thesis
      unfolding stamp_fields_def Let_def sa_sb_da_db_def [symmetric] y m prod.case lay_less.simps T_def
      by (simp add: bounds small)
  qed
  from second show ?thesis
  proof
    assume "sa < sb"
    from minute [OF this] show ?thesis
    proof
      assume "sa div 60 < sb div 60"
      from hour [OF this] show ?thesis
      proof
        assume "sa div 60 div 60 < sb div 60 div 60"
        from day [OF this] show ?thesis by (intro goal) blast
      qed (intro goal, simp add: eqs)
    qed (intro goal, simp add: eqs)
  qed (intro goal, simp add: eqs)
qed

lemma digits10_at_least: "10 ^ k \<le> n \<Longrightarrow> k < length (digits10 n)"
proof (induction k arbitrary: n)
  case (Suc k)
  then have "10 ^ k \<le> n div 10" by (simp add: less_eq_div_iff_mult_less_eq mult.commute)
  moreover have "\<not> n < 10"
  proof -
    have "(1 :: nat) \<le> 10 ^ k" by simp
    with Suc.prems show ?thesis unfolding power_Suc by linarith
  qed
  ultimately show ?case using Suc.IH [of "n div 10"] by (simp add: digits10.simps [of n])
qed simp

lemma format_fixed:
  "0 \<le> i \<Longrightarrow> i < 100 \<Longrightarrow> format02d i = fixed 2 (nat i)"
  "0 \<le> i \<Longrightarrow> i < 1000000 \<Longrightarrow> format06d i = fixed 6 (nat i)"
  "1000 \<le> i \<Longrightarrow> i < 10000 \<Longrightarrow> format4d i = fixed 4 (nat i)"
proof -
  show "format02d i = fixed 2 (nat i)" if "0 \<le> i" "i < 100"
    using that fixed_pad [of "nat i" 2] by (simp add: format02d_def nat_less_iff)
  show "format06d i = fixed 6 (nat i)" if "0 \<le> i" "i < 1000000"
    using that fixed_pad [of "nat i" 6] by (simp add: format06d_def nat_less_iff)
  show "format4d i = fixed 4 (nat i)" if "1000 \<le> i" "i < 10000"
  proof -
    have "3 < length (digits10 (nat i))" using that by (intro digits10_at_least) (simp add: le_nat_iff)
    with that fixed_pad [of "nat i" 4] show ?thesis
      by (simp add: format4d_def to_string_def padLeft_def nat_less_iff)
  qed
qed

lemma formatted_lay:
  assumes "0 \<le> microSecondsSinceEpoch t" "yearOfStamp t < 10000"
  shows "ts_toFormattedString True t = lay (stamp_fields (microSecondsSinceEpoch t))"
    and "length (ts_toFormattedString True t) = 26"
proof -
  define u where "u = microSecondsSinceEpoch t"
  define s where "s = u div 1000000"
  have u: "u sdiv kMicroSecondsPerSecond = s" "u smod kMicroSecondsPerSecond = u mod 1000000"
    using assms(1) trunc_nonneg [of u 1000000] by (simp_all add: u_def s_def kMicroSecondsPerSecond_def)
  define dd where "dd = s div 60 div 60 div 24"
  obtain y yd where y: "yearOf dd 1970 = (y, yd)" by fastforce
  obtain m d where m: "monthOf y yd 0 = (m, d)" by fastforce
  have "yearOfStamp t = y" using y unfolding yearOfStamp_def dd_def s_def u_def by simp
  then have yb: "1000 \<le> y" "y < 10000" using stamp_year [OF assms(1)] assms(2) by simp_all
  have md: "0 \<le> d" "d < 31" "m < 12" using month_day_range [of dd 1970] y m by simp_all
  have b: "0 \<le> x mod 24" "x mod 24 < 100" "0 \<le> x mod 60" "x mod 60 < 100" "0 \<le> x mod 1000000" "x mod 1000000 < 1000000" for x :: int
    using pos_mod_bound [of 24 x] pos_mod_bound [of 60 x] by (simp_all del: pos_mod_bound)
  have g: "gmtime_r s = \<lparr>tm_year = y - 1900, tm_mon = int m, tm_mday = d + 1, tm_hour = s div 60 div 60 mod 24,
      tm_min = s div 60 mod 60, tm_sec = s mod 60\<rparr>"
    unfolding gmtime_r_def gmtime_fields dd_def [symmetric] y prod.case m ..
  have "y - 1900 + 1900 = y" by simp
  note f = format_fixed(3) [OF yb] format_fixed(1) [of "int m + 1"] format_fixed(1) [of "d + 1"]
    format_fixed(1) [OF b(1,2)] format_fixed(1) [OF b(3,4)] format_fixed(2) [OF b(5,6)]
  have l: "lay (stamp_fields u) = format4d y @ ''-'' @ format02d (int m + 1) @ ''-'' @ format02d (d + 1) @ '' '' @
      format02d (s div 60 div 60 mod 24) @ '':'' @ format02d (s div 60 mod 60) @ '':'' @ format02d (s mod 60) @ ''.'' @ format06d (u mod 1000000)"
    using md unfolding stamp_fields_def Let_def s_def [symmetric] dd_def [symmetric] y m prod.case f(1,4-6) lay.simps
    by (simp add: f(2,3))
  have n: "length (lay (stamp_fields u)) = 26"
    unfolding stamp_fields_def Let_def s_def [symmetric] dd_def [symmetric] y m prod.case lay.simps by simp
  have "ts_toFormattedString True t = take 63 (lay (stamp_fields u))"
    unfolding ts_toFormattedString_def u_def [symmetric] u g l Let_def tm.simps by simp
  with n show "ts_toFormattedString True t = lay (stamp_fields (microSecondsSinceEpoch t))"
    "length (ts_toFormattedString True t) = 26" by (simp_all add: u_def)
qed

subsection \<open>Properties\<close>

text \<open>
  C40: formatted times sort as times: for time stamps from 1970 to the end of the year 9999 the formatted text has 26
  characters, is never cut by its buffer, and the order of the texts is the order of the time stamps, so that equal
  texts are equal times.
\<close>

theorem formatted_times_sort:
  assumes "0 \<le> microSecondsSinceEpoch s" "yearOfStamp s < 10000" "0 \<le> microSecondsSinceEpoch t" "yearOfStamp t < 10000"
  shows "length (ts_toFormattedString True s) = 26 \<and>
    (ts_toFormattedString True s < ts_toFormattedString True t \<longleftrightarrow> ts_less s t) \<and>
    (ts_toFormattedString True s = ts_toFormattedString True t \<longleftrightarrow> ts_eq s t)"
proof -
  have less: "ts_toFormattedString True s < ts_toFormattedString True t" if "ts_less s t"
    and "0 \<le> microSecondsSinceEpoch s" "yearOfStamp s < 10000" "0 \<le> microSecondsSinceEpoch t" "yearOfStamp t < 10000" for s t
  proof -
    have "microSecondsSinceEpoch s < microSecondsSinceEpoch t" using that(1) by (simp add: ts_less_def)
    from stamp_less [OF that(2) this that(5) [unfolded yearOfStamp_def]] show ?thesis
      unfolding formatted_lay(1) [OF that(2,3)] formatted_lay(1) [OF that(4,5)] by (rule lay_order)
  qed
  consider "ts_less s t" "\<not> ts_eq s t" "\<not> ts_less t s" | "s = t" | "ts_less t s" "\<not> ts_eq s t" "\<not> ts_less s t"
    unfolding ts_less_def ts_eq_def by (metis antisym_conv3 order.asym timestamp.equality old.unit.exhaust)
  then show ?thesis
  proof cases
    case 1
    with less [OF 1(1) assms] formatted_lay(2) [OF assms(1,2)] show ?thesis by auto
  next
    case 2
    with formatted_lay(2) [OF assms(1,2)] show ?thesis by (simp add: ts_less_def ts_eq_def)
  next
    case 3
    with less [OF 3(1) assms(3,4,1,2)] formatted_lay(2) [OF assms(1,2)] show ?thesis by (auto dest: order.asym)
  qed
qed

theorem formatted_times_sort_witness:
  "ts_toFormattedString True \<lparr>microSecondsSinceEpoch = 1\<rparr> < ts_toFormattedString True \<lparr>microSecondsSinceEpoch = 1000000\<rparr> \<and>
   ts_toFormattedString True \<lparr>microSecondsSinceEpoch = 1\<rparr> = ''1970-01-01 00:00:00.000001''"
proof -
  have y: "yearOfStamp \<lparr>microSecondsSinceEpoch = 1\<rparr> = 1970" "yearOfStamp \<lparr>microSecondsSinceEpoch = 1000000\<rparr> = 1970"
    by (simp_all add: yearOfStamp_def yearOf.simps yearLen_def leap_def)
  have "ts_toFormattedString True \<lparr>microSecondsSinceEpoch = 1\<rparr> = lay (stamp_fields 1)"
    using formatted_lay(1) [of "\<lparr>microSecondsSinceEpoch = 1\<rparr>"] y by simp
  also have "\<dots> = ''1970-01-01 00:00:00.000001''"
    by (simp add: stamp_fields_def yearOf.simps monthOf.simps yearLen_def leap_def monthLen_def fixed_numeral digit_eval)
  finally show ?thesis
    using formatted_times_sort [of "\<lparr>microSecondsSinceEpoch = 1\<rparr>" "\<lparr>microSecondsSinceEpoch = 1000000\<rparr>"] y
    by (simp add: ts_less_def)
qed

end
