(* ===== verification/Loop_Thread.thy ===== *)
theory Loop_Thread
  imports Prelude
begin

text \<open>
  \<open>Thread\<close> (\<open>src/base/thread.h\<close>, \<open>thread.cpp\<close>) and \<open>EventLoopThread\<close> (\<open>src/net/eventloop_thread.h\<close>,
  \<open>eventloop_thread.cpp\<close>): starting a thread, and handing the loop that lives on its stack to the thread
  that started it.  The two threads are interleaved at the grain of their critical sections.
\<close>

subsection \<open>Threads\<close>

text \<open>\<open>pthread_t\<close> is left out; \<open>numCreated\<close> is the shared counter.\<close>

record thread =
  thStarted :: bool
  thJoined :: bool
  thTid :: int
  thName :: string

definition setDefaultName :: "int \<Rightarrow> thread \<Rightarrow> int \<times> thread" where
  "setDefaultName numCreated t =
     (let num = numCreated + 1 in
      (num, if thName t = [] then t\<lparr>thName := take 31 (''Thread'' @ to_string num)\<rparr> else t))"

definition thread_new :: "int \<Rightarrow> string \<Rightarrow> int \<times> thread" where
  "thread_new numCreated nm =
     setDefaultName numCreated \<lparr>thStarted = False, thJoined = False, thTid = 0, thName = nm\<rparr>"

text \<open>
  \<open>start\<close> returns when the new thread has stored its id and counted the latch down; None is a failed
  assertion or an abort.
\<close>

definition thread_start :: "bool \<Rightarrow> int \<Rightarrow> thread \<Rightarrow> thread option" where
  "thread_start created gettid t =
     (if thStarted t \<or> \<not> created then None
      else let t1 = t\<lparr>thStarted := True, thTid := gettid\<rparr> in if 0 < thTid t1 then Some t1 else None)"

definition thread_join :: "thread \<Rightarrow> thread option" where
  "thread_join t = (if thStarted t \<and> \<not> thJoined t then Some (t\<lparr>thJoined := True\<rparr>) else None)"

text \<open>The destructor: whether the thread is detached.\<close>

definition thread_dtor :: "thread \<Rightarrow> bool" where
  "thread_dtor t \<longleftrightarrow> thStarted t \<and> \<not> thJoined t"

text \<open>
  The new thread, \<open>ThreadData::runInThread\<close>: what it does in order, with what the thread function does at its end.  An
  exception that is not a \<open>std::exception\<close> is thrown on; the first latch count lets \<open>start\<close> return.
\<close>

datatype teffect = StoreTid int | CountDown | NameThread string | RunFunc | Stderr string | Abort | Rethrow

definition runInThread :: "string \<Rightarrow> int \<Rightarrow> outcome \<Rightarrow> teffect list" where
  "runInThread nm gettid out =
     [StoreTid gettid, CountDown, NameThread (if nm = [] then ''kvstoreThread'' else nm), RunFunc] @
     (case out of
        Returns \<Rightarrow> [NameThread ''finished'']
      | ThrowsException what \<Rightarrow> [NameThread ''crashed'', Stderr (''exception caught in Thread '' @ nm @ [LF]),
          Stderr (''reason: '' @ what @ [LF]), Abort]
      | ThrowsOther \<Rightarrow> [NameThread ''crashed'', Stderr (''unknown exception caught in Thread '' @ nm @ [LF]), Rethrow])"

text \<open>Whatever the function does, the id is stored and the latch counted down once, before it runs.\<close>

lemma runInThread_starts: "\<exists>es. runInThread nm gettid out = [StoreTid gettid, CountDown] @ es \<and> CountDown \<notin> set es \<and> RunFunc \<in> set es"
  by (auto simp: runInThread_def split: outcome.split)

subsection \<open>The loop's thread and its creator\<close>

text \<open>Where the new thread is in \<open>threadFunc\<close>, and the creator in \<open>startLoop\<close> and the destructor.\<close>

datatype tplace = NotStarted | Constructing | Publishing | Entering | Looping | Unpublishing | Exited

datatype cplace = BeforeStart | Waiting | Returned nat | Destroying | Quitting nat | Dangling | Joining | Destroyed

text \<open>
  \<open>loopPtr\<close> is \<open>loop_\<close>; \<open>alive\<close> says whether the loop object, which lives on the stack of the new thread
  at the address \<open>a\<close>, exists; \<open>inits\<close> counts the calls of the initialisation callback; \<open>quitReq\<close> is the flag of the loop, which \<open>loop()\<close> clears when
  it starts.
\<close>

record lthread =
  tplace :: tplace
  cplace :: cplace
  loopPtr :: "nat option"
  alive :: bool
  inits :: nat
  quitReq :: bool
  exiting :: bool
  detached :: bool

definition lt_new :: lthread where
  "lt_new = \<lparr>tplace = NotStarted, cplace = BeforeStart, loopPtr = None, alive = False, inits = 0,
     quitReq = False, exiting = False, detached = False\<rparr>"

text \<open>
  The steps: \<open>hasCb\<close> says whether a callback is set, \<open>a\<close> is the address of the loop.  \<open>loop()\<close> clears the
  flag on its entry and ends when a quit is requested, by the creator or by a functor (\<open>quits_itself\<close>).
  The destructor reads \<open>loop_\<close> without the mutex and calls \<open>quit\<close> afterwards; \<open>Dangling\<close> is a call on a
  loop that no longer exists.
\<close>

inductive lt_step :: "bool \<Rightarrow> nat \<Rightarrow> lthread \<Rightarrow> lthread \<Rightarrow> bool" for hasCb a where
  start: "cplace s = BeforeStart \<Longrightarrow> lt_step hasCb a s (s\<lparr>cplace := Waiting, tplace := Constructing\<rparr>)"
| construct: "tplace s = Constructing \<Longrightarrow>
    lt_step hasCb a s (s\<lparr>tplace := Publishing, alive := True, inits := (if hasCb then inits s + 1 else inits s)\<rparr>)"
| publish: "tplace s = Publishing \<Longrightarrow> lt_step hasCb a s (s\<lparr>tplace := Entering, loopPtr := Some a\<rparr>)"
| enter: "tplace s = Entering \<Longrightarrow> lt_step hasCb a s (s\<lparr>tplace := Looping, quitReq := False\<rparr>)"
| quits_itself: "tplace s = Looping \<Longrightarrow> lt_step hasCb a s (s\<lparr>quitReq := True\<rparr>)"
| loop_ends: "tplace s = Looping \<Longrightarrow> quitReq s \<Longrightarrow> lt_step hasCb a s (s\<lparr>tplace := Unpublishing\<rparr>)"
| unpublish: "tplace s = Unpublishing \<Longrightarrow> lt_step hasCb a s (s\<lparr>tplace := Exited, loopPtr := None, alive := False\<rparr>)"
| returns: "cplace s = Waiting \<Longrightarrow> loopPtr s = Some p \<Longrightarrow> lt_step hasCb a s (s\<lparr>cplace := Returned p\<rparr>)"
| destroy: "cplace s = Returned p \<Longrightarrow> lt_step hasCb a s (s\<lparr>cplace := Destroying, exiting := True\<rparr>)"
| sees_loop: "cplace s = Destroying \<Longrightarrow> loopPtr s = Some p \<Longrightarrow> lt_step hasCb a s (s\<lparr>cplace := Quitting p\<rparr>)"
| quit: "cplace s = Quitting p \<Longrightarrow> alive s \<Longrightarrow> lt_step hasCb a s (s\<lparr>cplace := Joining, quitReq := True\<rparr>)"
| dangles: "cplace s = Quitting p \<Longrightarrow> \<not> alive s \<Longrightarrow> lt_step hasCb a s (s\<lparr>cplace := Dangling\<rparr>)"
| detach: "cplace s = Destroying \<Longrightarrow> loopPtr s = None \<Longrightarrow> lt_step hasCb a s (s\<lparr>cplace := Destroyed, detached := True\<rparr>)"
| join: "cplace s = Joining \<Longrightarrow> tplace s = Exited \<Longrightarrow> lt_step hasCb a s (s\<lparr>cplace := Destroyed\<rparr>)"

inductive lt_reachable :: "bool \<Rightarrow> nat \<Rightarrow> lthread \<Rightarrow> bool" for hasCb a where
  init: "lt_reachable hasCb a lt_new"
| step: "lt_reachable hasCb a s \<Longrightarrow> lt_step hasCb a s s' \<Longrightarrow> lt_reachable hasCb a s'"

subsection \<open>Invariant\<close>

definition lt_inv :: "bool \<Rightarrow> nat \<Rightarrow> lthread \<Rightarrow> bool" where
  "lt_inv hasCb a s \<longleftrightarrow>
     (cplace s = BeforeStart \<longleftrightarrow> tplace s = NotStarted) \<and>
     (loopPtr s = (if tplace s \<in> {Entering, Looping, Unpublishing} then Some a else None)) \<and>
     (alive s \<longleftrightarrow> tplace s \<in> {Publishing, Entering, Looping, Unpublishing}) \<and>
     (inits s = (if hasCb \<and> tplace s \<notin> {NotStarted, Constructing} then 1 else 0)) \<and>
     (tplace s \<in> {NotStarted, Constructing, Publishing} \<longrightarrow> cplace s = BeforeStart \<or> cplace s = Waiting) \<and>
     (\<forall>p. cplace s = Returned p \<or> cplace s = Quitting p \<longrightarrow> p = a) \<and>
     (cplace s = Destroyed \<longrightarrow> tplace s = Exited)"

lemma lt_inv_step: "lt_step hasCb a s s' \<Longrightarrow> lt_inv hasCb a s \<Longrightarrow> lt_inv hasCb a s'"
  by (induction rule: lt_step.induct) (auto simp: lt_inv_def split: if_splits intro: tplace.exhaust)

lemma lt_reachable_inv: "lt_reachable hasCb a s \<Longrightarrow> lt_inv hasCb a s"
proof (induction rule: lt_reachable.induct)
  case init
  show ?case by (simp add: lt_inv_def lt_new_def)
next
  case (step s s')
  then show ?case using lt_inv_step by blast
qed

text \<open>A run of the thread alone after a request to quit.\<close>

lemma lt_quit_run:
  assumes "cplace s = Joining" "tplace s = Looping" "quitReq s"
  shows "\<exists>s'. (lt_step hasCb a)\<^sup>*\<^sup>* s s' \<and> cplace s' = Destroyed \<and> tplace s' = Exited \<and> \<not> alive s' \<and> loopPtr s' = None"
proof -
  let ?s1 = "s\<lparr>tplace := Unpublishing\<rparr>"
  let ?s2 = "?s1\<lparr>tplace := Exited, loopPtr := None, alive := False\<rparr>"
  let ?s3 = "?s2\<lparr>cplace := Destroyed\<rparr>"
  have "lt_step hasCb a s ?s1" using assms by (intro loop_ends)
  moreover have "lt_step hasCb a ?s1 ?s2" by (rule unpublish) simp
  moreover have "lt_step hasCb a ?s2 ?s3" using assms by (intro join) simp_all
  ultimately have "(lt_step hasCb a)\<^sup>*\<^sup>* s ?s3" by (meson converse_rtranclp_into_rtranclp rtranclp.rtrancl_refl)
  then show ?thesis by (intro exI [of _ ?s3]) simp
qed

lemma lt_reach: "lt_reachable hasCb a s \<Longrightarrow> lt_step hasCb a s s' \<Longrightarrow> s' = t \<Longrightarrow> lt_reachable hasCb a t"
  by (auto intro: lt_reachable.step)

lemma lt_entering: "lt_reachable hasCb a \<lparr>tplace = Entering, cplace = Waiting, loopPtr = Some a, alive = True,
    inits = (if hasCb then 1 else 0), quitReq = False, exiting = False, detached = False\<rparr>"
proof -
  let ?s1 = "lt_new\<lparr>cplace := Waiting, tplace := Constructing\<rparr>"
  let ?s2 = "?s1\<lparr>tplace := Publishing, alive := True, inits := (if hasCb then inits ?s1 + 1 else inits ?s1)\<rparr>"
  let ?s3 = "?s2\<lparr>tplace := Entering, loopPtr := Some a\<rparr>"
  have "lt_reachable hasCb a ?s1" by (rule lt_reachable.step [OF lt_reachable.init start]) (simp add: lt_new_def)
  then have "lt_reachable hasCb a ?s2" by (rule lt_reachable.step) (rule construct, simp)
  then have "lt_reachable hasCb a ?s3" by (rule lt_reachable.step) (rule publish, simp)
  moreover have "?s3 = \<lparr>tplace = Entering, cplace = Waiting, loopPtr = Some a, alive = True,
    inits = (if hasCb then 1 else 0), quitReq = False, exiting = False, detached = False\<rparr>" by (simp add: lt_new_def)
  ultimately show ?thesis by (simp only:)
qed

subsection \<open>Properties\<close>




end
