(* ===== verification/Live_Server.thy ===== *)
theory Live_Server
  imports Connection_Service Tcp_Server
begin

text \<open>
  The running server: the connections that \<open>TcpServer\<close> (\<open>src/net/tcp_server.cpp\<close>) makes, each a \<open>TcpConnection\<close> with the
  callbacks of \<open>KVServer\<close>, on the loops of the pool.  Handing a call to a loop (\<open>runInLoop\<close>, \<open>queueInLoop\<close>) is a task in the
  queue of that loop; the handlers of different connections, the tasks of different loops and the arrival of clients
  interleave freely, one handler or task a step.  Handlers of one dispatch are single steps; a hang-up that comes
  together with urgent data, where the code would close twice, does not occur.
\<close>

subsection \<open>State\<close>

text \<open>What is handed to a loop, for the connection with the given number.\<close>

datatype task = Establish nat | Remove nat | Destroy nat

text \<open>
  \<open>everMade\<close> lists the connections in the order of their arrival; a connection is named by its position.  \<open>gone\<close> are those
  whose object is destroyed, which closes the descriptor.  The last four fields are not in the code: the calls of the
  connection callback, the bytes the kernel accepted, the segments that were read, with their connection, in their order, and the
  connections on which a write failed because the peer had gone.
\<close>

record world =
  tcpOf :: server
  everMade :: "tconn list"
  objectOf :: "nat \<Rightarrow> conn"
  epollOf :: "nat \<Rightarrow> interest poller"
  queueOf :: "nat \<Rightarrow> task list"
  storeOf :: kvstore
  gone :: "nat set"
  cbLog :: "nat \<Rightarrow> bool list"
  wire :: "nat \<Rightarrow> string"
  segLog :: "(nat \<times> string) list"
  broken :: "nat set"

definition world_new :: "server \<Rightarrow> (nat \<Rightarrow> interest poller) \<Rightarrow> kvstore \<Rightarrow> world" where
  "world_new s ps st = \<lparr>tcpOf = s, everMade = [], objectOf = (\<lambda>i. conn_new i 0), epollOf = ps, queueOf = (\<lambda>l. []),
     storeOf = st, gone = {}, cbLog = (\<lambda>i. []), wire = (\<lambda>i. []), segLog = [], broken = {}\<rparr>"

definition loopAt :: "world \<Rightarrow> nat \<Rightarrow> nat" where
  "loopAt w i = ioLoop (everMade w ! i)"

fun callbacks :: "ceffect list \<Rightarrow> bool list" where
  "callbacks [] = []"
| "callbacks (ConnectionCallback b # es) = b # callbacks es"
| "callbacks (_ # es) = callbacks es"

text \<open>A handler of connection \<open>i\<close> leaves the object, its poller, and what it did.\<close>

definition put_conn :: "nat \<Rightarrow> conn \<Rightarrow> interest poller \<Rightarrow> ceffect list \<Rightarrow> world \<Rightarrow> world" where
  "put_conn i c p es w = w\<lparr>objectOf := (objectOf w)(i := c), epollOf := (epollOf w)(loopAt w i := p),
     cbLog := (cbLog w)(i := cbLog w i @ callbacks es), wire := (wire w)(i := wire w i @ wrote es)\<rparr>"

definition breaks :: "nat \<Rightarrow> (nat \<Rightarrow> int + nat) \<Rightarrow> world \<Rightarrow> world" where
  "breaks i ws w = (if \<forall>n. peerAlive (EvSend [] (ws n)) then w else w\<lparr>broken := insert i (broken w)\<rparr>)"

subsection \<open>Tasks\<close>

fun taskOf :: "nat \<Rightarrow> action \<Rightarrow> task list" where
  "taskOf i (ConnectEstablished c) = [Establish i]"
| "taskOf i (ConnectDestroyed c) = [Destroy i]"
| "taskOf i (RemoveConnectionInLoop c) = [Remove i]"
| "taskOf i Listen = []"

definition enqueue :: "nat \<Rightarrow> task list \<Rightarrow> world \<Rightarrow> world" where
  "enqueue l ts w = w\<lparr>queueOf := (queueOf w)(l := queueOf w l @ ts)\<rparr>"

text \<open>\<open>connectEstablished\<close> in the connection's loop, with the connection callback of \<open>KVServer\<close>.\<close>

definition task_establish :: "(nat \<Rightarrow> int + nat) \<Rightarrow> nat \<Rightarrow> world \<Rightarrow> world option" where
  "task_establish ws i w = do {
     (c1, p1, es1) \<leftarrow> connectEstablished interest_ctl (objectOf w i) (epollOf w (loopAt w i));
     (c2, p2, es2) \<leftarrow> conn_run interest_ctl (effect_events ws (if ConnectionCallback True \<in> set es1 then onConnection True else [])) c1 p1;
     Some (breaks i ws (put_conn i c2 p2 (es1 @ es2) w)) }"

text \<open>\<open>removeConnectionInLoop\<close> in the server's loop; it queues the destruction even when it runs in that loop.\<close>

fun queue_effect :: "nat \<Rightarrow> seffect \<Rightarrow> world \<Rightarrow> world" where
  "queue_effect i (QueueInLoop l a) w = enqueue l (taskOf i a) w"
| "queue_effect i (RunInLoop l a) w = enqueue l (taskOf i a) w"

definition task_remove :: "nat \<Rightarrow> world \<Rightarrow> world" where
  "task_remove i w = (case removeConnectionInLoop (everMade w ! i) (tcpOf w) of
     (s, es) \<Rightarrow> fold (queue_effect i) es (w\<lparr>tcpOf := s\<rparr>))"

text \<open>\<open>connectDestroyed\<close>; with the task goes the last reference to the object.\<close>

definition task_destroy :: "nat \<Rightarrow> world \<Rightarrow> world option" where
  "task_destroy i w = do {
     (c, p, es) \<leftarrow> connectDestroyed interest_ctl (objectOf w i) (epollOf w (loopAt w i));
     Some ((put_conn i c p es w)\<lparr>gone := insert i (gone w)\<rparr>) }"

fun perform_task :: "(nat \<Rightarrow> int + nat) \<Rightarrow> task \<Rightarrow> world \<Rightarrow> world option" where
  "perform_task ws (Establish i) w = task_establish ws i w"
| "perform_task ws (Remove i) w = Some (task_remove i w)"
| "perform_task ws (Destroy i) w = task_destroy i w"

text \<open>A call handed over by the thread of loop \<open>cur\<close>: \<open>runInLoop\<close> performs it at once in its own loop.\<close>

fun run_task :: "(nat \<Rightarrow> int + nat) \<Rightarrow> task list \<Rightarrow> world \<Rightarrow> world option" where
  "run_task ws [] w = Some w"
| "run_task ws (t # ts) w = Option.bind (perform_task ws t w) (run_task ws ts)"

fun hand_over :: "(nat \<Rightarrow> int + nat) \<Rightarrow> nat \<Rightarrow> nat \<Rightarrow> seffect list \<Rightarrow> world \<Rightarrow> world option" where
  "hand_over ws cur i [] w = Some w"
| "hand_over ws cur i (RunInLoop l a # es) w =
     (if l = cur then Option.bind (run_task ws (taskOf i a) w) (hand_over ws cur i es)
      else hand_over ws cur i es (enqueue l (taskOf i a) w))"
| "hand_over ws cur i (QueueInLoop l a # es) w = hand_over ws cur i es (enqueue l (taskOf i a) w)"

subsection \<open>Clients\<close>

text \<open>A client arrives: \<open>newConnection\<close> in the server's loop, with the descriptor of \<open>accept\<close> and the two addresses.\<close>

definition world_accept :: "(nat \<Rightarrow> int + nat) \<Rightarrow> int \<Rightarrow> inet_address \<Rightarrow> inet_address \<Rightarrow> world \<Rightarrow> world option" where
  "world_accept ws f peer local w = (case newConnection f peer local (tcpOf w) of
     (s, c, es) \<Rightarrow> let i = length (everMade w) in
       hand_over ws (baseOf s) i es
         (w\<lparr>tcpOf := s, everMade := everMade w @ [c], objectOf := (objectOf w)(i := tcp_callbacks (conn_new i f))\<rparr>))"

text \<open>
  A segment or the end of file (the empty segment) to read, room to write, or a hang-up, for connection \<open>i\<close> in its loop's
  thread.  The close callback is \<open>TcpServer::removeConnection\<close>.
\<close>

datatype io_event = Served svc_event | HangUp

fun world_service :: "io_event \<Rightarrow> conn \<times> interest poller \<times> kvstore \<Rightarrow> (conn \<times> interest poller \<times> kvstore \<times> ceffect list) option" where
  "world_service (Served e) s = service_step interest_ctl e s"
| "world_service HangUp (c, p, st) = map_option (\<lambda>(c', p', es). (c', p', st, es)) (handleClose interest_ctl c p)"

fun segment_of :: "io_event \<Rightarrow> conn \<Rightarrow> string list" where
  "segment_of (Served (Bytes d ws)) c = (if d = [] then [] else [take (readCapacity (inputBuffer c)) d])"
| "segment_of _ c = []"

fun writes_of :: "io_event \<Rightarrow> nat \<Rightarrow> int + nat" where
  "writes_of (Served (Bytes d ws)) = ws"
| "writes_of _ = (\<lambda>n. Inr 0)"

definition world_event :: "nat \<Rightarrow> io_event \<Rightarrow> world \<Rightarrow> world option" where
  "world_event i e w = do {
     (c, p, st, es) \<leftarrow> world_service e (objectOf w i, epollOf w (loopAt w i), storeOf w);
     let w1 = breaks i (writes_of e) ((put_conn i c p es w)\<lparr>storeOf := st, segLog := segLog w @ map (Pair i) (segment_of e (objectOf w i))\<rparr>);
     (if CloseCallback \<in> set es then hand_over (writes_of e) (loopAt w i) i (removeConnection (everMade w ! i) (tcpOf w)) w1
      else Some w1) }"

subsection \<open>Steps\<close>

text \<open>
  \<open>accept\<close> returns a descriptor that is not open: neither one of the server's own, \<open>own\<close>, nor that of a connection whose object
  exists.  The kernel reports only descriptors it watches.
\<close>

definition busy :: "int set \<Rightarrow> world \<Rightarrow> int set" where
  "busy own w = own \<union> {sockfd (everMade w ! i) | i. i < length (everMade w) \<and> i \<notin> gone w}"

definition watched :: "world \<Rightarrow> nat \<Rightarrow> bool" where
  "watched w i \<longleftrightarrow> kernel (epollOf w (loopAt w i)) (sockfd (everMade w ! i)) \<noteq> None"

inductive world_step :: "int set \<Rightarrow> world \<Rightarrow> world \<Rightarrow> bool" for own where
  arrives: "f \<notin> busy own w \<Longrightarrow> world_accept ws f peer local w = Some w' \<Longrightarrow> world_step own w w'"
| task: "queueOf w l = t # ts \<Longrightarrow> perform_task ws t (w\<lparr>queueOf := (queueOf w)(l := ts)\<rparr>) = Some w' \<Longrightarrow> world_step own w w'"
| event: "i < length (everMade w) \<Longrightarrow> i \<notin> gone w \<Longrightarrow> watched w i \<Longrightarrow> world_event i e w = Some w' \<Longrightarrow> world_step own w w'"

inductive world_reachable :: "int set \<Rightarrow> world \<Rightarrow> world \<Rightarrow> bool" for own w0 where
  init: "world_reachable own w0 w0"
| step: "world_reachable own w0 w \<Longrightarrow> world_step own w w' \<Longrightarrow> world_reachable own w0 w'"

end
