(* ===== verification/Live_Server_Frames.thy ===== *)
theory Live_Server_Frames
  imports Live_Server
begin

text \<open>
  What the handlers of one connection leave alone: every operation of a connection on the interest list touches its own
  descriptor only, keeps the identity of its channel and its callbacks; and what each handler does to an open connection
  whatever its writes return.
\<close>

subsection \<open>Other descriptors\<close>

definition keeps :: "conn \<Rightarrow> interest poller \<Rightarrow> conn \<Rightarrow> interest poller \<Rightarrow> bool" where
  "keeps c p c' p' \<longleftrightarrow> fd (chan c') = fd (chan c) \<and> cid (chan c') = cid (chan c) \<and> hasConnectionCb c' = hasConnectionCb c \<and>
     hasMessageCb c' = hasMessageCb c \<and> hasCloseCallback c' = hasCloseCallback c \<and>
     (\<forall>g. g \<noteq> fd (chan c) \<longrightarrow> kernel p' g = kernel p g \<and> channels p' g = channels p g)"

lemma keeps_refl [simp]: "keeps c p c p" by (simp add: keeps_def)

lemma keeps_trans: "keeps c p c1 p1 \<Longrightarrow> keeps c1 p1 c2 p2 \<Longrightarrow> keeps c p c2 p2"
  by (simp add: keeps_def)

lemma updateChannel_keeps: "updateChannel interest_ctl ch p = Some (ch', p') \<Longrightarrow>
    fd ch' = fd ch \<and> cid ch' = cid ch \<and> (\<forall>g. g \<noteq> fd ch \<longrightarrow> kernel p' g = kernel p g \<and> channels p' g = channels p g)"
  by (auto simp: updateChannel_def ctl_update_def Let_def split: if_splits prod.splits)

lemma removeChannel_keeps: "removeChannel interest_ctl ch p = Some (ch', p') \<Longrightarrow>
    fd ch' = fd ch \<and> cid ch' = cid ch \<and> (\<forall>g. g \<noteq> fd ch \<longrightarrow> kernel p' g = kernel p g \<and> channels p' g = channels p g)"
  by (auto simp: removeChannel_def ctl_update_def Let_def split: if_splits prod.splits)

lemma chan_step_keeps: "chan_step interest_ctl a ch p = Some (ch', p') \<Longrightarrow>
    fd ch' = fd ch \<and> cid ch' = cid ch \<and> (\<forall>g. g \<noteq> fd ch \<longrightarrow> kernel p' g = kernel p g \<and> channels p' g = channels p g)"
  by (cases a) (auto simp: enableReading_def disableReading_def enableWriting_def disableWriting_def disableAll_def
      Channel_Poller.chan_update_def chan_remove_def dest!: updateChannel_keeps removeChannel_keeps)

lemma on_chan_keeps: "on_chan (chan_step interest_ctl a) c p = Some (c', p') \<Longrightarrow> keeps c p c' p'"
  by (auto simp: on_chan_def keeps_def dest!: chan_step_keeps)

lemmas on_chan_keeps_ops =
  on_chan_keeps [of EnableReading, simplified] on_chan_keeps [of EnableWriting, simplified]
  on_chan_keeps [of DisableWriting, simplified] on_chan_keeps [of DisableAll, simplified]
  on_chan_keeps [of RemoveChan, simplified]

lemma keeps_fields [simp]:
  "keeps (c\<lparr>cstate := x\<rparr>) p c' p' = keeps c p c' p'" "keeps (c\<lparr>inputBuffer := b\<rparr>) p c' p' = keeps c p c' p'"
  "keeps (c\<lparr>outputBuffer := b\<rparr>) p c' p' = keeps c p c' p'" "keeps (c\<lparr>chan := chan_tie (chan c)\<rparr>) p c' p' = keeps c p c' p'"
  "keeps c p (c'\<lparr>cstate := x\<rparr>) p' = keeps c p c' p'" "keeps c p (c'\<lparr>inputBuffer := b\<rparr>) p' = keeps c p c' p'"
  "keeps c p (c'\<lparr>outputBuffer := b\<rparr>) p' = keeps c p c' p'"
  "keeps (c\<lparr>cstate := x, chan := chan_tie (chan c)\<rparr>) p c' p' = keeps c p c' p'"
  by (simp_all add: keeps_def chan_tie_def)

lemma sendInLoop_keeps: "sendInLoop interest_ctl w m c p = Some (c', p', es) \<Longrightarrow> keeps c p c' p'"
  by (auto simp: sendInLoop_def Let_def split: if_splits dest!: on_chan_keeps_ops)

lemma handleWrite_keeps: "handleWrite interest_ctl w c p = Some (c', p', es) \<Longrightarrow> keeps c p c' p'"
  by (auto simp: handleWrite_def Let_def split: if_splits prod.splits dest!: on_chan_keeps_ops)

lemma handleClose_keeps: "handleClose interest_ctl c p = Some (c', p', es) \<Longrightarrow> keeps c p c' p'"
  by (auto simp: handleClose_def dest!: on_chan_keeps_ops)

lemma handleRead_keeps: "handleRead interest_ctl r c p = Some (c', p', es) \<Longrightarrow> keeps c p c' p'"
  by (auto simp: handleRead_def Let_def split: if_splits prod.splits dest!: handleClose_keeps)

lemma connectEstablished_keeps: "connectEstablished interest_ctl c p = Some (c', p', es) \<Longrightarrow> keeps c p c' p'"
  by (auto simp: connectEstablished_def dest!: on_chan_keeps_ops)

lemma connectDestroyed_keeps: "connectDestroyed interest_ctl c p = Some (c', p', es) \<Longrightarrow> keeps c p c' p'"
  by (fastforce simp: connectDestroyed_def split: if_splits Option.bind_splits dest!: on_chan_keeps_ops intro: keeps_trans)

lemma conn_run_keeps: "conn_run interest_ctl (effect_events ws effs) c p = Some (c', p', es) \<Longrightarrow> keeps c p c' p'"
proof (induction ws effs arbitrary: c p es rule: effect_events.induct)
  case (2 w s effs)
  from "2.prems" obtain c1 p1 es1 es2 where s1: "conn_send interest_ctl True (offer (length s) (w 0)) s c p = Some (c1, p1, es1)"
    and r: "conn_run interest_ctl (effect_events (\<lambda>i. w (Suc i)) effs) c1 p1 = Some (c', p', es2)"
    by (auto split: Option.bind_splits)
  from s1 have "keeps c p c1 p1" by (auto simp: conn_send_def split: if_splits dest: sendInLoop_keeps)
  with "2.IH" [OF r] show ?case by (blast intro: keeps_trans)
next
  case (3 w effs)
  then show ?case
    by (fastforce simp: conn_shutdown_def Let_def split: Option.bind_splits if_splits prod.splits dest!: "3.IH")
qed simp

lemma world_service_keeps: "world_service e (c, p, st) = Some (c', p', st', es) \<Longrightarrow> keeps c p c' p'"
proof (induction e "(c, p, st)" rule: world_service.induct)
  case (1 e)
  then show ?case
  proof (cases e)
    case (Bytes d ws)
    with 1 show ?thesis
      by (fastforce split: if_splits Option.bind_splits dest!: handleRead_keeps conn_run_keeps intro: keeps_trans)
  next
    case (Writable w)
    with 1 show ?thesis by (auto split: Option.bind_splits dest: handleWrite_keeps)
  qed
next
  case 2
  then show ?case by (auto dest: handleClose_keeps)
qed

subsection \<open>Watched for reading\<close>

definition reading :: "conn \<Rightarrow> bool" where
  "reading c \<longleftrightarrow> index (chan c) = kAdded \<and> isReading (chan c)"

lemma reading_bits [simp]:
  "e AND kReadEvent \<noteq> 0 \<Longrightarrow> (e OR kWriteEvent) AND kReadEvent \<noteq> 0"
  "(e AND NOT kWriteEvent) AND kReadEvent = e AND kReadEvent"
  "(e OR kReadEvent) AND kReadEvent = kReadEvent" "kReadEvent \<noteq> 0"
proof -
  have "kWriteEvent AND kReadEvent = 0" "NOT kWriteEvent AND kReadEvent = kReadEvent" by (simp_all add: event_defs)
  then show "(e AND NOT kWriteEvent) AND kReadEvent = e AND kReadEvent"
    "e AND kReadEvent \<noteq> 0 \<Longrightarrow> (e OR kWriteEvent) AND kReadEvent \<noteq> 0"
    by (simp_all add: and.assoc bit.conj_disj_distrib2)
  show "(e OR kReadEvent) AND kReadEvent = kReadEvent" by (simp add: bit.conj_disj_distrib2)
  show "kReadEvent \<noteq> 0" by (simp add: event_defs)
qed

lemma updateChannel_added:
  "updateChannel interest_ctl ch p = Some (ch', p') \<Longrightarrow> isReading ch \<Longrightarrow> index ch' = kAdded \<or> index ch \<notin> {kNew, kDeleted, kAdded}"
  "updateChannel interest_ctl ch p = Some (ch', p') \<Longrightarrow> events ch' = events ch"
  by (auto simp: updateChannel_def isReading_def isNoneEvent_def kNoneEvent_def Let_def split: if_splits)

lemma chan_step_reading:
  assumes "chan_step interest_ctl a ch p = Some (ch', p')" "index ch = kAdded" "isReading ch" "a \<in> {EnableWriting, DisableWriting}"
  shows "index ch' = kAdded \<and> isReading ch'"
proof -
  let ?ch = "ch\<lparr>events := newEvents a (events ch), addedToLoop := True\<rparr>"
  have u: "updateChannel interest_ctl ?ch p = Some (ch', p')"
    using assms(1,4) chan_step_update [of a interest_ctl ch p] by (auto simp: Channel_Poller.chan_update_def)
  moreover have r: "isReading ?ch" using assms(3,4) by (auto simp: isReading_def)
  ultimately show ?thesis using updateChannel_added [OF u] assms(2) by (simp add: isReading_def)
qed

lemma on_chan_reading:
  "on_chan (enableWriting interest_ctl) c p = Some (c', p') \<Longrightarrow> reading c \<Longrightarrow> reading c'"
  "on_chan (disableWriting interest_ctl) c p = Some (c', p') \<Longrightarrow> reading c \<Longrightarrow> reading c'"
  using chan_step_reading [of EnableWriting "chan c" p] chan_step_reading [of DisableWriting "chan c" p]
  by (auto simp: on_chan_def reading_def)

lemma reading_fields [simp]: "reading (c\<lparr>cstate := x\<rparr>) = reading c" "reading (c\<lparr>inputBuffer := b\<rparr>) = reading c"
  "reading (c\<lparr>outputBuffer := b\<rparr>) = reading c"
  by (simp_all add: reading_def)

lemma sendInLoop_reading: "sendInLoop interest_ctl w m c p = Some (c', p', es) \<Longrightarrow> reading c \<Longrightarrow> reading c'"
  by (auto simp: sendInLoop_def Let_def split: if_splits dest!: on_chan_reading(1))

lemma handleWrite_reading: "handleWrite interest_ctl w c p = Some (c', p', es) \<Longrightarrow> reading c \<Longrightarrow> reading c'"
  by (auto simp: handleWrite_def Let_def split: if_splits prod.splits dest!: on_chan_reading(2))

lemma conn_run_reading: "conn_run interest_ctl (effect_events ws effs) c p = Some (c', p', es) \<Longrightarrow> reading c \<Longrightarrow> reading c'"
proof (induction ws effs arbitrary: c p es rule: effect_events.induct)
  case (2 w s effs)
  from "2.prems"(1) obtain c1 p1 es1 es2 where s1: "conn_send interest_ctl True (offer (length s) (w 0)) s c p = Some (c1, p1, es1)"
    and r: "conn_run interest_ctl (effect_events (\<lambda>i. w (Suc i)) effs) c1 p1 = Some (c', p', es2)"
    by (auto split: Option.bind_splits)
  from s1 "2.prems"(2) have "reading c1" by (auto simp: conn_send_def split: if_splits dest: sendInLoop_reading)
  with "2.IH" [OF r] show ?case by simp
next
  case (3 w effs)
  then show ?case
    by (fastforce simp: conn_shutdown_def Let_def split: Option.bind_splits if_splits prod.splits dest!: "3.IH")
qed simp

lemma connectEstablished_reading:
  assumes "connectEstablished interest_ctl c p = Some (c', p', es)" "index (chan c) = kNew"
  shows "reading c'"
proof -
  let ?ch = "(chan_tie (chan c))\<lparr>events := events (chan c) OR kReadEvent, addedToLoop := True\<rparr>"
  from assms(1) obtain ch' where u: "updateChannel interest_ctl ?ch p = Some (ch', p')" "c' = c\<lparr>cstate := kConnected, chan := ch'\<rparr>"
    by (auto simp: connectEstablished_def on_chan_def enableReading_def Channel_Poller.chan_update_def chan_tie_def)
  have "isReading ?ch" by (simp add: isReading_def)
  with updateChannel_added [OF u(1)] assms(2) u(2) show ?thesis by (simp add: reading_def isReading_def chan_tie_def)
qed

text \<open>Closing takes the descriptor out of the kernel's set.\<close>

lemma handleClose_unwatched:
  assumes "handleClose interest_ctl c p = Some (c', p', es)" "index (chan c) = kAdded"
  shows "index (chan c') = kDeleted"
  using assms by (auto simp: handleClose_def on_chan_def disableAll_def Channel_Poller.chan_update_def updateChannel_def
      isNoneEvent_def kNoneEvent_def index_defs split: if_splits)

subsection \<open>The list of connections\<close>

text \<open>Only an arrival extends the list.\<close>

lemma breaks_made [simp]: "everMade (breaks i ws w) = everMade w" by (simp add: breaks_def)

lemma enqueue_made [simp]: "everMade (enqueue l ts w) = everMade w" by (simp add: enqueue_def)

lemma put_conn_made [simp]: "everMade (put_conn i c p es w) = everMade w" by (simp add: put_conn_def)

lemma perform_task_made: "perform_task ws t w = Some w' \<Longrightarrow> everMade w' = everMade w"
  by (cases t) (auto simp: task_establish_def task_remove_def task_destroy_def removeConnectionInLoop_def split: Option.bind_splits)

lemma run_task_made: "run_task ws ts w = Some w' \<Longrightarrow> everMade w' = everMade w"
  by (induction ts arbitrary: w) (auto split: Option.bind_splits dest!: perform_task_made)

lemma hand_over_made: "hand_over ws cur i es w = Some w' \<Longrightarrow> everMade w' = everMade w"
  by (induction ws cur i es w rule: hand_over.induct) (auto split: Option.bind_splits if_splits dest!: run_task_made)

lemma world_event_made: "world_event i e w = Some w' \<Longrightarrow> everMade w' = everMade w"
  by (auto simp: world_event_def Let_def split: Option.bind_splits if_splits dest!: hand_over_made)

end
