(* ===== verification/Live_Server_Steps.thy ===== *)
theory Live_Server_Steps
  imports Live_Server_Frames
begin

text \<open>
  One handler of an open connection of the running server: it always returns, keeps the connection open or closes it, serves
  the segment it read on the store, and hands to the kernel what the callbacks sent, unless the peer has gone.
\<close>

subsection \<open>Open connections\<close>

abbreviation wellConn :: "conn \<Rightarrow> interest poller \<Rightarrow> bool" where
  "wellConn \<equiv> conn_ok (\<lambda>k. k)"

definition open_conn :: "conn \<Rightarrow> interest poller \<Rightarrow> bool" where
  "open_conn c p \<longleftrightarrow> wellConn c p \<and> reading c \<and> (cstate c = kConnected \<or> cstate c = kDisconnecting) \<and>
     hasConnectionCb c \<and> hasMessageCb c \<and> hasCloseCallback c"

definition closed_conn :: "conn \<Rightarrow> interest poller \<Rightarrow> bool" where
  "closed_conn c p \<longleftrightarrow> wellConn c p \<and> cstate c = kDisconnected \<and> index (chan c) \<noteq> kAdded"

text \<open>What the sends of a callback amount to, and the state after it: nothing is sent behind a shutdown.\<close>

definition promised :: "connState \<Rightarrow> effect list \<Rightarrow> string" where
  "promised st effs = (if st = kConnected then concat (sends (takeWhile (\<lambda>e. e \<noteq> Shutdown) effs)) else [])"

definition shut :: "connState \<Rightarrow> effect list \<Rightarrow> connState" where
  "shut st effs = (if st = kConnected \<and> Shutdown \<in> set effs then kDisconnecting else st)"

lemma promised_simps [simp]: "promised st [] = []" "promised kConnected (Send s # effs) = s @ promised kConnected effs"
  "promised kConnected (Shutdown # effs) = []" "st \<noteq> kConnected \<Longrightarrow> promised st effs = []"
  by (simp_all add: promised_def)

lemma shut_simps [simp]: "shut st [] = st" "shut st (Send s # effs) = shut st effs" "st \<noteq> kConnected \<Longrightarrow> shut st effs = st"
  "shut kConnected (Shutdown # effs) = kDisconnecting"
  by (auto simp: shut_def)

subsection \<open>Sending, whatever the writes return\<close>

lemma sendInLoop_quiet: "sendInLoop interest_ctl w m c p = Some (c', p', es) \<Longrightarrow> callbacks es = [] \<and> CloseCallback \<notin> set es"
  by (auto simp: sendInLoop_def Let_def split: if_splits sum.splits)

lemma sendInLoop_safe:
  assumes "wellConn c p" "cstate c \<noteq> kDisconnected" "w = offer (length m) w0"
  shows "\<exists>c' p' es. sendInLoop interest_ctl w m c p = Some (c', p', es) \<and> wellConn c' p' \<and> cstate c' = cstate c"
proof (cases "w0 = Inl EPIPE \<or> w0 = Inl ECONNRESET")
  case False
  then have "case w of Inl e \<Rightarrow> e \<noteq> EPIPE \<and> e \<noteq> ECONNRESET | Inr n \<Rightarrow> n \<le> length m"
    by (cases w0) (auto simp: assms(3) offer_def)
  from ep.sendInLoop_ok [OF assms(1,2) this] show ?thesis by blast
next
  case True
  have ne: "EPIPE \<noteq> EWOULDBLOCK" "ECONNRESET \<noteq> EWOULDBLOCK" by (simp_all add: EPIPE_def ECONNRESET_def EWOULDBLOCK_def)
  show ?thesis
  proof (cases "\<not> isWriting (chan c) \<and> readableBytes (outputBuffer c) = 0")
    case direct: True
    with True ne assms(2) have "sendInLoop interest_ctl w m c p = Some (c, p, [])"
      by (auto simp: sendInLoop_def assms(3) offer_def Let_def)
    with assms(1) show ?thesis by blast
  next
    case queued: False
    note eqFalseI = iffD2 [OF eq_False]
    \<comment> \<open>nothing is written, so the result of the write does not matter\<close>
    have "sendInLoop interest_ctl w m c p = sendInLoop interest_ctl (Inr 0) m c p"
      unfolding sendInLoop_def Let_def eqFalseI [OF queued] by simp
    moreover have "case (Inr 0 :: int + nat) of Inl e \<Rightarrow> e \<noteq> EPIPE \<and> e \<noteq> ECONNRESET | Inr n \<Rightarrow> n \<le> length m" by simp
    ultimately show ?thesis using ep.sendInLoop_ok [OF assms(1,2), of m "Inr 0"] by auto
  qed
qed

lemma effects_quiet: "conn_run interest_ctl (effect_events ws effs) c p = Some (c', p', es) \<Longrightarrow> callbacks es = [] \<and> CloseCallback \<notin> set es"
proof (induction ws effs arbitrary: c p es rule: effect_events.induct)
  case (2 w s effs)
  from "2.prems" obtain c1 p1 es1 es2 where s1: "conn_send interest_ctl True (offer (length s) (w 0)) s c p = Some (c1, p1, es1)"
    and r: "conn_run interest_ctl (effect_events (\<lambda>i. w (Suc i)) effs) c1 p1 = Some (c', p', es2)" and e: "es = es1 @ es2"
    by (auto split: Option.bind_splits)
  have "callbacks (es1 @ es2) = callbacks es1 @ callbacks es2" by (induction es1 rule: callbacks.induct) simp_all
  with s1 "2.IH" [OF r] e show ?case by (auto simp: conn_send_def split: if_splits dest: sendInLoop_quiet)
next
  case (3 w effs)
  then obtain c1 es1 es2 where "conn_shutdown True c = (c1, es1)" "es = es1 @ es2"
    and r: "conn_run interest_ctl (effect_events w effs) c1 p = Some (c', p', es2)"
    by (auto split: Option.bind_splits prod.splits)
  moreover from this(1) have "es1 = [] \<or> es1 = [ShutdownWrite]"
    by (auto simp: conn_shutdown_def shutdownInLoop_def Let_def split: if_splits)
  ultimately show ?case using "3.IH" [OF r] by auto
qed simp

lemma effects_safe:
  assumes "wellConn c p" "cstate c \<noteq> kConnecting"
  shows "\<exists>c' p' es. conn_run interest_ctl (effect_events ws effs) c p = Some (c', p', es) \<and> wellConn c' p' \<and>
    cstate c' = shut (cstate c) effs"
  using assms
proof (induction ws effs arbitrary: c p rule: effect_events.induct)
  case (2 w s effs)
  obtain c1 p1 es1 where s1: "conn_send interest_ctl True (offer (length s) (w 0)) s c p = Some (c1, p1, es1)" "wellConn c1 p1"
    "cstate c1 = cstate c"
    using "2.prems" sendInLoop_safe [OF "2.prems"(1) _ refl, of s "w 0"] by (cases "cstate c = kConnected") (auto simp: conn_send_def)
  with "2.IH" [OF s1(2)] "2.prems"(2) show ?case by fastforce
next
  case (3 w effs)
  show ?case
  proof (cases "cstate c = kConnected")
    case True
    let ?c = "c\<lparr>cstate := kDisconnecting\<rparr>"
    have "wellConn ?c p" using "3.prems"(1) True by (simp add: conn_ok_def)
    from "3.IH" [OF this] True show ?thesis by (auto simp: conn_shutdown_def Let_def)
  next
    case False
    with "3.IH" [OF "3.prems"] show ?thesis by (auto simp: conn_shutdown_def)
  qed
qed simp

lemma fold_shut: "st \<noteq> kConnecting \<Longrightarrow> sentBytes st (effect_events ws effs) = promised st effs"
proof (induction ws effs arbitrary: st rule: effect_events.induct)
  case (3 w effs)
  have "sentBytes kDisconnecting (effect_events w effs) = promised kDisconnecting effs" by (rule "3.IH") simp
  then show ?case using "3.IH" [of st] "3.prems" by (cases "st = kConnected") simp_all
next
  case (2 w s effs)
  then show ?case by (cases "st = kConnected") simp_all
qed simp

lemma effects_sends:
  assumes "wellConn c p" "cstate c \<noteq> kConnecting" "\<forall>n. peerAlive (EvSend [] (ws n))"
    and "conn_run interest_ctl (effect_events ws effs) c p = Some (c', p', es)"
  shows "wrote es @ content (outputBuffer c') = content (outputBuffer c) @ promised (cstate c) effs"
  using ep.conn_run_ok [OF assms(1) effects_alive [OF assms(3), of effs] assms(2)] assms(4) fold_shut [OF assms(2)] by auto

subsection \<open>The handlers\<close>

fun closes :: "io_event \<Rightarrow> bool" where
  "closes (Served (Bytes d ws)) = (d = [])"
| "closes (Served (Writable w)) = False"
| "closes HangUp = True"

fun seg_serve :: "string list \<Rightarrow> string \<Rightarrow> kvmap \<Rightarrow> string \<times> kvmap \<times> effect list" where
  "seg_serve [] r m = (r, m, [])"
| "seg_serve (d # ds) r m = serve (r @ d) m"

lemma handleClose_closes:
  assumes "open_conn c p"
  shows "\<exists>c' p'. handleClose interest_ctl c p = Some (c', p', [ConnectionCallback False, CloseCallback]) \<and> closed_conn c' p' \<and>
    inputBuffer c' = inputBuffer c \<and> outputBuffer c' = outputBuffer c"
proof -
  have o: "wellConn c p" "index (chan c) = kAdded" "hasConnectionCb c" "hasCloseCallback c"
    using assms by (auto simp: open_conn_def reading_def)
  from ep.handleClose_ok [OF o(1)] obtain c' p' es where
    h: "handleClose interest_ctl c p = Some (c', p', es)" "wellConn c' p'" "cstate c' = kDisconnected" by blast
  from h(1) o(3,4) have "es = [ConnectionCallback False, CloseCallback]" "inputBuffer c' = inputBuffer c"
    "outputBuffer c' = outputBuffer c" by (auto simp: handleClose_def on_chan_def)
  with h handleClose_unwatched [OF h(1) o(2)] show ?thesis by (simp add: closed_conn_def index_defs)
qed

lemma handler_closes:
  assumes "open_conn c p" "closes e"
  shows "\<exists>c' p'. world_service e (c, p, st) = Some (c', p', st, [ConnectionCallback False, CloseCallback]) \<and> closed_conn c' p' \<and>
    content (inputBuffer c') = content (inputBuffer c) \<and> outputBuffer c' = outputBuffer c \<and> segment_of e c = []"
proof (cases e)
  case HangUp
  with handleClose_closes [OF assms(1)] show ?thesis by auto
next
  case (Served v)
  then obtain ws where v: "v = Bytes [] ws" using assms(2) by (cases v) auto
  have inv: "buf_inv (inputBuffer c)" using assms(1) by (simp add: open_conn_def conn_ok_def)
  obtain b where b: "readFd (Inr []) (inputBuffer c) = (b, 0, None)" "buf_inv b" "content b = content (inputBuffer c)"
    using readFd_ok [OF inv, of "[]"] by auto
  have "open_conn (c\<lparr>inputBuffer := b\<rparr>) p" using assms(1) b(2) by (simp add: open_conn_def conn_ok_def)
  from handleClose_closes [OF this] b Served v show ?thesis by (auto simp: handleRead_def deliver_def)
qed

lemma read_segment:
  assumes "wellConn c p" "hasMessageCb c" "d \<noteq> []"
  obtains b where "handleRead interest_ctl (deliver (readCapacity (inputBuffer c)) (Inr d)) c p =
      Some (c\<lparr>inputBuffer := b\<rparr>, p, [MessageCallback])"
    "buf_inv b" "content b = content (inputBuffer c) @ take (readCapacity (inputBuffer c)) d"
proof -
  let ?d = "take (readCapacity (inputBuffer c)) d"
  have inv: "buf_inv (inputBuffer c)" using assms(1) by (simp add: conn_ok_def)
  obtain b where b: "readFd (Inr ?d) (inputBuffer c) = (b, int (length ?d), None)" "buf_inv b"
    "content b = content (inputBuffer c) @ ?d" using readFd_ok [OF inv, of ?d] by auto
  have "0 < length ?d" using assms(3) by (simp add: readCapacity_def kExtraBuf_def)
  with b(1) assms(2) have "handleRead interest_ctl (deliver (readCapacity (inputBuffer c)) (Inr d)) c p =
      Some (c\<lparr>inputBuffer := b\<rparr>, p, [MessageCallback])" by (simp add: handleRead_def deliver_def)
  with b(2,3) show thesis by (rule that [rotated])
qed

lemma shut_open: "st = kConnected \<or> st = kDisconnecting \<Longrightarrow> shut st effs = kConnected \<or> shut st effs = kDisconnecting"
  by (auto simp: shut_def)

lemma keeps_open: "keeps c p c' p' \<Longrightarrow> hasConnectionCb c' = hasConnectionCb c \<and> hasMessageCb c' = hasMessageCb c \<and>
    hasCloseCallback c' = hasCloseCallback c"
  by (simp add: keeps_def)

lemma handler_stays:
  assumes "open_conn c p" "\<not> closes e" "kv_inv st"
  shows "\<exists>c' p' st' es effs. world_service e (c, p, st) = Some (c', p', st', es) \<and> open_conn c' p' \<and> kv_inv st' \<and>
    seg_serve (segment_of e c) (content (inputBuffer c)) (kv_map st) = (content (inputBuffer c'), kv_map st', effs) \<and>
    callbacks es = [] \<and> CloseCallback \<notin> set es \<and> cstate c' = shut (cstate c) effs \<and>
    ((\<forall>n. peerAlive (EvSend [] (writes_of e n))) \<longrightarrow>
      wrote es @ content (outputBuffer c') = content (outputBuffer c) @ promised (cstate c) effs)"
proof -
  have o: "wellConn c p" "reading c" "cstate c = kConnected \<or> cstate c = kDisconnecting" "cstate c \<noteq> kDisconnected"
    "cstate c \<noteq> kConnecting" "hasConnectionCb c" "hasMessageCb c" "hasCloseCallback c"
    using assms(1) by (auto simp: open_conn_def)
  from assms(2) consider (Writable) w where "e = Served (Writable w)" | (Bytes) d ws where "e = Served (Bytes d ws)" "d \<noteq> []"
    by (cases e rule: closes.cases) auto
  then show ?thesis
  proof cases
    case Writable
    from ep.handleWrite_ok [OF o(1,4) refl, of w] obtain c' p' es where
      h: "handleWrite interest_ctl (offer (readableBytes (outputBuffer c)) w) c p = Some (c', p', es)" "wellConn c' p'"
        "cstate c' = cstate c" "wrote es @ content (outputBuffer c') = content (outputBuffer c)" by blast
    have q: "callbacks es = []" "CloseCallback \<notin> set es"
      using h(1) by (auto simp: handleWrite_def Let_def shutdownInLoop_def split: if_splits prod.splits)
    have "open_conn c' p'"
      using h(2,3) handleWrite_reading [OF h(1) o(2)] keeps_open [OF handleWrite_keeps [OF h(1)]] o by (simp add: open_conn_def)
    with Writable h q assms(3) handleWrite_frame [OF h(1)] show ?thesis by simp
  next
    case Bytes
    obtain b where rd: "handleRead interest_ctl (deliver (readCapacity (inputBuffer c)) (Inr d)) c p = Some (c\<lparr>inputBuffer := b\<rparr>, p, [MessageCallback])"
      and b: "buf_inv b" "content b = content (inputBuffer c) @ take (readCapacity (inputBuffer c)) d"
      using read_segment [OF o(1,7) Bytes(2)] by blast
    obtain b' st' effs where m: "onMessage b st = Some (b', st', effs)" "buf_inv b'" "kv_inv st'"
      "serve (content b) (kv_map st) = (content b', kv_map st', effs)" using onMessage_spec [OF b(1) assms(3)] by blast
    let ?c = "c\<lparr>inputBuffer := b'\<rparr>"
    have ok: "wellConn ?c p" "cstate ?c \<noteq> kConnecting" using o m(2) by (simp_all add: conn_ok_def)
    from effects_safe [OF ok, of ws effs] obtain c' p' es where
      r: "conn_run interest_ctl (effect_events ws effs) ?c p = Some (c', p', es)" "wellConn c' p'" "cstate c' = shut (cstate c) effs"
      by auto
    have "open_conn c' p'"
      using r(2,3) shut_open [OF o(3), of effs] conn_run_reading [OF r(1)] keeps_open [OF conn_run_keeps [OF r(1)]] o
      by (simp add: open_conn_def)
    moreover have "content (inputBuffer c') = content b'" using effects_frame [OF r(1)] by simp
    moreover have "(\<forall>n. peerAlive (EvSend [] (ws n))) \<longrightarrow> wrote es @ content (outputBuffer c') = content (outputBuffer c) @ promised (cstate c) effs"
      using effects_sends [OF ok _ r(1)] by auto
    ultimately show ?thesis using Bytes rd m b(2) r(1,3) effects_quiet [OF r(1)] by simp
  qed
qed

text \<open>Establishing and destroying.\<close>

lemma establishes:
  assumes "kernel p f = None" "c = tcp_callbacks (conn_new a f)"
  shows "\<exists>c1 p1 c2 p2 es. connectEstablished interest_ctl c p = Some (c1, p1, [ConnectionCallback True]) \<and>
    conn_run interest_ctl (effect_events ws (onConnection True)) c1 p1 = Some (c2, p2, es) \<and>
    open_conn c2 p2 \<and> cstate c2 = kConnected \<and> content (inputBuffer c2) = [] \<and> callbacks es = [] \<and> keeps c p c2 p2 \<and>
    ((\<forall>n. peerAlive (EvSend [] (ws n))) \<longrightarrow> wrote es @ content (outputBuffer c2) = welcomeText)"
proof -
  obtain c1 p1 where e: "connectEstablished interest_ctl c p = Some (c1, p1, [ConnectionCallback True])"
    "wellConn c1 p1" "cstate c1 = kConnected" "content (inputBuffer c1) = []" "content (outputBuffer c1) = []"
    using ep.established_ok [of p f a] assms by blast
  have "index (chan c) = kNew" by (simp add: assms(2) tcp_callbacks_def conn_new_def setCallbacks_def channel_new_def kNew_def)
  then have rd: "reading c1" by (rule connectEstablished_reading [OF e(1)])
  have k: "keeps c p c1 p1" by (rule connectEstablished_keeps [OF e(1)])
  have "cstate c1 \<noteq> kConnecting" using e(3) by simp
  from effects_safe [OF e(2) this, of ws "onConnection True"] obtain c2 p2 es where
    r: "conn_run interest_ctl (effect_events ws (onConnection True)) c1 p1 = Some (c2, p2, es)" "wellConn c2 p2" "cstate c2 = kConnected"
    using e(3) by (auto simp: onConnection_def)
  have k2: "keeps c p c2 p2" by (rule keeps_trans [OF k conn_run_keeps [OF r(1)]])
  have "hasConnectionCb c" "hasMessageCb c" "hasCloseCallback c" by (simp_all add: assms(2) tcp_callbacks_def)
  then have "open_conn c2 p2" using r(2,3) conn_run_reading [OF r(1) rd] keeps_open [OF k2] by (simp add: open_conn_def)
  moreover have "(\<forall>n. peerAlive (EvSend [] (ws n))) \<longrightarrow> wrote es @ content (outputBuffer c2) = welcomeText"
    using effects_sends [OF e(2) _ _ r(1)] e(3,5) by (auto simp: onConnection_def)
  ultimately show ?thesis using e(1,4) r effects_quiet [OF r(1)] effects_frame [OF r(1)] k2 by auto
qed

lemma destroys:
  assumes "closed_conn c p"
  shows "\<exists>c' p'. connectDestroyed interest_ctl c p = Some (c', p', []) \<and> keeps c p c' p' \<and> kernel p' (fd (chan c)) = None \<and>
    cstate c' = kDisconnected \<and> inputBuffer c' = inputBuffer c \<and> outputBuffer c' = outputBuffer c"
proof -
  have ch: "chan_ok (\<lambda>k. k) (chan c) p" using assms by (simp add: closed_conn_def conn_ok_def)
  from ep.chan_remove_ok [OF ch] obtain ch' p' where
    r: "chan_remove interest_ctl (chan c) p = Some (ch', p')" "kernel p' (fd (chan c)) = None" by blast
  have d: "connectDestroyed interest_ctl c p = Some (c\<lparr>chan := ch'\<rparr>, p', [])"
    using assms r(1) by (simp add: connectDestroyed_def closed_conn_def on_chan_def)
  with r(2) assms connectDestroyed_keeps [OF d] show ?thesis by (simp add: closed_conn_def)
qed

end
