(* ===== verification/Live_Server_Inv.thy ===== *)
theory Live_Server_Inv
  imports Live_Server_Steps Concurrent_Service
begin

text \<open>
  The invariant of the running server: the stage of every connection with the task that is underway for it, the server's
  map, the kernel's sets, and the specification of what has been served; and that a step on one connection leaves the
  others alone.
\<close>

subsection \<open>What is served\<close>

text \<open>Serving the segments of all connections in the order in which they were read.\<close>

fun spec_log :: "(nat \<times> string) list \<Rightarrow> (nat \<Rightarrow> string) \<Rightarrow> kvmap \<Rightarrow> (nat \<Rightarrow> string) \<times> kvmap \<times> (nat \<times> effect) list" where
  "spec_log [] r m = (r, m, [])"
| "spec_log ((i, d) # segs) r m =
     (case serve (r i @ d) m of (r1, m1, es) \<Rightarrow>
      case spec_log segs (r(i := r1)) m1 of (r2, m2, out) \<Rightarrow> (r2, m2, map (Pair i) es @ out))"

lemma spec_log_snoc: "spec_log segs r m = (r1, m1, out) \<Longrightarrow> serve (r1 i @ d) m1 = (r2, m2, es) \<Longrightarrow>
    spec_log (segs @ [(i, d)]) r m = (r1(i := r2), m2, out @ map (Pair i) es)"
  by (induction segs r m arbitrary: out rule: spec_log.induct) (auto split: prod.splits)

lemma spec_log_segment: "spec_log segs r m = (r1, m1, out) \<Longrightarrow> seg_serve ds (r1 i) m1 = (r2, m2, es) \<Longrightarrow> length ds \<le> 1 \<Longrightarrow>
    spec_log (segs @ map (Pair i) ds) r m = (r1(i := r2), m2, out @ map (Pair i) es)"
  by (cases ds) (auto simp: spec_log_snoc)

lemma segment_length: "length (segment_of e c) \<le> 1"
  by (cases "(e, c)" rule: segment_of.cases) simp_all

lemma ofConn_Pair [simp]: "ofConn i (map (Pair j) es) = (if j = i then es else [])"
  by (induction es) auto

lemma promised_append: "promised kConnected (a @ b) = promised kConnected a @ promised (shut kConnected a) b"
proof (induction a)
  case (Cons e a)
  then show ?case by (cases e) simp_all
qed simp

lemma shut_append: "shut kConnected (a @ b) = shut (shut kConnected a) b"
  by (auto simp: shut_def)

subsection \<open>Stages\<close>

text \<open>
  A connection waits to be established; is open; waits to be taken out of the map; waits to be destroyed; is destroyed.
\<close>

datatype stage = Starting | Open | Leaving | Removed | Gone

definition stageOf :: "world \<Rightarrow> nat \<Rightarrow> stage" where
  "stageOf w i =
     (if i \<in> gone w then Gone
      else if Destroy i \<in> set (queueOf w (loopAt w i)) then Removed
      else if Remove i \<in> set (queueOf w (baseOf (tcpOf w))) then Leaving
      else if Establish i \<in> set (queueOf w (loopAt w i)) then Starting
      else Open)"

fun calledBack :: "stage \<Rightarrow> bool list" where
  "calledBack Starting = []"
| "calledBack Open = [True]"
| "calledBack _ = [True, False]"

definition tasks_ok :: "nat \<Rightarrow> world \<Rightarrow> nat \<Rightarrow> stage \<Rightarrow> bool" where
  "tasks_ok base w i st \<longleftrightarrow> (\<forall>l.
     count_list (queueOf w l) (Establish i) = (if st = Starting \<and> l = loopAt w i then 1 else 0) \<and>
     count_list (queueOf w l) (Remove i) = (if st = Leaving \<and> l = base then 1 else 0) \<and>
     count_list (queueOf w l) (Destroy i) = (if st = Removed \<and> l = loopAt w i then 1 else 0))"

fun object_ok :: "stage \<Rightarrow> nat \<Rightarrow> int \<Rightarrow> effect list \<Rightarrow> conn \<Rightarrow> interest poller \<Rightarrow> bool" where
  "object_ok Starting i f effs c p \<longleftrightarrow> c = tcp_callbacks (conn_new i f) \<and> kernel p f = None \<and> effs = []"
| "object_ok Open i f effs c p \<longleftrightarrow> open_conn c p \<and> cid (chan c) = i \<and> cstate c = shut kConnected effs"
| "object_ok Gone i f effs c p \<longleftrightarrow> True"
| "object_ok _ i f effs c p \<longleftrightarrow> closed_conn c p"

definition life :: "world \<Rightarrow> (nat \<Rightarrow> string) \<Rightarrow> (nat \<times> effect) list \<Rightarrow> nat \<Rightarrow> stage \<Rightarrow> bool" where
  "life w rests out i st \<longleftrightarrow>
     fd (chan (objectOf w i)) = sockfd (everMade w ! i) \<and> (i \<in> gone w \<longleftrightarrow> st = Gone) \<and> cbLog w i = calledBack st \<and>
     object_ok st i (sockfd (everMade w ! i)) (ofConn i out) (objectOf w i) (epollOf w (loopAt w i)) \<and>
     content (inputBuffer (objectOf w i)) = rests i \<and>
     (i \<notin> broken w \<longrightarrow> wire w i @ content (outputBuffer (objectOf w i)) =
        (if st = Starting then [] else welcomeText @ promised kConnected (ofConn i out)))"

text \<open>A number that no connection has yet.\<close>

definition unused :: "world \<Rightarrow> (nat \<Rightarrow> string) \<Rightarrow> (nat \<times> effect) list \<Rightarrow> nat \<Rightarrow> bool" where
  "unused w rests out i \<longleftrightarrow> rests i = [] \<and> ofConn i out = [] \<and> wire w i = [] \<and> cbLog w i = [] \<and> i \<notin> gone w \<and>
     (\<forall>l. Establish i \<notin> set (queueOf w l) \<and> Remove i \<notin> set (queueOf w l) \<and> Destroy i \<notin> set (queueOf w l))"

definition inMap :: "world \<Rightarrow> (nat \<Rightarrow> stage) \<Rightarrow> nat set" where
  "inMap w stg = {i. i < length (everMade w) \<and> stg i \<in> {Starting, Open, Leaving}}"

definition fds_ok :: "int set \<Rightarrow> world \<Rightarrow> (nat \<Rightarrow> stage) \<Rightarrow> bool" where
  "fds_ok own w stg \<longleftrightarrow>
     (\<forall>i j. i < length (everMade w) \<longrightarrow> j < length (everMade w) \<longrightarrow> i \<noteq> j \<longrightarrow> stg i \<noteq> Gone \<longrightarrow> stg j \<noteq> Gone \<longrightarrow>
        sockfd (everMade w ! i) \<noteq> sockfd (everMade w ! j)) \<and>
     (\<forall>i < length (everMade w). stg i \<noteq> Gone \<longrightarrow> sockfd (everMade w ! i) \<notin> own)"

definition kernel_ok :: "int set \<Rightarrow> world \<Rightarrow> (nat \<Rightarrow> stage) \<Rightarrow> bool" where
  "kernel_ok own w stg \<longleftrightarrow> (\<forall>l g. kernel (epollOf w l) g \<noteq> None \<longrightarrow> g \<in> own \<or>
     (\<exists>i < length (everMade w). stg i = Open \<and> loopAt w i = l \<and> sockfd (everMade w ! i) = g))"

text \<open>The tasks underway are those of the stages \<open>tk\<close>, which differ from \<open>stg\<close> only while a step is being performed.\<close>

definition world_inv :: "int set \<Rightarrow> (nat \<times> inet_address \<times> string \<times> int \<times> (nat \<Rightarrow> nat)) \<Rightarrow> kvmap \<Rightarrow>
    (nat \<Rightarrow> stage) \<Rightarrow> (nat \<Rightarrow> stage) \<Rightarrow> (nat \<Rightarrow> string) \<Rightarrow> (nat \<times> effect) list \<Rightarrow> world \<Rightarrow> bool" where
  "world_inv own cfg m0 stg tk rests out w \<longleftrightarrow> (case cfg of (base, addr, nm, n, mk) \<Rightarrow>
     srv_inv base addr nm n mk (tcpOf w, everMade w) \<and> baseOf (tcpOf w) = base \<and>
     tracked (inMap w stg) (tcpOf w, everMade w) \<and>
     (\<forall>i < length (everMade w). life w rests out i (stg i) \<and> tasks_ok base w i (tk i)) \<and>
     (\<forall>i \<ge> length (everMade w). unused w rests out i) \<and>
     fds_ok own w stg \<and> kernel_ok own w stg \<and> kv_inv (storeOf w) \<and>
     spec_log (segLog w) (\<lambda>i. []) m0 = (rests, kv_map (storeOf w), out))"

subsection \<open>Steps on one connection\<close>

definition touches :: "nat \<Rightarrow> world \<Rightarrow> world \<Rightarrow> bool" where
  "touches i w w' \<longleftrightarrow> everMade w' = everMade w \<and> baseOf (tcpOf w') = baseOf (tcpOf w) \<and>
     (\<forall>j. j \<noteq> i \<longrightarrow> objectOf w' j = objectOf w j \<and> cbLog w' j = cbLog w j \<and> wire w' j = wire w j \<and>
        (j \<in> gone w' \<longleftrightarrow> j \<in> gone w) \<and> (j \<in> broken w' \<longleftrightarrow> j \<in> broken w) \<and>
        (\<forall>l. \<forall>t \<in> {Establish j, Remove j, Destroy j}. count_list (queueOf w' l) t = count_list (queueOf w l) t)) \<and>
     (\<forall>l. l \<noteq> loopAt w i \<longrightarrow> epollOf w' l = epollOf w l) \<and>
     (\<forall>g. g \<noteq> sockfd (everMade w ! i) \<longrightarrow> kernel (epollOf w' (loopAt w i)) g = kernel (epollOf w (loopAt w i)) g \<and>
        channels (epollOf w' (loopAt w i)) g = channels (epollOf w (loopAt w i)) g)"

lemma touches_loopAt: "touches i w w' \<Longrightarrow> loopAt w' = loopAt w"
  by (rule ext) (simp add: touches_def loopAt_def)

lemma touches_trans: "touches i w w1 \<Longrightarrow> touches i w1 w2 \<Longrightarrow> touches i w w2"
  using touches_loopAt [of i w w1] by (simp add: touches_def)

lemma wellConn_cong: "kernel p' (fd (chan c)) = kernel p (fd (chan c)) \<Longrightarrow> channels p' (fd (chan c)) = channels p (fd (chan c)) \<Longrightarrow>
    wellConn c p \<Longrightarrow> wellConn c p'"
  by (simp add: conn_ok_def chan_ok_def hasChannel_def split: if_splits)

lemma object_ok_cong:
  assumes "kernel p' f = kernel p f" "channels p' f = channels p f" "fd (chan c) = f" "object_ok st i f effs c p"
  shows "object_ok st i f effs c p'"
  using assms wellConn_cong [of p' c p] by (cases st) (auto simp: open_conn_def closed_conn_def)

text \<open>The lives of the others go on.\<close>

lemma life_touches:
  assumes t: "touches i w w'" and l: "life w rests out j st" and n: "j \<noteq> i"
    and f: "st \<noteq> Gone \<Longrightarrow> sockfd (everMade w ! j) \<noteq> sockfd (everMade w ! i)"
    and r: "rests' j = rests j" "ofConn j out' = ofConn j out"
  shows "life w' rests' out' j st"
proof -
  let ?f = "sockfd (everMade w ! j)" and ?p = "epollOf w (loopAt w j)" and ?p' = "epollOf w' (loopAt w j)"
  have same: "everMade w' = everMade w" "objectOf w' j = objectOf w j" "cbLog w' j = cbLog w j" "wire w' j = wire w j"
    "j \<in> gone w' \<longleftrightarrow> j \<in> gone w" "j \<in> broken w' \<longleftrightarrow> j \<in> broken w" "loopAt w' j = loopAt w j"
    using t n touches_loopAt [OF t] by (auto simp: touches_def)
  have "object_ok st j ?f (ofConn j out) (objectOf w j) ?p'"
  proof (cases "st = Gone")
    case False
    then have "kernel ?p' ?f = kernel ?p ?f" "channels ?p' ?f = channels ?p ?f"
      using t f by (cases "loopAt w j = loopAt w i"; simp add: touches_def)+
    with l show ?thesis by (intro object_ok_cong [of ?p' ?f ?p]) (simp_all add: life_def)
  qed simp
  with l show ?thesis by (simp add: life_def same r)
qed

lemma tasks_touches: "touches i w w' \<Longrightarrow> j \<noteq> i \<Longrightarrow> tasks_ok base w j st \<Longrightarrow> tasks_ok base w' j st"
  using touches_loopAt [of i w w'] by (simp add: touches_def tasks_ok_def)

lemma unused_touches:
  assumes "touches i w w'" "j \<noteq> i" "unused w rests out j" "rests' j = rests j" "ofConn j out' = ofConn j out"
  shows "unused w' rests' out' j"
  using assms by (auto simp: touches_def unused_def count_list_0_iff)

text \<open>A step on connection \<open>i\<close> keeps the invariant when it keeps its part for \<open>i\<close>.\<close>

lemma world_inv_touches:
  assumes inv: "world_inv own (base, addr, nm, n, mk) m0 stg tk rests out w" and i: "i < length (everMade w)"
    and t: "touches i w w'"
    and s: "srv_inv base addr nm n mk (tcpOf w', everMade w)" "tracked (inMap w (stg(i := st))) (tcpOf w', everMade w)"
    and l: "life w' rests' out' i st" "tasks_ok base w' i st'"
    and r: "\<And>j. j \<noteq> i \<Longrightarrow> rests' j = rests j \<and> ofConn j out' = ofConn j out"
    and f: "stg i \<noteq> Gone"
    and k: "st \<noteq> Open \<Longrightarrow> kernel (epollOf w' (loopAt w i)) (sockfd (everMade w ! i)) = None"
    and sp: "kv_inv (storeOf w')" "spec_log (segLog w') (\<lambda>i. []) m0 = (rests', kv_map (storeOf w'), out')"
  shows "world_inv own (base, addr, nm, n, mk) m0 (stg(i := st)) (tk(i := st')) rests' out' w'"
proof -
  have ev: "everMade w' = everMade w" "baseOf (tcpOf w') = baseOf (tcpOf w)" "loopAt w' = loopAt w"
    using t touches_loopAt [OF t] by (auto simp: touches_def)
  have old: "baseOf (tcpOf w) = base" "\<And>j. j < length (everMade w) \<Longrightarrow> life w rests out j (stg j) \<and> tasks_ok base w j (tk j)"
    "\<And>j. length (everMade w) \<le> j \<Longrightarrow> unused w rests out j" "fds_ok own w stg" "kernel_ok own w stg"
    using inv by (auto simp: world_inv_def)
  have "life w' rests' out' j ((stg(i := st)) j) \<and> tasks_ok base w' j ((tk(i := st')) j)" if j: "j < length (everMade w)" for j
  proof (cases "j = i")
    case True
    with l show ?thesis by simp
  next
    case False
    have "life w' rests' out' j (stg j)"
      by (rule life_touches [OF t conjunct1 [OF old(2) [OF j]] False]) (use old(4) i j False f r in \<open>auto simp: fds_ok_def\<close>)
    with tasks_touches [OF t False] old(2) [OF j] False show ?thesis by simp
  qed
  moreover have "unused w' rests' out' j" if "length (everMade w) \<le> j" for j
    by (rule unused_touches [OF t _ old(3) [OF that]]) (use that i r in auto)
  moreover have "inMap w' (stg(i := st)) = inMap w (stg(i := st))" by (simp add: inMap_def ev)
  moreover have "fds_ok own w' (stg(i := st))" using old(4) i f by (auto simp: fds_ok_def ev)
  moreover have "kernel_ok own w' (stg(i := st))"
    unfolding kernel_ok_def ev
  proof (intro allI impI)
    fix l g assume k1: "kernel (epollOf w' l) g \<noteq> None"
    show "g \<in> own \<or> (\<exists>j < length (everMade w). (stg(i := st)) j = Open \<and> loopAt w j = l \<and> sockfd (everMade w ! j) = g)"
    proof (cases "l = loopAt w i \<and> g = sockfd (everMade w ! i)")
      case True
      with k k1 have "st = Open" by metis
      with True i show ?thesis by (intro disjI2 exI [of _ i]) simp
    next
      case False
      then have "kernel (epollOf w l) g \<noteq> None" using k1 t by (cases "l = loopAt w i") (auto simp: touches_def)
      then consider "g \<in> own" | j where "j < length (everMade w)" "stg j = Open" "loopAt w j = l" "sockfd (everMade w ! j) = g"
        using old(5) unfolding kernel_ok_def by blast
      then show ?thesis using False by cases auto
    qed
  qed
  ultimately show ?thesis using s sp old(1) by (simp add: world_inv_def ev)
qed

end
