(* ===== verification/Live_Server_Correct.thy ===== *)
theory Live_Server_Correct
  imports Live_Server_Inv
begin

text \<open>
  Every step of the running server keeps the invariant: establishing, handling an event, closing, removing, destroying, and
  the arrival of a client; and the properties of the whole server.
\<close>

subsection \<open>What each part of a step touches\<close>

lemma touches_put_conn: "keeps (objectOf w i) (epollOf w (loopAt w i)) c p \<Longrightarrow> fd (chan (objectOf w i)) = sockfd (everMade w ! i) \<Longrightarrow>
    touches i w (put_conn i c p es w)"
  by (auto simp: touches_def put_conn_def keeps_def)

lemma touches_breaks [simp]: "touches i w (breaks i ws w') = touches i w w'"
  by (simp add: touches_def breaks_def)

lemma touches_updates [simp]:
  "touches i w (w'\<lparr>storeOf := st\<rparr>) = touches i w w'" "touches i w (w'\<lparr>segLog := sg\<rparr>) = touches i w w'"
  "touches i w (w'\<lparr>storeOf := st, segLog := sg\<rparr>) = touches i w w'"
  "touches i w (w'\<lparr>gone := insert i (gone w')\<rparr>) = touches i w w'"
  "baseOf s = baseOf (tcpOf w') \<Longrightarrow> touches i w (w'\<lparr>tcpOf := s\<rparr>) = touches i w w'"
  by (auto simp: touches_def)

lemma touches_enqueue: "set ts \<subseteq> {Establish i, Remove i, Destroy i} \<Longrightarrow> touches i w (enqueue l ts w)"
  by (auto simp: touches_def enqueue_def count_list_0_iff)

lemma touches_refl [simp]: "touches i w w" by (simp add: touches_def)

lemma put_conn_simps [simp]:
  "everMade (put_conn i c p es w) = everMade w" "tcpOf (put_conn i c p es w) = tcpOf w" "queueOf (put_conn i c p es w) = queueOf w"
  "storeOf (put_conn i c p es w) = storeOf w" "segLog (put_conn i c p es w) = segLog w" "gone (put_conn i c p es w) = gone w"
  "objectOf (put_conn i c p es w) i = c" "epollOf (put_conn i c p es w) (loopAt w i) = p"
  "cbLog (put_conn i c p es w) i = cbLog w i @ callbacks es" "wire (put_conn i c p es w) i = wire w i @ wrote es"
  "broken (put_conn i c p es w) = broken w" "loopAt (put_conn i c p es w) = loopAt w"
  by (simp_all add: put_conn_def loopAt_def fun_eq_iff)

lemma breaks_simps [simp]:
  "everMade (breaks i ws w) = everMade w" "tcpOf (breaks i ws w) = tcpOf w" "queueOf (breaks i ws w) = queueOf w"
  "storeOf (breaks i ws w) = storeOf w" "segLog (breaks i ws w) = segLog w" "gone (breaks i ws w) = gone w"
  "objectOf (breaks i ws w) = objectOf w" "epollOf (breaks i ws w) = epollOf w" "cbLog (breaks i ws w) = cbLog w"
  "wire (breaks i ws w) = wire w" "i \<notin> broken (breaks i ws w) \<longleftrightarrow> i \<notin> broken w \<and> (\<forall>n. peerAlive (EvSend [] (ws n)))"
  "loopAt (breaks i ws w) = loopAt w"
  by (auto simp: breaks_def loopAt_def fun_eq_iff)

lemma loopAt_updates [simp]: "loopAt (w\<lparr>storeOf := st\<rparr>) = loopAt w" "loopAt (w\<lparr>segLog := sg\<rparr>) = loopAt w"
  "loopAt (w\<lparr>gone := gn\<rparr>) = loopAt w" "loopAt (w\<lparr>tcpOf := s\<rparr>) = loopAt w" "loopAt (w\<lparr>queueOf := q\<rparr>) = loopAt w"
  "loopAt (enqueue l ts w) = loopAt w" "loopAt (w\<lparr>storeOf := st, segLog := sg\<rparr>) = loopAt w"
  by (simp_all add: loopAt_def enqueue_def fun_eq_iff)

lemma callbacks_append [simp]: "callbacks (es1 @ es2) = callbacks es1 @ callbacks es2"
  by (induction es1 rule: callbacks.induct) simp_all

lemma tasks_ok_queue: "queueOf w' = queueOf w \<Longrightarrow> loopAt w' = loopAt w \<Longrightarrow> tasks_ok base w' i st = tasks_ok base w i st"
  by (simp add: tasks_ok_def)

text \<open>What the invariant says of one connection.\<close>

lemma world_invD:
  assumes "world_inv own (base, addr, nm, n, mk) m0 stg tk rests out w" "i < length (everMade w)"
  shows "life w rests out i (stg i)" "tasks_ok base w i (tk i)" "srv_inv base addr nm n mk (tcpOf w, everMade w)"
    "tracked (inMap w stg) (tcpOf w, everMade w)" "kv_inv (storeOf w)"
    "spec_log (segLog w) (\<lambda>i. []) m0 = (rests, kv_map (storeOf w), out)" "baseOf (tcpOf w) = base"
    "fd (chan (objectOf w i)) = sockfd (everMade w ! i)"
  using assms by (auto simp: world_inv_def life_def)

lemma inMap_same: "(stg i \<in> {Starting, Open, Leaving}) = (st \<in> {Starting, Open, Leaving}) \<Longrightarrow> inMap w (stg(i := st)) = inMap w stg"
  by (auto simp: inMap_def)

subsection \<open>Establishing\<close>

lemma task_establish_ok:
  assumes inv: "world_inv own (base, addr, nm, n, mk) m0 stg tk rests out w" and i: "i < length (everMade w)" "stg i = Starting"
  shows "\<exists>w'. task_establish ws i w = Some w' \<and> everMade w' = everMade w \<and>
    world_inv own (base, addr, nm, n, mk) m0 (stg(i := Open)) tk rests out w'"
proof -
  note D = world_invD [OF inv i(1)]
  let ?f = "sockfd (everMade w ! i)" and ?o = "objectOf w i" and ?p = "epollOf w (loopAt w i)"
  have o: "?o = tcp_callbacks (conn_new i ?f)" "kernel ?p ?f = None" "ofConn i out = []" "i \<notin> gone w" "cbLog w i = []"
    "i \<notin> broken w \<Longrightarrow> wire w i = []" "content (inputBuffer ?o) = rests i"
    using D(1) i(2) by (auto simp: life_def)
  obtain c1 p1 c2 p2 es where e: "connectEstablished interest_ctl ?o ?p = Some (c1, p1, [ConnectionCallback True])"
    "conn_run interest_ctl (effect_events ws (onConnection True)) c1 p1 = Some (c2, p2, es)" "open_conn c2 p2" "cstate c2 = kConnected"
    "content (inputBuffer c2) = []" "callbacks es = []" "keeps ?o ?p c2 p2"
    "(\<forall>n. peerAlive (EvSend [] (ws n))) \<longrightarrow> wrote es @ content (outputBuffer c2) = welcomeText"
    using establishes [OF o(2,1), of ws] by blast
  let ?es = "[ConnectionCallback True] @ es"
  let ?w = "breaks i ws (put_conn i c2 p2 ?es w)"
  have t: "touches i w ?w" using touches_put_conn [OF e(7) D(8)] by simp
  have "content (inputBuffer ?o) = []" by (simp add: o(1) tcp_callbacks_def conn_new_def)
  moreover have "cid (chan c2) = i" "fd (chan c2) = ?f"
    using e(7) D(8) by (simp_all add: keeps_def o(1) tcp_callbacks_def conn_new_def setCallbacks_def channel_new_def)
  ultimately have "life ?w rests out i Open" using o e by (simp add: life_def)
  moreover have "tasks_ok base ?w i (tk i)" using D(2) by (simp add: tasks_ok_def)
  ultimately have "world_inv own (base, addr, nm, n, mk) m0 (stg(i := Open)) (tk(i := tk i)) rests out ?w"
    using D(3-6) i inMap_same [of stg i Open w] by (intro world_inv_touches [OF inv i(1) t]) simp_all
  with e(1,2) show ?thesis by (simp add: task_establish_def)
qed

subsection \<open>Events\<close>

lemma event_stays_ok:
  assumes inv: "world_inv own (base, addr, nm, n, mk) m0 stg tk rests out w" and i: "i < length (everMade w)" "stg i = Open"
    and e: "\<not> closes e"
  shows "\<exists>w' rests' out'. world_event i e w = Some w' \<and> everMade w' = everMade w \<and>
    world_inv own (base, addr, nm, n, mk) m0 stg tk rests' out' w'"
proof -
  note D = world_invD [OF inv i(1)]
  let ?f = "sockfd (everMade w ! i)" and ?o = "objectOf w i" and ?p = "epollOf w (loopAt w i)"
  have o: "open_conn ?o ?p" "cid (chan ?o) = i" "cstate ?o = shut kConnected (ofConn i out)" "i \<notin> gone w" "cbLog w i = [True]"
    "content (inputBuffer ?o) = rests i"
    "i \<notin> broken w \<Longrightarrow> wire w i @ content (outputBuffer ?o) = welcomeText @ promised kConnected (ofConn i out)"
    using D(1) i(2) by (auto simp: life_def)
  obtain c p st es effs where h: "world_service e (?o, ?p, storeOf w) = Some (c, p, st, es)" "open_conn c p" "kv_inv st"
    "seg_serve (segment_of e ?o) (content (inputBuffer ?o)) (kv_map (storeOf w)) = (content (inputBuffer c), kv_map st, effs)"
    "callbacks es = []" "CloseCallback \<notin> set es" "cstate c = shut (cstate ?o) effs"
    "(\<forall>n. peerAlive (EvSend [] (writes_of e n))) \<longrightarrow> wrote es @ content (outputBuffer c) = content (outputBuffer ?o) @ promised (cstate ?o) effs"
    using handler_stays [OF o(1) e D(5)] by blast
  have k: "keeps ?o ?p c p" by (rule world_service_keeps [OF h(1)])
  let ?sg = "segLog w @ map (Pair i) (segment_of e ?o)"
  let ?w = "breaks i (writes_of e) ((put_conn i c p es w)\<lparr>storeOf := st, segLog := ?sg\<rparr>)"
  let ?rests = "rests(i := content (inputBuffer c))" and ?out = "out @ map (Pair i) effs"
  have t: "touches i w ?w" using touches_put_conn [OF k D(8)] by simp
  have "seg_serve (segment_of e ?o) (rests i) (kv_map (storeOf w)) = (content (inputBuffer c), kv_map st, effs)" using h(4) o(6) by simp
  from spec_log_segment [OF D(6) this segment_length] have
    sp: "spec_log ?sg (\<lambda>i. []) m0 = (?rests, kv_map st, ?out)" .
  have "wire w i @ wrote es @ content (outputBuffer c) = welcomeText @ promised kConnected (ofConn i out @ effs)"
    if "i \<notin> broken w" "\<forall>n. peerAlive (EvSend [] (writes_of e n))"
    using that h(8) o(3) o(7) by (simp add: promised_append)
  moreover have "cid (chan c) = i" "fd (chan c) = ?f" using k D(8) o(2) by (simp_all add: keeps_def)
  ultimately have "life ?w ?rests ?out i Open" using o h(2,5,7) by (simp add: life_def shut_append)
  moreover have "tasks_ok base ?w i (tk i)" using D(2) by (simp add: tasks_ok_def)
  ultimately have "world_inv own (base, addr, nm, n, mk) m0 (stg(i := Open)) (tk(i := tk i)) ?rests ?out ?w"
    using D(3-5) i h(3) sp inMap_same [of stg i Open w] by (intro world_inv_touches [OF inv i(1) t]) simp_all
  moreover have "stg(i := Open) = stg" using i(2) by auto
  ultimately have "world_inv own (base, addr, nm, n, mk) m0 stg tk ?rests ?out ?w" by simp
  moreover have "world_event i e w = Some ?w" using h(1,6) by (simp add: world_event_def)
  ultimately show ?thesis by force
qed

subsection \<open>Handing tasks to a loop\<close>

lemma enqueue_count: "count_list (queueOf (enqueue l [t] w) l') u = count_list (queueOf w l') u + (if l' = l \<and> u = t then 1 else 0)"
  by (simp add: enqueue_def)

lemma enqueue_simps [simp]: "everMade (enqueue l ts w) = everMade w" "tcpOf (enqueue l ts w) = tcpOf w" "epollOf (enqueue l ts w) = epollOf w"
  "storeOf (enqueue l ts w) = storeOf w" "segLog (enqueue l ts w) = segLog w"
  by (simp_all add: enqueue_def)

lemma life_queue: "life (w\<lparr>queueOf := q\<rparr>) rests out i st = life w rests out i st"
  by (simp add: life_def)

lemma life_enqueue [simp]: "life (enqueue l ts w) rests out i st = life w rests out i st"
  by (simp add: enqueue_def life_queue)

fun waitsFor :: "stage \<Rightarrow> nat \<Rightarrow> task" where
  "waitsFor Starting i = Establish i"
| "waitsFor Leaving i = Remove i"
| "waitsFor _ i = Destroy i"

definition waitsAt :: "nat \<Rightarrow> world \<Rightarrow> stage \<Rightarrow> nat \<Rightarrow> nat" where
  "waitsAt base w st i = (if st = Leaving then base else loopAt w i)"

lemma enqueue_ok:
  assumes inv: "world_inv own (base, addr, nm, n, mk) m0 stg tk rests out w" and i: "i < length (everMade w)"
    and t: "tk i = Open" "st \<in> {Starting, Leaving, Removed}" "stg i \<noteq> Gone"
  shows "world_inv own (base, addr, nm, n, mk) m0 stg (tk(i := st)) rests out (enqueue (waitsAt base w st i) [waitsFor st i] w)"
proof -
  note D = world_invD [OF inv i]
  let ?w = "enqueue (waitsAt base w st i) [waitsFor st i] w"
  have tch: "touches i w ?w" by (rule touches_enqueue) (cases st; simp)
  have "tasks_ok base ?w i st"
    using D(2) t(1,2) by (auto simp: tasks_ok_def enqueue_count waitsAt_def)
  moreover have "stg i \<noteq> Open \<Longrightarrow> kernel (epollOf w (loopAt w i)) (sockfd (everMade w ! i)) = None"
    using D(1,8) t(3) by (cases "stg i") (auto simp: life_def closed_conn_def conn_ok_def chan_ok_def split: if_splits)
  ultimately have "world_inv own (base, addr, nm, n, mk) m0 (stg(i := stg i)) (tk(i := st)) rests out ?w"
    using D(1,3-6) t(3) by (intro world_inv_touches [OF inv i tch]) simp_all
  then show ?thesis by simp
qed

lemma tasks_in_queue:
  assumes "tasks_ok base w i st" "t \<in> {Establish i, Remove i, Destroy i}" "t \<in> set (queueOf w l)"
  shows "st \<in> {Starting, Leaving, Removed} \<and> t = waitsFor st i \<and> l = waitsAt base w st i \<and> count_list (queueOf w l) t = 1"
proof -
  have c: "count_list (queueOf w l) t \<noteq> 0" using assms(3) by (simp add: count_list_0_iff)
  have k: "count_list (queueOf w l) (Establish i) = (if st = Starting \<and> l = loopAt w i then 1 else 0)"
    "count_list (queueOf w l) (Remove i) = (if st = Leaving \<and> l = base then 1 else 0)"
    "count_list (queueOf w l) (Destroy i) = (if st = Removed \<and> l = loopAt w i then 1 else 0)"
    using assms(1) by (simp_all add: tasks_ok_def)
  from assms(2) consider "t = Establish i" | "t = Remove i" | "t = Destroy i" by blast
  then show ?thesis by cases (use c k in \<open>simp_all add: waitsAt_def split: if_splits\<close>)
qed

text \<open>The head of a queue is the task of the stage of its connection, and taking it leaves no task for that connection.\<close>

lemma pop_ok:
  assumes inv: "world_inv own (base, addr, nm, n, mk) m0 stg stg rests out w" and q: "queueOf w l = t # ts"
  obtains i where "i < length (everMade w)" "stg i \<in> {Starting, Leaving, Removed}" "t = waitsFor (stg i) i"
    "world_inv own (base, addr, nm, n, mk) m0 stg (stg(i := Open)) rests out (w\<lparr>queueOf := (queueOf w)(l := ts)\<rparr>)"
proof -
  let ?w = "w\<lparr>queueOf := (queueOf w)(l := ts)\<rparr>"
  obtain i where t: "t \<in> {Establish i, Remove i, Destroy i}" by (cases t) auto
  have tin: "t \<in> set (queueOf w l)" by (simp add: q)
  have i: "i < length (everMade w)"
  proof (rule ccontr)
    assume "\<not> i < length (everMade w)"
    then have "unused w rests out i" using inv by (simp add: world_inv_def)
    with t tin show False by (auto simp: unused_def)
  qed
  note D = world_invD [OF inv i]
  have s: "stg i \<in> {Starting, Leaving, Removed}" "t = waitsFor (stg i) i" "l = waitsAt base w (stg i) i"
    "count_list (queueOf w l) t = 1" using tasks_in_queue [OF D(2) t tin] by blast+
  have cnt: "count_list (queueOf ?w l') u = count_list (queueOf w l') u - (if l' = l \<and> u = t then 1 else 0)" for l' u
    by (simp add: q)
  have "tasks_ok base ?w i Open"
    unfolding tasks_ok_def loopAt_updates cnt using D(2) s by (auto simp: tasks_ok_def waitsAt_def)
  moreover have tch: "touches i w ?w"
    using t by (auto simp: touches_def q)
  moreover have "stg i \<noteq> Open \<Longrightarrow> kernel (epollOf w (loopAt w i)) (sockfd (everMade w ! i)) = None"
    using D(1,8) s(1) by (cases "stg i") (auto simp: life_def closed_conn_def conn_ok_def chan_ok_def split: if_splits)
  ultimately have "world_inv own (base, addr, nm, n, mk) m0 (stg(i := stg i)) (stg(i := Open)) rests out ?w"
    using D(1,3-6) s(1) by (intro world_inv_touches [OF inv i tch]) (auto simp: life_queue)
  then have "world_inv own (base, addr, nm, n, mk) m0 stg (stg(i := Open)) rests out ?w" by simp
  with that [OF i s(1,2)] show thesis .
qed

subsection \<open>Leaving\<close>

lemma closed_kernel: "closed_conn c p \<Longrightarrow> kernel p (fd (chan c)) = None"
  by (auto simp: closed_conn_def conn_ok_def chan_ok_def split: if_splits)

lemma event_closes_ok:
  assumes inv: "world_inv own (base, addr, nm, n, mk) m0 stg tk rests out w" and i: "i < length (everMade w)" "stg i = Open"
    and e: "closes e"
  shows "\<exists>c p w1. world_service e (objectOf w i, epollOf w (loopAt w i), storeOf w) = Some (c, p, storeOf w, [ConnectionCallback False, CloseCallback]) \<and>
    w1 = breaks i (writes_of e) ((put_conn i c p [ConnectionCallback False, CloseCallback] w)\<lparr>storeOf := storeOf w,
      segLog := segLog w @ map (Pair i) (segment_of e (objectOf w i))\<rparr>) \<and> everMade w1 = everMade w \<and> tcpOf w1 = tcpOf w \<and> loopAt w1 = loopAt w \<and>
    world_inv own (base, addr, nm, n, mk) m0 (stg(i := Leaving)) tk rests out w1"
proof -
  note D = world_invD [OF inv i(1)]
  let ?f = "sockfd (everMade w ! i)" and ?o = "objectOf w i" and ?p = "epollOf w (loopAt w i)" and ?es = "[ConnectionCallback False, CloseCallback]"
  have o: "open_conn ?o ?p" "i \<notin> gone w" "cbLog w i = [True]" "content (inputBuffer ?o) = rests i"
    "i \<notin> broken w \<Longrightarrow> wire w i @ content (outputBuffer ?o) = welcomeText @ promised kConnected (ofConn i out)"
    using D(1) i(2) by (auto simp: life_def)
  obtain c p where h: "world_service e (?o, ?p, storeOf w) = Some (c, p, storeOf w, ?es)" "closed_conn c p"
    "content (inputBuffer c) = content (inputBuffer ?o)" "outputBuffer c = outputBuffer ?o" "segment_of e ?o = []"
    using handler_closes [OF o(1) e] by blast
  have k: "keeps ?o ?p c p" by (rule world_service_keeps [OF h(1)])
  have f: "fd (chan c) = ?f" using k D(8) by (simp add: keeps_def)
  let ?w = "breaks i (writes_of e) ((put_conn i c p ?es w)\<lparr>storeOf := storeOf w, segLog := segLog w @ map (Pair i) (segment_of e ?o)\<rparr>)"
  have t: "touches i w ?w" using touches_put_conn [OF k D(8)] by simp
  have "life ?w rests out i Leaving" using o h(2-4) f by (simp add: life_def)
  moreover have "tasks_ok base ?w i (tk i)" using D(2) by (simp add: tasks_ok_def)
  ultimately have "world_inv own (base, addr, nm, n, mk) m0 (stg(i := Leaving)) (tk(i := tk i)) rests out ?w"
    using D(3-6) i h(5) closed_kernel [OF h(2)] f inMap_same [of stg i Leaving w]
    by (intro world_inv_touches [OF inv i(1) t]) simp_all
  with h(1) show ?thesis by auto
qed

lemma task_remove_ok:
  assumes inv: "world_inv own (base, addr, nm, n, mk) m0 stg tk rests out w" and i: "i < length (everMade w)" "stg i = Leaving" "tk i = Open"
    and b: "length (everMade w) < 2 ^ 31"
  shows "everMade (task_remove i w) = everMade w \<and>
    world_inv own (base, addr, nm, n, mk) m0 (stg(i := Removed)) (tk(i := Removed)) rests out (task_remove i w)"
proof -
  note D = world_invD [OF inv i(1)]
  let ?s = "fst (removeConnectionInLoop (everMade w ! i) (tcpOf w))"
  have w': "task_remove i w = enqueue (loopAt w i) [Destroy i] (w\<lparr>tcpOf := ?s\<rparr>)"
    by (simp add: task_remove_def removeConnectionInLoop_def loopAt_def)
  have bs: "baseOf ?s = baseOf (tcpOf w)" by (simp add: removeConnectionInLoop_def)
  have step: "server_step (Closes i) (tcpOf w, everMade w) = (?s, everMade w)" using i(1) by simp
  have srv: "srv_inv base addr nm n mk (?s, everMade w)" using srv_inv_closes [OF D(3), of i] by (simp only: step)
  have "inMap w (stg(i := Removed)) = inMap w stg - {i}" by (auto simp: inMap_def)
  then have trk: "tracked (inMap w (stg(i := Removed))) (?s, everMade w)" using tracked_closes [OF D(3,4) b, of i] by (simp only: step)
  have o: "closed_conn (objectOf w i) (epollOf w (loopAt w i))" using D(1) i(2) by (simp add: life_def)
  have k: "kernel (epollOf w (loopAt w i)) (sockfd (everMade w ! i)) = None" using closed_kernel [OF o] D(8) by simp
  have t1: "touches i w (w\<lparr>tcpOf := ?s\<rparr>)" by (simp add: bs)
  have "touches i (w\<lparr>tcpOf := ?s\<rparr>) (task_remove i w)" unfolding w' by (rule touches_enqueue) simp
  then have t: "touches i w (task_remove i w)" by (rule touches_trans [OF t1])
  have "life (task_remove i w) rests out i Removed"
    unfolding w' life_enqueue using D(1) i(2) by (simp add: life_def)
  moreover have "tasks_ok base (task_remove i w) i Removed"
    using D(2) i(3) by (auto simp: w' tasks_ok_def enqueue_count)
  ultimately have "world_inv own (base, addr, nm, n, mk) m0 (stg(i := Removed)) (tk(i := Removed)) rests out (task_remove i w)"
    using D(5,6) i srv trk k by (intro world_inv_touches [OF inv i(1) t]) (simp_all add: w')
  then show ?thesis by (simp add: w')
qed

lemma task_destroy_ok:
  assumes inv: "world_inv own (base, addr, nm, n, mk) m0 stg tk rests out w" and i: "i < length (everMade w)" "stg i = Removed" "tk i = Open"
  shows "\<exists>w'. task_destroy i w = Some w' \<and> everMade w' = everMade w \<and>
    world_inv own (base, addr, nm, n, mk) m0 (stg(i := Gone)) (tk(i := Gone)) rests out w'"
proof -
  note D = world_invD [OF inv i(1)]
  let ?f = "sockfd (everMade w ! i)" and ?o = "objectOf w i" and ?p = "epollOf w (loopAt w i)"
  have o: "closed_conn ?o ?p" "cbLog w i = [True, False]" "content (inputBuffer ?o) = rests i"
    "i \<notin> broken w \<Longrightarrow> wire w i @ content (outputBuffer ?o) = welcomeText @ promised kConnected (ofConn i out)"
    using D(1) i(2) by (auto simp: life_def)
  obtain c p where d: "connectDestroyed interest_ctl ?o ?p = Some (c, p, [])" "keeps ?o ?p c p" "kernel p (fd (chan ?o)) = None"
    "inputBuffer c = inputBuffer ?o" "outputBuffer c = outputBuffer ?o" using destroys [OF o(1)] by blast
  let ?w = "(put_conn i c p [] w)\<lparr>gone := insert i (gone w)\<rparr>"
  have t: "touches i w ?w" using touches_put_conn [OF d(2) D(8), of "[]"] by (simp add: put_conn_def touches_def)
  have "life ?w rests out i Gone" using o d D(8) by (simp add: life_def keeps_def)
  moreover have "tasks_ok base ?w i Gone" using D(2) i(3) by (simp add: tasks_ok_def)
  moreover have "inMap w (stg(i := Gone)) = inMap w stg" using i(2) by (auto simp: inMap_def)
  ultimately have "world_inv own (base, addr, nm, n, mk) m0 (stg(i := Gone)) (tk(i := Gone)) rests out ?w"
    using D(3-6,8) i d(3) by (intro world_inv_touches [OF inv i(1) t]) simp_all
  with d(1) show ?thesis by (simp add: task_destroy_def)
qed

subsection \<open>A new client\<close>

lemma accept_object_ok:
  assumes inv: "world_inv own (base, addr, nm, n, mk) m0 stg stg rests out w" and f: "f \<notin> busy own w"
    and b: "Suc (length (everMade w)) < 2 ^ 31"
  shows "\<exists>s c. newConnection f peer local (tcpOf w) = (s, c, [RunInLoop (ioLoop c) (ConnectEstablished c)]) \<and> baseOf s = base \<and>
    world_inv own (base, addr, nm, n, mk) m0 (stg(length (everMade w) := Starting)) (stg(length (everMade w) := Open)) rests out
      (w\<lparr>tcpOf := s, everMade := everMade w @ [c],
         objectOf := (objectOf w)(length (everMade w) := tcp_callbacks (conn_new (length (everMade w)) f))\<rparr>)"
proof -
  let ?i = "length (everMade w)"
  have D: "srv_inv base addr nm n mk (tcpOf w, everMade w)" "baseOf (tcpOf w) = base" "tracked (inMap w stg) (tcpOf w, everMade w)"
    "\<And>j. j < ?i \<Longrightarrow> life w rests out j (stg j) \<and> tasks_ok base w j (stg j)" "\<And>j. ?i \<le> j \<Longrightarrow> unused w rests out j"
    "fds_ok own w stg" "kernel_ok own w stg" "kv_inv (storeOf w)" "spec_log (segLog w) (\<lambda>i. []) m0 = (rests, kv_map (storeOf w), out)"
    using inv by (auto simp: world_inv_def)
  obtain s c es where nc: "newConnection f peer local (tcpOf w) = (s, c, es)" by (cases "newConnection f peer local (tcpOf w)")
  have step: "server_step (Arrives f peer local) (tcpOf w, everMade w) = (s, everMade w @ [c])" by (simp add: nc)
  have c: "es = [RunInLoop (ioLoop c) (ConnectEstablished c)]" "baseOf s = base" "sockfd c = f"
    using nc D(2) by (auto simp: newConnection_def Let_def split: prod.splits)
  have srv: "srv_inv base addr nm n mk (s, everMade w @ [c])" using srv_inv_arrives [OF D(1), of f peer local] step by auto
  let ?w = "w\<lparr>tcpOf := s, everMade := everMade w @ [c], objectOf := (objectOf w)(?i := tcp_callbacks (conn_new ?i f))\<rparr>"
  let ?stg = "stg(?i := Starting)"
  have la: "loopAt ?w j = loopAt w j" if "j < ?i" for j using that by (simp add: loopAt_def nth_append)
  have "inMap ?w ?stg = insert ?i (inMap w stg)" by (auto simp: inMap_def less_Suc_eq)
  then have trk: "tracked (inMap ?w ?stg) (s, everMade w @ [c])" using tracked_arrives [OF D(1,3) b, of f peer local] by (simp only: step)
  have notgone: "stg j \<noteq> Gone \<Longrightarrow> j < ?i \<Longrightarrow> sockfd (everMade w ! j) \<noteq> f" for j
    using f D(4) [of j] by (auto simp: busy_def life_def)
  have knone: "kernel (epollOf w l) f = None" for l
  proof (rule ccontr)
    assume "kernel (epollOf w l) f \<noteq> None"
    then have "f \<in> own \<or> (\<exists>j < ?i. stg j = Open \<and> loopAt w j = l \<and> sockfd (everMade w ! j) = f)"
      using D(7) unfolding kernel_ok_def by blast
    then show False
    proof
      assume "\<exists>j < ?i. stg j = Open \<and> loopAt w j = l \<and> sockfd (everMade w ! j) = f"
      then obtain j where "j < ?i" "stg j = Open" "sockfd (everMade w ! j) = f" by blast
      with notgone [of j] show False by simp
    qed (use f in \<open>simp add: busy_def\<close>)
  qed
  have U: "unused w rests out ?i" using D(5) by simp
  have "life ?w rests out j (?stg j) \<and> tasks_ok base ?w j ((stg(?i := Open)) j)" if "j < Suc ?i" for j
  proof (cases "j = ?i")
    case True
    with U knone show ?thesis
      by (auto simp: life_def unused_def c tasks_ok_def count_list_0_iff tcp_callbacks_def conn_new_def channel_new_def setCallbacks_def)
  next
    case False
    with that have j: "j < ?i" by simp
    with D(4) [OF j] show ?thesis by (simp add: life_def tasks_ok_def la nth_append)
  qed
  moreover have "unused ?w rests out j" if "Suc ?i \<le> j" for j using D(5) [of j] that by (simp add: unused_def)
  moreover have "fds_ok own ?w ?stg"
    using D(6) notgone f by (auto simp: fds_ok_def nth_append less_Suc_eq c busy_def)
  moreover have "kernel_ok own ?w ?stg"
    unfolding kernel_ok_def
  proof (intro allI impI)
    fix l g assume "kernel (epollOf ?w l) g \<noteq> None"
    then have "kernel (epollOf w l) g \<noteq> None" by simp
    then have "g \<in> own \<or> (\<exists>j < ?i. stg j = Open \<and> loopAt w j = l \<and> sockfd (everMade w ! j) = g)"
      using D(7) unfolding kernel_ok_def by blast
    then show "g \<in> own \<or> (\<exists>j < length (everMade ?w). ?stg j = Open \<and> loopAt ?w j = l \<and> sockfd (everMade ?w ! j) = g)"
    proof
      assume "\<exists>j < ?i. stg j = Open \<and> loopAt w j = l \<and> sockfd (everMade w ! j) = g"
      then obtain j where "j < ?i" "stg j = Open" "loopAt w j = l" "sockfd (everMade w ! j) = g" by blast
      then show ?thesis using la [of j] by (intro disjI2 exI [of _ j]) (simp add: nth_append)
    qed simp
  qed
  ultimately have "world_inv own (base, addr, nm, n, mk) m0 ?stg (stg(?i := Open)) rests out ?w"
    using srv trk c(2) D(8,9) by (simp add: world_inv_def)
  with nc c show ?thesis by blast
qed

subsection \<open>All steps\<close>

text \<open>How far a connection is from the end of what is underway.\<close>

fun nextStage :: "stage \<Rightarrow> stage" where
  "nextStage Starting = Open"
| "nextStage Leaving = Removed"
| "nextStage Removed = Gone"
| "nextStage st = st"

fun rank :: "stage \<Rightarrow> nat" where
  "rank Starting = 1"
| "rank Leaving = 2"
| "rank Removed = 1"
| "rank _ = 0"

lemma accept_ok:
  assumes inv: "world_inv own (base, addr, nm, n, mk) m0 stg stg rests out w" and f: "f \<notin> busy own w"
    and b: "Suc (length (everMade w)) < 2 ^ 31"
  shows "\<exists>w' stg'. world_accept ws f peer local w = Some w' \<and> length (everMade w') = Suc (length (everMade w)) \<and>
    world_inv own (base, addr, nm, n, mk) m0 stg' stg' rests out w'"
proof -
  let ?i = "length (everMade w)"
  obtain s c where nc: "newConnection f peer local (tcpOf w) = (s, c, [RunInLoop (ioLoop c) (ConnectEstablished c)])" "baseOf s = base"
    and w1: "world_inv own (base, addr, nm, n, mk) m0 (stg(?i := Starting)) (stg(?i := Open)) rests out
      (w\<lparr>tcpOf := s, everMade := everMade w @ [c], objectOf := (objectOf w)(?i := tcp_callbacks (conn_new ?i f))\<rparr>)"
    using accept_object_ok [OF inv f b, of peer local] by blast
  let ?w = "w\<lparr>tcpOf := s, everMade := everMade w @ [c], objectOf := (objectOf w)(?i := tcp_callbacks (conn_new ?i f))\<rparr>"
  have i: "?i < length (everMade ?w)" by simp
  show ?thesis
  proof (cases "ioLoop c = base")
    case True
    from task_establish_ok [OF w1 i, of ws] obtain w' where
      "task_establish ws ?i ?w = Some w'" "everMade w' = everMade ?w"
      "world_inv own (base, addr, nm, n, mk) m0 (stg(?i := Open)) (stg(?i := Open)) rests out w'" by auto
    with True nc show ?thesis by (auto simp: world_accept_def Let_def)
  next
    case False
    have "loopAt ?w ?i = ioLoop c" by (simp add: loopAt_def)
    with enqueue_ok [OF w1 i, of Starting] False nc show ?thesis
      by (auto simp: world_accept_def Let_def waitsAt_def)
  qed
qed

lemma task_ok:
  assumes inv: "world_inv own (base, addr, nm, n, mk) m0 stg stg rests out w" and q: "queueOf w l = t # ts"
    and b: "length (everMade w) < 2 ^ 31"
  shows "\<exists>w' i. perform_task ws t (w\<lparr>queueOf := (queueOf w)(l := ts)\<rparr>) = Some w' \<and> everMade w' = everMade w \<and>
    i < length (everMade w) \<and> stg i \<in> {Starting, Leaving, Removed} \<and>
    world_inv own (base, addr, nm, n, mk) m0 (stg(i := nextStage (stg i))) (stg(i := nextStage (stg i))) rests out w'"
proof -
  let ?w = "w\<lparr>queueOf := (queueOf w)(l := ts)\<rparr>"
  from pop_ok [OF inv q] obtain i where i: "i < length (everMade w)" "stg i \<in> {Starting, Leaving, Removed}" "t = waitsFor (stg i) i"
    and p: "world_inv own (base, addr, nm, n, mk) m0 stg (stg(i := Open)) rests out ?w" by blast
  have i': "i < length (everMade ?w)" "length (everMade ?w) < 2 ^ 31" using i(1) b by simp_all
  from i(2) consider "stg i = Starting" | "stg i = Leaving" | "stg i = Removed" by blast
  then show ?thesis
  proof cases
    case 1
    from task_establish_ok [OF p i'(1) 1, of ws] i 1 show ?thesis by (auto intro!: exI [of _ i])
  next
    case 2
    from task_remove_ok [OF p i'(1) 2 _ i'(2)] i 2 show ?thesis by (auto intro!: exI [of _ i])
  next
    case 3
    from task_destroy_ok [OF p i'(1) 3] i 3 show ?thesis by (auto intro!: exI [of _ i])
  qed
qed

lemma open_of_watched:
  assumes inv: "world_inv own (base, addr, nm, n, mk) m0 stg tk rests out w" and i: "i < length (everMade w)" "i \<notin> gone w"
  shows "watched w i \<longleftrightarrow> stg i = Open"
proof -
  note D = world_invD [OF inv i(1)]
  have "stg i \<noteq> Gone" using D(1) i(2) by (simp add: life_def)
  then show ?thesis
    using D(1,8) by (cases "stg i") (auto simp: life_def watched_def open_conn_def reading_def closed_conn_def conn_ok_def chan_ok_def
      split: if_splits)
qed

lemma event_ok:
  assumes inv: "world_inv own (base, addr, nm, n, mk) m0 stg stg rests out w"
    and i: "i < length (everMade w)" "i \<notin> gone w" "watched w i" and b: "length (everMade w) < 2 ^ 31"
  shows "\<exists>w' stg' rests' out'. world_event i e w = Some w' \<and> everMade w' = everMade w \<and>
    world_inv own (base, addr, nm, n, mk) m0 stg' stg' rests' out' w'"
proof -
  have st: "stg i = Open" using open_of_watched [OF inv i(1,2)] i(3) by simp
  show ?thesis
  proof (cases "closes e")
    case False
    from event_stays_ok [OF inv i(1) st False] show ?thesis by blast
  next
    case True
    obtain c p w1 where h: "world_service e (objectOf w i, epollOf w (loopAt w i), storeOf w) =
        Some (c, p, storeOf w, [ConnectionCallback False, CloseCallback])"
      "w1 = breaks i (writes_of e) ((put_conn i c p [ConnectionCallback False, CloseCallback] w)\<lparr>storeOf := storeOf w,
        segLog := segLog w @ map (Pair i) (segment_of e (objectOf w i))\<rparr>)"
      "everMade w1 = everMade w" "tcpOf w1 = tcpOf w" "loopAt w1 = loopAt w"
      "world_inv own (base, addr, nm, n, mk) m0 (stg(i := Leaving)) stg rests out w1"
      using event_closes_ok [OF inv i(1) st True] by blast
    have ev: "world_event i e w = hand_over (writes_of e) (loopAt w i) i (removeConnection (everMade w ! i) (tcpOf w)) w1"
      using h(1) by (simp add: world_event_def h(2))
    have base: "baseOf (tcpOf w) = base" by (rule world_invD(7) [OF inv i(1)])
    have i1: "i < length (everMade w1)" "length (everMade w1) < 2 ^ 31" using i(1) b h(3) by simp_all
    show ?thesis
    proof (cases "base = loopAt w i")
      case True
      with ev base have "world_event i e w = Some (task_remove i w1)" by (simp add: removeConnection_def)
      with task_remove_ok [OF h(6) i1(1) _ _ i1(2)] st h(3) show ?thesis by auto
    next
      case False
      with ev base have "world_event i e w = Some (enqueue base [Remove i] w1)" by (simp add: removeConnection_def)
      with enqueue_ok [OF h(6) i1(1) st, of Leaving] h(3) show ?thesis by (auto simp: waitsAt_def)
    qed
  qed
qed

end
