(* ===== verification/Live_Server_Properties.thy ===== *)
theory Live_Server_Properties
  imports Live_Server_Correct
begin

text \<open>
  The properties of the running server: the life of every connection, what every client reads, and that what is underway
  comes to an end.
\<close>

subsection \<open>Reachable worlds\<close>

lemma world_inv_new:
  assumes "\<forall>l g. kernel (ps l) g \<noteq> None \<longrightarrow> g \<in> own" "kv_inv st"
  shows "world_inv own (base, addr, nm, n, mk) (kv_map st) stg stg (\<lambda>i. []) [] (world_new (started_server base addr nm n mk) ps st)"
proof -
  have "connections (started_server base addr nm n mk) = []" "baseOf (started_server base addr nm n mk) = base"
    by (simp_all add: started_server_eq)
  with assms srv_inv_start [of base addr nm n mk] show ?thesis
    by (simp add: world_inv_def world_new_def tracked_def inMap_def unused_def fds_ok_def kernel_ok_def)
qed

lemma world_step_length: "world_step own w w' \<Longrightarrow> length (everMade w) \<le> length (everMade w')"
  by (induction rule: world_step.induct)
    (auto simp: world_accept_def Let_def split: prod.splits dest!: hand_over_made perform_task_made world_event_made)

lemma world_step_inv:
  assumes "world_step own w w'" and inv: "world_inv own (base, addr, nm, n, mk) m0 stg stg rests out w"
    and b: "length (everMade w') < 2 ^ 31 - 1"
  shows "\<exists>stg rests out. world_inv own (base, addr, nm, n, mk) m0 stg stg rests out w'"
  using assms(1)
proof cases
  case (arrives f ws peer local)
  have "length (everMade w') = Suc (length (everMade w))"
    using arrives(2) by (auto simp: world_accept_def Let_def split: prod.splits dest: hand_over_made)
  with accept_ok [OF inv arrives(1), of ws peer local] arrives(2) b show ?thesis by auto
next
  case (task l t ts ws)
  have "length (everMade w) < 2 ^ 31" using perform_task_made [OF task(2)] b by simp
  from task_ok [OF inv task(1) this, of ws] task(2) show ?thesis by auto
next
  case (event i e)
  have "length (everMade w) < 2 ^ 31" using world_event_made [OF event(4)] b by simp
  from event_ok [OF inv event(1-3) this, of e] event(4) show ?thesis by auto
qed

lemma live_reachable_inv:
  assumes "world_reachable own (world_new (started_server base addr nm n mk) ps st) w"
    and "\<forall>l g. kernel (ps l) g \<noteq> None \<longrightarrow> g \<in> own" "kv_inv st" "length (everMade w) < 2 ^ 31 - 1"
  shows "\<exists>stg rests out. world_inv own (base, addr, nm, n, mk) (kv_map st) stg stg rests out w"
  using assms
proof (induction rule: world_reachable.induct)
  case init
  show ?case using world_inv_new [OF init(1,2)] by blast
next
  case (step w w')
  have "length (everMade w) < 2 ^ 31 - 1" using world_step_length [OF step(2)] step.prems(3) by simp
  with step.IH step.prems(1,2) world_step_inv [OF step(2) _ step.prems(3)] show ?case by blast
qed

lemma queued_stage:
  assumes "world_inv own (base, addr, nm, n, mk) m0 stg stg rests out w" "i < length (everMade w)"
  shows "Establish i \<in> set (queueOf w l) \<longleftrightarrow> stg i = Starting \<and> l = loopAt w i"
    "Remove i \<in> set (queueOf w l) \<longleftrightarrow> stg i = Leaving \<and> l = base"
    "Destroy i \<in> set (queueOf w l) \<longleftrightarrow> stg i = Removed \<and> l = loopAt w i"
proof -
  have m: "t \<in> set xs \<longleftrightarrow> count_list xs t \<noteq> 0" for t and xs :: "task list" by (simp add: count_list_0_iff)
  show "Establish i \<in> set (queueOf w l) \<longleftrightarrow> stg i = Starting \<and> l = loopAt w i"
    "Remove i \<in> set (queueOf w l) \<longleftrightarrow> stg i = Leaving \<and> l = base"
    "Destroy i \<in> set (queueOf w l) \<longleftrightarrow> stg i = Removed \<and> l = loopAt w i"
    using world_invD(2) [OF assms] by (simp_all add: m tasks_ok_def)
qed

lemma stageOf_inv:
  assumes "world_inv own (base, addr, nm, n, mk) m0 stg stg rests out w" "i < length (everMade w)"
  shows "stageOf w i = stg i"
proof -
  note D = world_invD [OF assms] and q = queued_stage [OF assms]
  have "i \<in> gone w \<longleftrightarrow> stg i = Gone" using D(1) by (simp add: life_def)
  then show ?thesis by (cases "stg i") (simp_all add: stageOf_def q D(7))
qed

text \<open>The server's map in terms of the stages.\<close>

lemma map_of_tracked:
  assumes inv: "world_inv own (base, addr, nm, n, mk) m0 stg tk rests out w" and i: "i < length (everMade w)"
    and b: "length (everMade w) < 2 ^ 31"
  shows "map_of (connections (tcpOf w)) (connName (everMade w ! i)) =
    (if stg i \<in> {Starting, Open, Leaving} then Some (everMade w ! i) else None)"
proof -
  note D = world_invD [OF inv i]
  let ?nm = "\<lambda>j. connName (everMade w ! j)"
  have d: "distinct (map connName (everMade w))" by (rule inv_names [OF D(3) b])
  have eq: "?nm j = ?nm i \<longleftrightarrow> j = i" if "j < length (everMade w)" for j
    using nth_eq_iff_index_eq [OF d, of j i] that i by simp
  have t: "alSorted (connections (tcpOf w))" "set (connections (tcpOf w)) = (\<lambda>j. (?nm j, everMade w ! j)) ` inMap w stg"
    using D(4) by (simp_all add: tracked_def)
  show ?thesis
  proof (cases "stg i \<in> {Starting, Open, Leaving}")
    case True
    then have "(?nm i, everMade w ! i) \<in> set (connections (tcpOf w))" using i by (auto simp: t(2) inMap_def)
    with True show ?thesis using map_of_eq_Some_iff [OF alSorted_distinct [OF t(1)]] by auto
  next
    case False
    have "?nm i \<notin> fst ` set (connections (tcpOf w))"
    proof
      assume "?nm i \<in> fst ` set (connections (tcpOf w))"
      then obtain j where "?nm j = ?nm i" "j \<in> inMap w stg" by (auto simp: t(2))
      with eq [of j] False show False by (auto simp: inMap_def)
    qed
    with False show ?thesis by (simp add: map_of_eq_None_iff)
  qed
qed

subsection \<open>What is underway comes to an end\<close>

definition performs :: "world \<Rightarrow> world \<Rightarrow> bool" where
  "performs w w' \<longleftrightarrow> (\<exists>l t ts ws. queueOf w l = t # ts \<and> perform_task ws t (w\<lparr>queueOf := (queueOf w)(l := ts)\<rparr>) = Some w')"

lemma rank_decreases:
  fixes stg :: "nat \<Rightarrow> stage"
  assumes "i < k" "stg i \<in> {Starting, Leaving, Removed}"
  shows "(\<Sum>j<k. rank ((stg(i := nextStage (stg i))) j)) < (\<Sum>j<k. rank (stg j))"
proof (rule sum_strict_mono_ex1)
  have "rank (nextStage (stg i)) < rank (stg i)" using assms(2) by auto
  then show "\<exists>j \<in> {..<k}. rank ((stg(i := nextStage (stg i))) j) < rank (stg j)" using assms(1) by (intro bexI [of _ i]) auto
  show "\<forall>j \<in> {..<k}. rank ((stg(i := nextStage (stg i))) j) \<le> rank (stg j)" using \<open>rank (nextStage (stg i)) < rank (stg i)\<close> by auto
qed simp

lemma drains:
  assumes "world_inv own (base, addr, nm, n, mk) m0 stg stg rests out w" "length (everMade w) < 2 ^ 31"
  shows "\<exists>w' stg'. performs\<^sup>*\<^sup>* w w' \<and> everMade w' = everMade w \<and> (\<forall>l. queueOf w' l = []) \<and>
    world_inv own (base, addr, nm, n, mk) m0 stg' stg' rests out w' \<and>
    (\<forall>i < length (everMade w). stg' i = (case stg i of Starting \<Rightarrow> Open | Open \<Rightarrow> Open | _ \<Rightarrow> Gone))"
  using assms
proof (induction "\<Sum>j<length (everMade w). rank (stg j)" arbitrary: w stg rule: less_induct)
  case less
  show ?case
  proof (cases "\<forall>l. queueOf w l = []")
    case True
    have "stg i = (case stg i of Starting \<Rightarrow> Open | Open \<Rightarrow> Open | _ \<Rightarrow> Gone)" if i: "i < length (everMade w)" for i
      using stageOf_inv [OF less.prems(1) i] True by (cases "stg i") (auto simp: stageOf_def split: if_splits)
    with True less.prems show ?thesis by blast
  next
    case False
    then obtain l t ts where q: "queueOf w l = t # ts" by (meson list.exhaust)
    obtain w1 i where s: "perform_task (\<lambda>n. Inr 0) t (w\<lparr>queueOf := (queueOf w)(l := ts)\<rparr>) = Some w1" "everMade w1 = everMade w"
      "i < length (everMade w)" "stg i \<in> {Starting, Leaving, Removed}"
      "world_inv own (base, addr, nm, n, mk) m0 (stg(i := nextStage (stg i))) (stg(i := nextStage (stg i))) rests out w1"
      using task_ok [OF less.prems(1) q less.prems(2)] by blast
    have p: "performs w w1" using q s(1) by (auto simp: performs_def)
    have "(\<Sum>j<length (everMade w1). rank ((stg(i := nextStage (stg i))) j)) < (\<Sum>j<length (everMade w). rank (stg j))"
      using rank_decreases [of i "length (everMade w)" stg] s(2-4) by simp
    from less.hyps [OF this s(5)] s(2) less.prems(2) obtain w2 stg2 where
      r: "performs\<^sup>*\<^sup>* w1 w2" "everMade w2 = everMade w" "\<forall>l. queueOf w2 l = []"
        "world_inv own (base, addr, nm, n, mk) m0 stg2 stg2 rests out w2"
        "\<forall>j < length (everMade w). stg2 j = (case (stg(i := nextStage (stg i))) j of Starting \<Rightarrow> Open | Open \<Rightarrow> Open | _ \<Rightarrow> Gone)"
      by auto
    have "stg2 j = (case stg j of Starting \<Rightarrow> Open | Open \<Rightarrow> Open | _ \<Rightarrow> Gone)" if "j < length (everMade w)" for j
      using r(5) that s(4) by (cases "j = i") auto
    with r p show ?thesis by (intro exI [of _ w2] exI [of _ stg2]) (auto intro: converse_rtranclp_into_rtranclp)
  qed
qed

subsection \<open>A run, for the witnesses\<close>

lemma task_establish_frame: "task_establish ws i w = Some w' \<Longrightarrow> queueOf w' = queueOf w \<and> segLog w' = segLog w \<and> gone w' = gone w \<and>
    ((\<forall>n. peerAlive (EvSend [] (ws n))) \<longrightarrow> broken w' = broken w)"
  by (auto simp: task_establish_def breaks_def put_conn_def split: Option.bind_splits if_splits)

lemma world_event_frame:
  assumes "world_event i e w = Some w'" "open_conn (objectOf w i) (epollOf w (loopAt w i))" "\<not> closes e" "kv_inv (storeOf w)"
  shows "queueOf w' = queueOf w \<and> segLog w' = segLog w @ map (Pair i) (segment_of e (objectOf w i)) \<and> gone w' = gone w \<and>
    ((\<forall>n. peerAlive (EvSend [] (writes_of e n))) \<longrightarrow> broken w' = broken w)"
proof -
  obtain c p st es where "world_service e (objectOf w i, epollOf w (loopAt w i), storeOf w) = Some (c, p, st, es)" "CloseCallback \<notin> set es"
    using handler_stays [OF assms(2-4)] by blast
  with assms(1) show ?thesis by (auto simp: world_event_def breaks_def put_conn_def split: if_splits)
qed

abbreviation sampleStart :: "int \<Rightarrow> world" where
  "sampleStart n \<equiv> world_new (started_server 0 (inet_of_port 6379 False) ''kv'' n Suc) (\<lambda>l. poller_new Map.empty) (kv_new 16 (\<lambda>_. 1))"

lemma sample_hyps: "\<forall>l g. kernel (poller_new (Map.empty :: interest)) g \<noteq> None \<longrightarrow> g \<in> {3}" "kv_inv (kv_new 16 (\<lambda>_. 1))"
  by (simp_all add: poller_new_def kv_new_inv(1))

text \<open>With one thread, a client that has just arrived waits in the queue of that thread's loop.\<close>

lemma sample_waiting: "\<exists>w. world_reachable {3} (sampleStart 1) w \<and> length (everMade w) = 1 \<and> stageOf w 0 = Starting"
proof -
  let ?s = "started_server 0 (inet_of_port 6379 False) ''kv'' 1 Suc" and ?a = "inet_of_port 1 True"
  obtain w where w: "world_accept (\<lambda>n. Inr 0) 9 ?a ?a (sampleStart 1) = Some w" "length (everMade w) = 1" "loopAt w 0 = 1"
    "queueOf w = (\<lambda>l. if l = 1 then [Establish 0] else [])" "gone w = {}"
    by (simp add: world_accept_def world_new_def newConnection_def started_server_eq getNextLoop_def Let_def enqueue_def loopAt_def fun_eq_iff)
  have "baseOf (tcpOf w) = 0" using w(1)
    by (auto simp: world_accept_def world_new_def newConnection_def started_server_eq getNextLoop_def Let_def enqueue_def)
  then have "stageOf w 0 = Starting" by (simp add: stageOf_def w)
  moreover have "9 \<notin> busy {3} (sampleStart 1)" by (simp add: busy_def world_new_def)
  ultimately show ?thesis using w(1,2) by (blast intro: world_reachable.step [OF world_reachable.init world_step.arrives])
qed

text \<open>With no threads, a client that has arrived and sent a PING.\<close>

lemma sample_ping: "\<exists>w. world_reachable {3} (sampleStart 0) w \<and> length (everMade w) = 1 \<and> stageOf w 0 = Open \<and> 0 \<notin> broken w \<and>
    segLog w = [(0, ''PING'' @ [LF])]"
proof -
  let ?a = "inet_of_port 1 True" and ?e = "Served (Bytes (''PING'' @ [LF]) (\<lambda>n. Inr 0))" and ?W = "sampleStart 0"
  have new: "9 \<notin> busy {3} ?W" "Suc (length (everMade ?W)) < 2 ^ 31" by (simp_all add: world_new_def busy_def)
  have inv: "world_inv {3} (0, inet_of_port 6379 False, ''kv'', 0, Suc) (kv_map (kv_new 16 (\<lambda>_. 1))) (\<lambda>i. Open) (\<lambda>i. Open) (\<lambda>i. []) [] ?W"
    by (rule world_inv_new) (use sample_hyps in auto)
  obtain w1 where w1: "world_accept (\<lambda>n. Inr 0) 9 ?a ?a ?W = Some w1" "length (everMade w1) = 1"
    using accept_ok [OF inv new, of "\<lambda>n. Inr 0" ?a ?a] by (auto simp: world_new_def)
  obtain w0 where w0: "task_establish (\<lambda>n. Inr 0) 0 w0 = Some w1" "queueOf w0 = (\<lambda>l. [])" "segLog w0 = []" "gone w0 = {}" "broken w0 = {}"
    using w1(1)
    by (auto simp: world_accept_def newConnection_def started_server_eq getNextLoop_def Let_def world_new_def split: Option.bind_splits)
  have f1: "queueOf w1 = (\<lambda>l. [])" "segLog w1 = []" "gone w1 = {}" "broken w1 = {}"
    using task_establish_frame [OF w0(1)] w0(2-5) by simp_all
  have r1: "world_reachable {3} ?W w1" by (rule world_reachable.step [OF world_reachable.init world_step.arrives [OF new(1) w1(1)]])
  from live_reachable_inv [OF r1 sample_hyps] w1(2) obtain stg rests out where
    i1: "world_inv {3} (0, inet_of_port 6379 False, ''kv'', 0, Suc) (kv_map (kv_new 16 (\<lambda>_. 1))) stg stg rests out w1" by auto
  have z: "0 < length (everMade w1)" "0 \<notin> gone w1" "length (everMade w1) < 2 ^ 31" using w1(2) f1(3) by simp_all
  have st: "stageOf w1 0 = Open" by (simp add: stageOf_def f1)
  then have s0: "stg 0 = Open" using stageOf_inv [OF i1 z(1)] by simp
  have o: "open_conn (objectOf w1 0) (epollOf w1 (loopAt w1 0))" using world_invD(1) [OF i1 z(1)] s0 by (simp add: life_def)
  have wt: "watched w1 0" using open_of_watched [OF i1 z(1,2)] s0 by simp
  obtain w2 where w2: "world_event 0 ?e w1 = Some w2" "everMade w2 = everMade w1" using event_ok [OF i1 z(1,2) wt z(3), of ?e] by blast
  have "segment_of ?e (objectOf w1 0) = [''PING'' @ [LF]]" by (simp add: readCapacity_def kExtraBuf_def)
  then have f2: "queueOf w2 = (\<lambda>l. [])" "segLog w2 = [(0, ''PING'' @ [LF])]" "gone w2 = {}" "broken w2 = {}"
    using world_event_frame [OF w2(1) o _ world_invD(5) [OF i1 z(1)]] f1 by simp_all
  have "world_reachable {3} ?W w2" by (rule world_reachable.step [OF r1 world_step.event [OF z(1,2) wt w2(1)]])
  moreover have "stageOf w2 0 = Open" by (simp add: stageOf_def f2)
  ultimately show ?thesis using w1(2) w2(2) f2(2,4) by (intro exI [of _ w2]) simp
qed

subsection \<open>Properties\<close>

text \<open>
  C2: the life of a connection in the running server: under any interleaving of clients, handlers and loops, the connection
  callback is called once when the connection is established and once when it closes, and not otherwise; the kernel watches its
  descriptor exactly while it is open; the server's map has it from its arrival until it is removed; no two connections share a
  descriptor before it is closed; its object is destroyed exactly when neither the map nor the queue of any loop refers to it, so
  nothing is used after it is freed and nothing leaks; and no task, no event of an open connection and no arrival ever fails.
\<close>

theorem connection_lifecycle:
  assumes "world_reachable own (world_new (started_server base addr nm n mk) ps st) w"
    and "\<forall>l g. kernel (ps l) g \<noteq> None \<longrightarrow> g \<in> own" "kv_inv st" "length (everMade w) < 2 ^ 31 - 1"
  shows "(\<forall>i < length (everMade w). cbLog w i = calledBack (stageOf w i) \<and>
      (stageOf w i \<noteq> Gone \<longrightarrow> (watched w i \<longleftrightarrow> stageOf w i = Open)) \<and>
      map_of (connections (tcpOf w)) (connName (everMade w ! i)) =
        (if stageOf w i \<in> {Starting, Open, Leaving} then Some (everMade w ! i) else None) \<and>
      (i \<in> gone w \<longleftrightarrow> map_of (connections (tcpOf w)) (connName (everMade w ! i)) = None \<and>
        (\<forall>l. {Establish i, Remove i, Destroy i} \<inter> set (queueOf w l) = {})) \<and>
      (\<forall>j < length (everMade w). j \<noteq> i \<and> stageOf w i \<noteq> Gone \<and> stageOf w j \<noteq> Gone \<longrightarrow>
        sockfd (everMade w ! j) \<noteq> sockfd (everMade w ! i)) \<and>
      (stageOf w i = Open \<longrightarrow> (\<forall>e. \<exists>w'. world_event i e w = Some w'))) \<and>
    (\<forall>l t ts ws. queueOf w l = t # ts \<longrightarrow> (\<exists>w'. perform_task ws t (w\<lparr>queueOf := (queueOf w)(l := ts)\<rparr>) = Some w')) \<and>
    (\<forall>f peer local ws. f \<notin> busy own w \<longrightarrow> (\<exists>w'. world_accept ws f peer local w = Some w'))"
proof -
  obtain stg rests out where inv: "world_inv own (base, addr, nm, n, mk) (kv_map st) stg stg rests out w"
    using live_reachable_inv [OF assms] by blast
  have b: "length (everMade w) < 2 ^ 31" "Suc (length (everMade w)) < 2 ^ 31" using assms(4) by simp_all
  have one: "cbLog w i = calledBack (stg i)" "stg i \<noteq> Gone \<longrightarrow> (watched w i \<longleftrightarrow> stg i = Open)"
      "\<forall>j < length (everMade w). j \<noteq> i \<and> stg i \<noteq> Gone \<and> stg j \<noteq> Gone \<longrightarrow> sockfd (everMade w ! j) \<noteq> sockfd (everMade w ! i)"
      "stg i = Open \<longrightarrow> (\<forall>e. \<exists>w'. world_event i e w = Some w')" if i: "i < length (everMade w)" for i
  proof -
    note D = world_invD [OF inv i]
    show "cbLog w i = calledBack (stg i)" using D(1) by (simp add: life_def)
    have g: "i \<in> gone w \<longleftrightarrow> stg i = Gone" using D(1) by (simp add: life_def)
    then show w: "stg i \<noteq> Gone \<longrightarrow> (watched w i \<longleftrightarrow> stg i = Open)" using open_of_watched [OF inv i] by simp
    show "stg i = Open \<longrightarrow> (\<forall>e. \<exists>w'. world_event i e w = Some w')"
      using event_ok [OF inv i _ _ b(1)] w g by fastforce
    have "fds_ok own w stg" using inv by (simp add: world_inv_def)
    then show "\<forall>j < length (everMade w). j \<noteq> i \<and> stg i \<noteq> Gone \<and> stg j \<noteq> Gone \<longrightarrow> sockfd (everMade w ! j) \<noteq> sockfd (everMade w ! i)"
      using i by (simp add: fds_ok_def)
  qed
  have refs: "i \<in> gone w \<longleftrightarrow> map_of (connections (tcpOf w)) (connName (everMade w ! i)) = None \<and>
        (\<forall>l. {Establish i, Remove i, Destroy i} \<inter> set (queueOf w l) = {})" if i: "i < length (everMade w)" for i
  proof -
    have g: "i \<in> gone w \<longleftrightarrow> stg i = Gone" using world_invD(1) [OF inv i] by (simp add: life_def)
    show ?thesis unfolding map_of_tracked [OF inv i b(1)] g using queued_stage [OF inv i] by (cases "stg i") auto
  qed
  have "\<exists>w'. perform_task ws t (w\<lparr>queueOf := (queueOf w)(l := ts)\<rparr>) = Some w'" if "queueOf w l = t # ts" for l t ts ws
    using task_ok [OF inv that b(1), of ws] by blast
  moreover have "\<exists>w'. world_accept ws f peer local w = Some w'" if "f \<notin> busy own w" for f peer local ws
    using accept_ok [OF inv that b(2), of ws peer local] by blast
  ultimately show ?thesis using one refs map_of_tracked [OF inv _ b(1)] stageOf_inv [OF inv] by simp
qed

theorem connection_lifecycle_witness:
  "\<exists>w. world_reachable {3} (sampleStart 0) w \<and> length (everMade w) = 1 \<and> cbLog w 0 = [True] \<and> watched w 0 \<and>
     map_of (connections (tcpOf w)) (connName (everMade w ! 0)) = Some (everMade w ! 0)"
proof -
  obtain w where w: "world_reachable {3} (sampleStart 0) w" "length (everMade w) = 1" "stageOf w 0 = Open" using sample_ping by blast
  have "length (everMade w) < 2 ^ 31 - 1" using w(2) by simp
  from conjunct1 [OF connection_lifecycle [OF w(1) sample_hyps this]] w(2,3) show ?thesis
    by (intro exI [of _ w]) (auto simp: w(1))
qed



text \<open>
  C3: what is underway comes to an end: from every reachable state the loops can perform what has been handed to them, one task
  after the other, until no task is left; then every connection that waited to be established is open, every connection that
  was closing is destroyed, and the server's map has exactly the open ones.
\<close>

theorem server_quiesces:
  assumes "world_reachable own (world_new (started_server base addr nm n mk) ps st) w"
    and "\<forall>l g. kernel (ps l) g \<noteq> None \<longrightarrow> g \<in> own" "kv_inv st" "length (everMade w) < 2 ^ 31 - 1"
  shows "\<exists>w'. performs\<^sup>*\<^sup>* w w' \<and> everMade w' = everMade w \<and> (\<forall>l. queueOf w' l = []) \<and>
    (\<forall>i < length (everMade w). stageOf w' i = (case stageOf w i of Starting \<Rightarrow> Open | Open \<Rightarrow> Open | _ \<Rightarrow> Gone)) \<and>
    set (connections (tcpOf w')) = (\<lambda>i. (connName (everMade w ! i), everMade w ! i)) ` {i. i < length (everMade w) \<and> stageOf w' i = Open}"
proof -
  obtain stg rests out where inv: "world_inv own (base, addr, nm, n, mk) (kv_map st) stg stg rests out w"
    using live_reachable_inv [OF assms] by blast
  have "length (everMade w) < 2 ^ 31" using assms(4) by simp
  from drains [OF inv this] obtain w' stg' where
    r: "performs\<^sup>*\<^sup>* w w'" "everMade w' = everMade w" "\<forall>l. queueOf w' l = []"
      "world_inv own (base, addr, nm, n, mk) (kv_map st) stg' stg' rests out w'"
      "\<forall>i < length (everMade w). stg' i = (case stg i of Starting \<Rightarrow> Open | Open \<Rightarrow> Open | _ \<Rightarrow> Gone)" by blast
  have s: "stageOf w i = stg i" "stageOf w' i = stg' i" if "i < length (everMade w)" for i
    using stageOf_inv [OF inv that] stageOf_inv [OF r(4)] r(2) that by simp_all
  have "inMap w' stg' = {i. i < length (everMade w) \<and> stageOf w' i = Open}"
    using r(2,5) s(2) by (auto simp: inMap_def split: stage.splits)
  moreover have "tracked (inMap w' stg') (tcpOf w', everMade w')" using r(4) by (simp add: world_inv_def)
  ultimately have "set (connections (tcpOf w')) = (\<lambda>i. (connName (everMade w ! i), everMade w ! i)) `
      {i. i < length (everMade w) \<and> stageOf w' i = Open}" by (simp add: tracked_def r(2))
  with r s show ?thesis by (intro exI [of _ w']) simp
qed

theorem server_quiesces_witness:
  "\<exists>w w'. world_reachable {3} (sampleStart 1) w \<and> stageOf w 0 = Starting \<and> performs\<^sup>*\<^sup>* w w' \<and> stageOf w' 0 = Open \<and>
     connections (tcpOf w') \<noteq> []"
proof -
  obtain w where w: "world_reachable {3} (sampleStart 1) w" "length (everMade w) = 1" "stageOf w 0 = Starting" using sample_waiting by blast
  have "length (everMade w) < 2 ^ 31 - 1" using w(2) by simp
  from server_quiesces [OF w(1) sample_hyps this] obtain w' where
    r: "performs\<^sup>*\<^sup>* w w'" "stageOf w' 0 = Open"
      "set (connections (tcpOf w')) = (\<lambda>i. (connName (everMade w ! i), everMade w ! i)) ` {i. i < length (everMade w) \<and> stageOf w' i = Open}"
    using w(2,3) by auto
  from r(2,3) w(2) have "set (connections (tcpOf w')) \<noteq> {}" by auto
  with w r(1,2) show ?thesis by (intro exI [of _ w] exI [of _ w']) auto
qed

end
