(* ===== verification/Server_Main.thy ===== *)
theory Server_Main
  imports KV_Server Tcp_Server Event_Loop
begin

text \<open>
  The server program of \<open>src/server/main.cpp\<close> and the construction of \<open>KVServer\<close> with the \<open>TcpServer\<close> it owns:
  options, what is printed, loading, listening, and saving once the loop has been quit.  \<open>getopt_long\<close> is the
  list of the options it returns, in order; what the callbacks of one run of the event loop do to the store and to the
  TCP server is an argument.
\<close>

subsection \<open>Options\<close>

datatype srv_opt = SrvPort string | SrvThreads string | SrvData string | SrvHelp | SrvBad

record srv_conf =
  confPort :: int
  confThreads :: int
  confData :: string

definition conf_default :: srv_conf where
  "conf_default = \<lparr>confPort = 6379, confThreads = 4, confData = ''data.db''\<rparr>"

definition srv_usage :: "string \<Rightarrow> string" where
  "srv_usage prog = ''Usage: '' @ prog @ '' [options]'' @ [LF] @
     ''Options:'' @ [LF] @
     ''  -p, --port PORT      Server port (default: 6379)'' @ [LF] @
     ''  -t, --threads NUM    IO threads (default: 4)'' @ [LF] @
     ''  -d, --data FILE      Data file path (default: data.db)'' @ [LF] @
     ''  -h, --help           Show this help'' @ [LF]"

text \<open>Inl is the exit code with what was printed.\<close>

fun srv_options :: "string \<Rightarrow> srv_opt list \<Rightarrow> srv_conf \<Rightarrow> (int \<times> string) + srv_conf" where
  "srv_options prog [] conf = Inr conf"
| "srv_options prog (SrvPort a # os) conf = srv_options prog os (conf\<lparr>confPort := atoi a\<rparr>)"
| "srv_options prog (SrvThreads a # os) conf = srv_options prog os (conf\<lparr>confThreads := atoi a\<rparr>)"
| "srv_options prog (SrvData a # os) conf = srv_options prog os (conf\<lparr>confData := a\<rparr>)"
| "srv_options prog (SrvHelp # os) conf = Inl (0, srv_usage prog)"
| "srv_options prog (SrvBad # os) conf = Inl (0, srv_usage prog)"

definition srv_banner :: "srv_conf \<Rightarrow> string" where
  "srv_banner conf =
     ''========================================'' @ [LF] @
     ''        ReactorKV Server v1.0'' @ [LF] @
     ''========================================'' @ [LF] @
     ''  Port:      '' @ to_string (confPort conf) @ [LF] @
     ''  Threads:   '' @ to_string (confThreads conf) @ [LF] @
     ''  Data File: '' @ confData conf @ [LF] @
     ''========================================'' @ [LF] @
     ''Press Ctrl+C to stop'' @ [LF] @ [LF]"

subsection \<open>The server object\<close>

text \<open>The TCP server and the store with its data file.\<close>

type_synonym kv_service = "server \<times> kvserver"

definition service_new :: "nat \<Rightarrow> 16 word \<Rightarrow> string \<Rightarrow> (nat \<Rightarrow> rat) \<Rightarrow> kv_service" where
  "service_new base prt nm draws = (tcp_new base (inet_of_port prt False) nm, srv_new kDefaultMaxLevel draws)"

definition service_setThreadNum :: "int \<Rightarrow> kv_service \<Rightarrow> kv_service" where
  "service_setThreadNum n = (\<lambda>(t, k). (tcp_setThreadNum n t, k))"

text \<open>\<open>start\<close>: no initialisation callback is set.\<close>

definition service_start :: "(nat \<Rightarrow> nat) \<Rightarrow> kv_service \<Rightarrow> kv_service \<times> seffect list" where
  "service_start mk = (\<lambda>(t, k). case tcp_start mk False t of (t', inits, es) \<Rightarrow> ((t', k), es))"

text \<open>The destructor saves once more, then the TCP server goes.\<close>

definition service_dtor :: "filesys \<Rightarrow> kv_service \<Rightarrow> (filesys \<times> seffect list) option" where
  "service_dtor fs = (\<lambda>(t, k). map_option (\<lambda>fs'. (fs', tcp_dtor t)) (srv_dtor fs k))"

subsection \<open>The program\<close>

text \<open>From the options to the loop: what is printed, the service as it enters the loop, and what it put on the loop.\<close>

definition service_boot :: "nat \<Rightarrow> (nat \<Rightarrow> nat) \<Rightarrow> (nat \<Rightarrow> rat) \<Rightarrow> srv_conf \<Rightarrow> filesys \<Rightarrow> (kv_service \<times> seffect list) option" where
  "service_boot base mk draws conf fs =
     (case service_setThreadNum (confThreads conf) (service_new base (word_of_int (confPort conf)) ''ReactorKV'' draws) of
        (t, k) \<Rightarrow> do {
          k1 \<leftarrow> (if confData conf \<noteq> [] then map_option fst (loadData (confData conf) fs k) else Some k);
          Some (service_start mk (t, k1)) })"

text \<open>
  After the loop: standard output, standard error, and the files.  The device can be full, so the result of the
  save is the code's.
\<close>

definition service_finish :: "string \<Rightarrow> filesys \<Rightarrow> kv_service \<Rightarrow> (string \<times> string \<times> filesys) option" where
  "service_finish file fs = (\<lambda>(t, k). do {
     (fs1, k1, out, err) \<leftarrow>
       (if file \<noteq> [] then do {
          (fs1, k1, ok) \<leftarrow> saveData file fs k;
          Some (if ok then (fs1, k1, ''Data saved to '' @ file @ [LF], []) else (fs1, k1, [], ''Failed to save data'' @ [LF])) }
        else Some (fs, k, [], []));
     (fs2, es) \<leftarrow> service_dtor fs1 (t, k1);
     Some ([LF] @ ''Shutting down...'' @ [LF] @ out @ ''Server stopped.'' @ [LF], err, fs2) })"

text \<open>The handler of SIGINT and SIGTERM asks the loop to quit, when \<open>main\<close> has set one.\<close>

definition signalHandler :: "bool \<Rightarrow> 'f loop option \<Rightarrow> 'f loop option" where
  "signalHandler inLoop g_loop = map_option (quitLoop inLoop) g_loop"

text \<open>\<open>run\<close> is the loop: None when it does not return.  The result is the exit code, what was printed, and the files.\<close>

definition server_main :: "nat \<Rightarrow> (nat \<Rightarrow> nat) \<Rightarrow> (nat \<Rightarrow> rat) \<Rightarrow> (kv_service \<Rightarrow> kv_service option) \<Rightarrow> string \<Rightarrow>
    srv_opt list \<Rightarrow> filesys \<Rightarrow> (int \<times> string \<times> string \<times> filesys) option" where
  "server_main base mk draws run prog opts fs =
     (case srv_options prog opts conf_default of
        Inl (code, out) \<Rightarrow> Some (code, out, [], fs)
      | Inr conf \<Rightarrow> do {
          (s, es) \<leftarrow> service_boot base mk draws conf fs;
          s' \<leftarrow> run s;
          (out, err, fs') \<leftarrow> service_finish (confData conf) fs s';
          Some (0, srv_banner conf @ out, err, fs') })"

subsection \<open>What the options say\<close>

fun portArg :: "srv_opt \<Rightarrow> int option" where
  "portArg (SrvPort a) = Some (atoi a)"
| "portArg _ = None"

fun threadsArg :: "srv_opt \<Rightarrow> int option" where
  "threadsArg (SrvThreads a) = Some (atoi a)"
| "threadsArg _ = None"

fun dataArg :: "srv_opt \<Rightarrow> string option" where
  "dataArg (SrvData a) = Some a"
| "dataArg _ = None"

definition lastOr :: "'a \<Rightarrow> ('b \<Rightarrow> 'a option) \<Rightarrow> 'b list \<Rightarrow> 'a" where
  "lastOr d f os = last (d # List.map_filter f os)"

definition serving :: "srv_opt list \<Rightarrow> bool" where
  "serving opts \<longleftrightarrow> SrvHelp \<notin> set opts \<and> SrvBad \<notin> set opts"

lemma lastOr_simps [simp]: "lastOr d f [] = d" "lastOr d f (x # os) = lastOr (case f x of None \<Rightarrow> d | Some y \<Rightarrow> y) f os"
  by (auto simp: lastOr_def List.map_filter_def split: option.splits)

lemma srv_options_spec: "serving opts \<Longrightarrow> srv_options prog opts conf =
  Inr \<lparr>confPort = lastOr (confPort conf) portArg opts, confThreads = lastOr (confThreads conf) threadsArg opts,
    confData = lastOr (confData conf) dataArg opts\<rparr>"
  by (induction prog opts conf rule: srv_options.induct) (simp_all add: serving_def)

lemma srv_options_usage: "\<not> serving opts \<Longrightarrow> srv_options prog opts conf = Inl (0, srv_usage prog)"
  by (induction prog opts conf rule: srv_options.induct) (auto simp: serving_def)

lemma service_boot_ok:
  "\<exists>k. service_boot base mk draws conf fs =
     Some ((started_server base (inet_of_port (word_of_int (confPort conf)) False) ''ReactorKV'' (confThreads conf) mk, k),
       [RunInLoop base Listen]) \<and>
   main_start kDefaultMaxLevel draws (confData conf) fs = Some k \<and> kv_inv (store_of k) \<and> dataFile k = confData conf \<and>
   kv_map (store_of k) = (if confData conf = [] then Map.empty
     else case fileText fs (confData conf) of None \<Rightarrow> Map.empty | Some body \<Rightarrow> map_of (rev (readPairs body)))"
proof -
  obtain k where k: "main_start kDefaultMaxLevel draws (confData conf) fs = Some k" "kv_inv (store_of k)"
      "dataFile k = confData conf" "kv_map (store_of k) = (if confData conf = [] then Map.empty
     else case fileText fs (confData conf) of None \<Rightarrow> Map.empty | Some body \<Rightarrow> map_of (rev (readPairs body)))"
  proof (cases "confData conf = []")
    case True
    then show ?thesis by (intro that [of "srv_new kDefaultMaxLevel draws"]) (simp_all add: main_start_def srv_new_def)
  next
    case False
    with main_start_inv [OF False, of kDefaultMaxLevel draws fs] show ?thesis by (auto intro: that)
  qed
  then show ?thesis
    by (auto simp: service_boot_def service_setThreadNum_def service_new_def service_start_def main_start_def
        started_server_def tcp_start_def tcp_setThreadNum_def tcp_new_def Let_def split: prod.splits if_splits)
qed

lemma any_address: "toIpPort (inet_of_port (word_of_int i) False) = ''0.0.0.0:'' @ to_string (i mod 65536)"
proof -
  have "uint (word_of_int i :: 16 word) = i mod 65536" by (simp add: uint_word_of_int)
  then have "unat (word_of_int i :: 16 word) = nat (i mod 65536)" by (simp add: unat_eq_nat_uint)
  moreover have "inet_ntop INADDR_ANY = ''0.0.0.0''" by code_simp
  ultimately show ?thesis
    by (simp add: toIpPort_eq toIp_def inet_port_def inet_of_port_def ntohs_htons to_string_def)
qed

lemma save_twice:
  assumes "kv_inv (store_of k)" "file \<noteq> []"
  shows "saveData file fs k = Some (if canCreate fs file
      then fs\<lparr>fileText := (fileText fs)(file \<mapsto> take (room fs file) (dumpText (kv_list (store_of k))))\<rparr> else fs,
      k\<lparr>dataFile := file\<rparr>, canCreate fs file)"
  using kv_save_inv [OF assms] assms(2) by (cases "canCreate fs file") (simp_all add: saveData_def kv_save_def dumpFile_def)

text \<open>The files after the last save.\<close>

definition savedFiles :: "string \<Rightarrow> filesys \<Rightarrow> kvstore \<Rightarrow> filesys" where
  "savedFiles file fs st =
     (if file \<noteq> [] \<and> canCreate fs file
      then fs\<lparr>fileText := (fileText fs)(file \<mapsto> take (room fs file) (dumpText (kv_list st)))\<rparr> else fs)"

lemma service_finish_ok:
  assumes "kv_inv (store_of k)" "dataFile k = file"
  shows "service_finish file fs (t, k) = Some ([LF] @ ''Shutting down...'' @ [LF] @
      (if file \<noteq> [] \<and> canCreate fs file then ''Data saved to '' @ file @ [LF] else []) @ ''Server stopped.'' @ [LF],
      if file \<noteq> [] \<and> \<not> canCreate fs file then ''Failed to save data'' @ [LF] else [], savedFiles file fs (store_of k))"
proof (cases "file = []")
  case True
  with assms show ?thesis by (simp add: service_finish_def service_dtor_def srv_dtor_def savedFiles_def)
next
  case False
  then show ?thesis using save_twice [OF assms(1) False, of fs] kv_save_inv [OF assms(1) False]
    by (cases "canCreate fs file") (simp_all add: service_finish_def service_dtor_def srv_dtor_def savedFiles_def kv_save_def dumpFile_def)
qed

subsection \<open>Properties\<close>




text \<open>A loop in which one client stores a pair, for the witness.\<close>

definition one_put :: "kv_service \<Rightarrow> kv_service option" where
  "one_put = (\<lambda>(t, k). map_option (\<lambda>(b, st, es). (t, k\<lparr>store_of := st\<rparr>)) (receive (''PUT a 1'' @ [LF]) (buf_new 64, store_of k)))"

lemma one_put_ok: "kv_inv (store_of (snd s)) \<Longrightarrow>
  \<exists>t k. one_put s = Some (t, k) \<and> kv_inv (store_of k) \<and> dataFile k = dataFile (snd s)"
  using receive_spec [OF buf_new_inv(1), of "store_of (snd s)" "''PUT a 1'' @ [LF]" 64]
  by (cases s) (auto simp: one_put_def kExtraBuf_def)


end
