(* ===== verification/Server_Exit.thy ===== *)
theory Server_Exit
  imports Live_Server_Properties Server_Main
begin

text \<open>
  The end of the running server: \<open>main\<close> (\<open>src/server/main.cpp\<close>) after its loop has been left, with the destructors of
  \<open>KVServer\<close> (\<open>kv_server.cpp\<close>), of its store, of \<open>TcpServer\<close> (\<open>tcp_server.cpp\<close>) and of the pool
  (\<open>eventloop_thread_pool.cpp\<close>, \<open>eventloop_thread.cpp\<close>), in the order of C++.  The loops of the pool go on until they are
  joined, so their tasks and events interleave with the steps of the main thread.
\<close>

subsection \<open>The main thread\<close>

text \<open>
  Where the main thread is.  The members of \<open>KVServer\<close> are destroyed in reverse order, the store before the TCP server.
  \<open>Handing\<close> has the pairs of the connection map that are still to be handed over, \<open>JoinPool\<close> the loops that are still to be
  joined.  \<open>StoreMisused\<close>: a worker has used the destroyed store, and nothing can be said any more.
\<close>

datatype exit_phase = LoopRuns | LoopLeft | SavedOnce | SavedAgain | StoreGone | Handing "(string \<times> tconn) list" | JoinPool "nat list"
  | MainDone | StoreMisused

record exiting =
  exitPhase :: exit_phase
  exitWorld :: world
  exitFiles :: filesys
  joined :: "nat set"

text \<open>A connection is known by its place among those ever made.\<close>

definition placeOf :: "'a \<Rightarrow> 'a list \<Rightarrow> nat" where
  "placeOf c cs = length (takeWhile (\<lambda>c'. c' \<noteq> c) cs)"

definition theService :: "string \<Rightarrow> world \<Rightarrow> kvserver" where
  "theService file w = \<lparr>store_of = storeOf w, dataFile = file\<rparr>"

text \<open>\<open>~TcpServer\<close> for one entry of the map, in the main thread: \<open>runInLoop\<close> of \<open>connectDestroyed\<close>.\<close>

definition hand_conn :: "tconn \<Rightarrow> world \<Rightarrow> world option" where
  "hand_conn c w = hand_over (\<lambda>n. Inr 0) (baseOf (tcpOf w)) (placeOf c (everMade w)) [RunInLoop (ioLoop c) (ConnectDestroyed c)] w"

text \<open>
  One step of the main thread.  Leaving the loop is a step of its own, since the signal can come at any time; \<open>saveData\<close> and the
  save of \<open>~KVServer\<close> hold the mutex of the list.  A thread of the pool is joined when its loop has returned; what is left in the
  queue of that loop is dropped with it.
\<close>

definition main_next :: "string \<Rightarrow> exiting \<Rightarrow> exiting option" where
  "main_next file s = (case exitPhase s of
     LoopRuns \<Rightarrow> Some (s\<lparr>exitPhase := LoopLeft\<rparr>)
   | LoopLeft \<Rightarrow>
       if file \<noteq> [] then map_option (\<lambda>(fs, k, ok). s\<lparr>exitPhase := SavedOnce, exitFiles := fs\<rparr>)
         (saveData file (exitFiles s) (theService file (exitWorld s)))
       else Some (s\<lparr>exitPhase := SavedOnce\<rparr>)
   | SavedOnce \<Rightarrow> map_option (\<lambda>fs. s\<lparr>exitPhase := SavedAgain, exitFiles := fs\<rparr>)
       (srv_dtor (exitFiles s) (theService file (exitWorld s)))
   | SavedAgain \<Rightarrow> map_option (\<lambda>st. s\<lparr>exitPhase := StoreGone, exitWorld := (exitWorld s)\<lparr>storeOf := st\<rparr>\<rparr>)
       (kv_dtor (storeOf (exitWorld s)))
   | StoreGone \<Rightarrow> Some (s\<lparr>exitPhase := Handing (connections (tcpOf (exitWorld s)))\<rparr>)
   | Handing [] \<Rightarrow> Some (s\<lparr>exitPhase := JoinPool (loops (threadPool (tcpOf (exitWorld s))))\<rparr>)
   | Handing (x # cs) \<Rightarrow> map_option (\<lambda>w. s\<lparr>exitPhase := Handing cs, exitWorld := w\<rparr>) (hand_conn (snd x) (exitWorld s))
   | JoinPool [] \<Rightarrow> Some (s\<lparr>exitPhase := MainDone\<rparr>)
   | JoinPool (l # ls) \<Rightarrow> Some (s\<lparr>exitPhase := JoinPool ls, joined := insert l (joined s)\<rparr>)
   | MainDone \<Rightarrow> None
   | StoreMisused \<Rightarrow> None)"

subsection \<open>The threads of the pool\<close>

definition storeLives :: "exit_phase \<Rightarrow> bool" where
  "storeLives ph \<longleftrightarrow> ph \<in> {LoopLeft, SavedOnce, SavedAgain}"

text \<open>The message callback uses the store when it finds a complete line.\<close>

definition usesStore :: "nat \<Rightarrow> io_event \<Rightarrow> world \<Rightarrow> bool" where
  "usesStore i e w \<longleftrightarrow> (\<exists>d \<in> set (segment_of e (objectOf w i)). LF \<in> set (content (inputBuffer (objectOf w i)) @ d))"

definition working :: "exiting \<Rightarrow> nat \<Rightarrow> bool" where
  "working s l \<longleftrightarrow> exitPhase s \<notin> {LoopRuns, MainDone, StoreMisused} \<and>
     l \<in> set (loops (threadPool (tcpOf (exitWorld s)))) \<and> l \<notin> joined s"

text \<open>Until the main loop is left the server runs as in \<open>Live_Server\<close>; then only the loops of the pool go on.\<close>

inductive exit_step :: "int set \<Rightarrow> string \<Rightarrow> exiting \<Rightarrow> exiting \<Rightarrow> bool" for own dataPath where
  serves: "exitPhase s = LoopRuns \<Longrightarrow> world_step own (exitWorld s) w \<Longrightarrow> exit_step own dataPath s (s\<lparr>exitWorld := w\<rparr>)"
| main: "main_next dataPath s = Some s' \<Longrightarrow> exit_step own dataPath s s'"
| worker_task: "working s l \<Longrightarrow> queueOf (exitWorld s) l = t # ts \<Longrightarrow>
    perform_task ws t ((exitWorld s)\<lparr>queueOf := (queueOf (exitWorld s))(l := ts)\<rparr>) = Some w \<Longrightarrow>
    exit_step own dataPath s (s\<lparr>exitWorld := w\<rparr>)"
| worker_event: "i < length (everMade (exitWorld s)) \<Longrightarrow> i \<notin> gone (exitWorld s) \<Longrightarrow> working s (loopAt (exitWorld s) i) \<Longrightarrow>
    watched (exitWorld s) i \<Longrightarrow> storeLives (exitPhase s) \<or> \<not> usesStore i e (exitWorld s) \<Longrightarrow>
    world_event i e (exitWorld s) = Some w \<Longrightarrow> exit_step own dataPath s (s\<lparr>exitWorld := w\<rparr>)"
| worker_misuse: "i < length (everMade (exitWorld s)) \<Longrightarrow> i \<notin> gone (exitWorld s) \<Longrightarrow> working s (loopAt (exitWorld s) i) \<Longrightarrow>
    watched (exitWorld s) i \<Longrightarrow> \<not> storeLives (exitPhase s) \<Longrightarrow> usesStore i e (exitWorld s) \<Longrightarrow>
    exit_step own dataPath s (s\<lparr>exitPhase := StoreMisused\<rparr>)"

inductive exit_reachable :: "int set \<Rightarrow> string \<Rightarrow> exiting \<Rightarrow> exiting \<Rightarrow> bool" for own dataPath s0 where
  init: "exit_reachable own dataPath s0 s0"
| step: "exit_reachable own dataPath s0 s \<Longrightarrow> exit_step own dataPath s s' \<Longrightarrow> exit_reachable own dataPath s0 s'"

definition exit_new :: "filesys \<Rightarrow> world \<Rightarrow> exiting" where
  "exit_new fs w = \<lparr>exitPhase = LoopRuns, exitWorld = w, exitFiles = fs, joined = {}\<rparr>"

end
