(* ===== verification/Server_Exit_Correct.thy ===== *)
theory Server_Exit_Correct
  imports Server_Exit
begin

text \<open>
  What the end of the server keeps: the steps of the workers are steps of the running server as long as the store lives, every
  step extends the log of the segments read, and the main thread works on the map and the objects it finds.
\<close>

subsection \<open>What a step leaves alone\<close>

definition samePool :: "world \<Rightarrow> world \<Rightarrow> bool" where
  "samePool w w' \<longleftrightarrow> loops (threadPool (tcpOf w')) = loops (threadPool (tcpOf w)) \<and> baseOf (tcpOf w') = baseOf (tcpOf w) \<and>
     everMade w' = everMade w \<and> set (connections (tcpOf w')) \<subseteq> set (connections (tcpOf w))"

lemma samePool_trans: "samePool w w1 \<Longrightarrow> samePool w1 w2 \<Longrightarrow> samePool w w2"
  by (auto simp: samePool_def)

lemma samePool_simps [simp]:
  "samePool w w" "samePool (w\<lparr>queueOf := q\<rparr>) w' = samePool w w'" "samePool w (w\<lparr>queueOf := q\<rparr>)"
  "samePool w (enqueue l ts w)" "samePool w (breaks i ws w') = samePool w w'" "samePool w (put_conn i c p es w') = samePool w w'"
  "samePool w (w'\<lparr>gone := g\<rparr>) = samePool w w'" "samePool w (w'\<lparr>storeOf := st, segLog := sg\<rparr>) = samePool w w'"
  by (simp_all add: samePool_def enqueue_def breaks_def put_conn_def)

lemma perform_task_pool: "perform_task ws t w = Some w' \<Longrightarrow> samePool w w' \<and> segLog w' = segLog w"
proof (cases t)
  case (Remove i)
  moreover assume "perform_task ws t w = Some w'"
  ultimately show ?thesis by (auto simp: task_remove_def removeConnectionInLoop_def samePool_def enqueue_def alDelete_def)
qed (auto simp: task_establish_def task_destroy_def split: Option.bind_splits)

lemma run_task_pool: "run_task ws ts w = Some w' \<Longrightarrow> samePool w w' \<and> segLog w' = segLog w"
  by (induction ts arbitrary: w) (fastforce split: Option.bind_splits dest: perform_task_pool intro: samePool_trans)+

lemma hand_over_pool: "hand_over ws cur i es w = Some w' \<Longrightarrow> samePool w w' \<and> segLog w' = segLog w"
proof (induction ws cur i es w rule: hand_over.induct)
  case (2 ws cur i l a es w)
  show ?case
  proof (cases "l = cur")
    case True
    with "2.prems" obtain w1 where w1: "run_task ws (taskOf i a) w = Some w1" "hand_over ws cur i es w1 = Some w'"
      by (auto split: Option.bind_splits)
    from "2.IH"(1) [OF True w1] run_task_pool [OF w1(1)] show ?thesis by (auto intro: samePool_trans)
  next
    case False
    with "2.prems" "2.IH"(2) [OF False] show ?thesis by (auto simp: samePool_def)
  qed
next
  case (3 ws cur i l a es w)
  then show ?case by (auto simp: samePool_def)
qed simp

lemma world_event_pool: "world_event i e w = Some w' \<Longrightarrow> samePool w w' \<and> (\<exists>ds. segLog w' = segLog w @ ds)"
proof -
  assume "world_event i e w = Some w'"
  then obtain c p st es where e: "(let w1 = breaks i (writes_of e) ((put_conn i c p es w)\<lparr>storeOf := st,
      segLog := segLog w @ map (Pair i) (segment_of e (objectOf w i))\<rparr>) in
      if CloseCallback \<in> set es then hand_over (writes_of e) (loopAt w i) i (removeConnection (everMade w ! i) (tcpOf w)) w1 else Some w1) = Some w'"
    by (auto simp: world_event_def split: Option.bind_splits)
  define w1 where "w1 = breaks i (writes_of e) ((put_conn i c p es w)\<lparr>storeOf := st,
      segLog := segLog w @ map (Pair i) (segment_of e (objectOf w i))\<rparr>)"
  have w1: "w' = w1 \<or> hand_over (writes_of e) (loopAt w i) i (removeConnection (everMade w ! i) (tcpOf w)) w1 = Some w'"
    using e by (auto simp: w1_def [symmetric] Let_def split: if_splits)
  have "samePool w w1 \<and> segLog w1 = segLog w @ map (Pair i) (segment_of e (objectOf w i))" by (simp add: w1_def)
  with w1 show ?thesis by (auto dest!: hand_over_pool intro: samePool_trans)
qed

lemma hand_conn_pool: "hand_conn c w = Some w' \<Longrightarrow> samePool w w' \<and> segLog w' = segLog w"
  unfolding hand_conn_def by (rule hand_over_pool)

lemma world_step_pool: "world_step own w w' \<Longrightarrow> loops (threadPool (tcpOf w')) = loops (threadPool (tcpOf w)) \<and>
    baseOf (tcpOf w') = baseOf (tcpOf w)"
proof (induction rule: world_step.induct)
  case (arrives f w ws peer local w')
  obtain s c es where nc: "newConnection f peer local (tcpOf w) = (s, c, es)" by (cases "newConnection f peer local (tcpOf w)")
  then have "loops (threadPool s) = loops (threadPool (tcpOf w)) \<and> baseOf s = baseOf (tcpOf w)"
    by (auto simp: newConnection_def getNextLoop_def Let_def split: prod.splits if_splits)
  with arrives(2) nc show ?case by (auto simp: world_accept_def Let_def samePool_def dest!: hand_over_pool)
next
  case (task w l t ts ws w')
  then show ?case using perform_task_pool [OF task(2)] by (simp add: samePool_def)
next
  case (event i w e w')
  then show ?case using world_event_pool [OF event(4)] by (simp add: samePool_def)
qed

subsection \<open>Destroying a connection in any state\<close>

lemma destroys_any:
  assumes "wellConn c p" "cstate c = kConnected \<longrightarrow> hasConnectionCb c"
  shows "\<exists>c' p'. connectDestroyed interest_ctl c p = Some (c', p', if cstate c = kConnected then [ConnectionCallback False] else []) \<and>
    keeps c p c' p' \<and> kernel p' (fd (chan c)) = None"
proof -
  have ch: "chan_ok (\<lambda>k. k) (chan c) p" using assms(1) by (simp add: conn_ok_def)
  show ?thesis
  proof (cases "cstate c = kConnected")
    case True
    from ep.on_chan_ok [of "c\<lparr>cstate := kDisconnected\<rparr>" p DisableAll] ch obtain ch1 p1 where
      d: "on_chan (disableAll interest_ctl) (c\<lparr>cstate := kDisconnected\<rparr>) p = Some (c\<lparr>cstate := kDisconnected, chan := ch1\<rparr>, p1)"
        "chan_ok (\<lambda>k. k) ch1 p1" by auto
    have f: "fd ch1 = fd (chan c)" using on_chan_keeps_ops(4) [OF d(1)] by (simp add: keeps_def)
    from ep.chan_remove_ok [OF d(2)] obtain ch2 p2 where
      r: "chan_remove interest_ctl ch1 p1 = Some (ch2, p2)" "kernel p2 (fd ch1) = None" by blast
    have e: "connectDestroyed interest_ctl c p =
        Some (c\<lparr>cstate := kDisconnected, chan := ch2\<rparr>, p2, [ConnectionCallback False])"
    proof -
      have "on_chan (chan_remove interest_ctl) (c\<lparr>cstate := kDisconnected, chan := ch1\<rparr>) p1 =
          Some (c\<lparr>cstate := kDisconnected, chan := ch2\<rparr>, p2)" using r(1) by (simp add: on_chan_def)
      with True assms(2) d(1) show ?thesis by (simp add: connectDestroyed_def)
    qed
    with True r(2) f connectDestroyed_keeps [OF e] show ?thesis by simp
  next
    case False
    from ep.chan_remove_ok [OF ch] obtain ch' p' where
      r: "chan_remove interest_ctl (chan c) p = Some (ch', p')" "kernel p' (fd (chan c)) = None" by blast
    have e: "connectDestroyed interest_ctl c p = Some (c\<lparr>chan := ch'\<rparr>, p', [])"
      using False r(1) by (simp add: connectDestroyed_def on_chan_def)
    with False r(2) connectDestroyed_keeps [OF e] show ?thesis by simp
  qed
qed

lemma placeOf_nth: "distinct cs \<Longrightarrow> i < length cs \<Longrightarrow> placeOf (cs ! i) cs = i"
proof (induction cs arbitrary: i)
  case (Cons c cs)
  then show ?case by (cases i) (auto simp: placeOf_def dest: nth_mem)
qed simp

subsection \<open>A server without threads\<close>

text \<open>The calls of the connection callback of a connection that \<open>~TcpServer\<close> destroys: one that is half closed is not reported.\<close>

fun farewell :: "stage \<Rightarrow> connState \<Rightarrow> bool list" where
  "farewell Starting st = []"
| "farewell Open st = (if st = kConnected then [True, False] else [True])"
| "farewell _ st = [True, False]"

definition mapped :: "stage \<Rightarrow> bool" where
  "mapped st \<longleftrightarrow> st \<in> {Starting, Open, Leaving}"

definition entry :: "world \<Rightarrow> nat \<Rightarrow> string \<times> tconn" where
  "entry w i = (connName (everMade w ! i), everMade w ! i)"

text \<open>\<open>~TcpServer\<close> at work in the main thread on the world \<open>w0\<close>, with the entries \<open>cs\<close> still to come.\<close>

definition tearing :: "int set \<Rightarrow> nat \<Rightarrow> (nat \<Rightarrow> stage) \<Rightarrow> world \<Rightarrow> (string \<times> tconn) list \<Rightarrow> world \<Rightarrow> bool" where
  "tearing own base stg w0 cs w \<longleftrightarrow> everMade w = everMade w0 \<and> queueOf w = queueOf w0 \<and> segLog w = segLog w0 \<and> baseOf (tcpOf w) = base \<and>
     distinct (everMade w0) \<and> (\<forall>i < length (everMade w0). ioLoop (everMade w0 ! i) = base) \<and>
     distinct cs \<and> set cs \<subseteq> entry w0 ` {i. i < length (everMade w0) \<and> mapped (stg i)} \<and>
     (\<forall>i < length (everMade w0).
       (if entry w0 i \<in> set cs then wellConn (objectOf w i) (epollOf w base) \<and> fd (chan (objectOf w i)) = sockfd (everMade w0 ! i) \<and>
          (cstate (objectOf w i) = kConnected \<longrightarrow> hasConnectionCb (objectOf w i)) \<and> i \<notin> gone w \<and>
          cbLog w i @ (if cstate (objectOf w i) = kConnected then [False] else []) = farewell (stg i) (cstate (objectOf w0 i))
        else if mapped (stg i) then i \<in> gone w \<and> cbLog w i = farewell (stg i) (cstate (objectOf w0 i))
        else cbLog w i = [True, False] \<and> (i \<in> gone w \<longleftrightarrow> i \<in> gone w0))) \<and>
     (\<forall>i < length (everMade w0). \<forall>j < length (everMade w0). i \<noteq> j \<longrightarrow> entry w0 i \<in> set cs \<longrightarrow> entry w0 j \<in> set cs \<longrightarrow>
        sockfd (everMade w0 ! i) \<noteq> sockfd (everMade w0 ! j)) \<and>
     (\<forall>l g. kernel (epollOf w l) g \<noteq> None \<longrightarrow> g \<in> own \<or>
        (\<exists>i < length (everMade w0). entry w0 i \<in> set cs \<and> l = base \<and> sockfd (everMade w0 ! i) = g))"

lemma tearing_start:
  assumes inv: "world_inv own (base, addr, nm, n, mk) m0 stg stg rests out w" and n: "n \<le> 0" and b: "length (everMade w) < 2 ^ 31"
  shows "tearing own base stg w (connections (tcpOf w)) (w\<lparr>storeOf := st\<rparr>)"
proof -
  have W: "srv_inv base addr nm n mk (tcpOf w, everMade w)" "tracked (inMap w stg) (tcpOf w, everMade w)" "baseOf (tcpOf w) = base"
    "fds_ok own w stg" "kernel_ok own w stg" using inv by (auto simp: world_inv_def)
  have dn: "distinct (map connName (everMade w))" by (rule inv_names [OF W(1) b])
  have lp: "ioLoop (everMade w ! i) = base" if "i < length (everMade w)" for i
  proof -
    have "map ioLoop (everMade w) ! i = map (loopOf base mk n) [0..<length (everMade w)] ! i" using W(1) by (simp add: srv_inv_def)
    with that n show ?thesis by (simp add: loopOf_def)
  qed
  have cs: "set (connections (tcpOf w)) = entry w ` {i. i < length (everMade w) \<and> mapped (stg i)}" "alSorted (connections (tcpOf w))"
    using W(2) by (auto simp: tracked_def inMap_def entry_def mapped_def)
  have e: "entry w i \<in> set (connections (tcpOf w)) \<longleftrightarrow> mapped (stg i)" if "i < length (everMade w)" for i
    using that nth_eq_iff_index_eq [OF dn, of i] by (fastforce simp: cs(1) entry_def)
  have "distinct (connections (tcpOf w))" using alSorted_distinct [OF cs(2)] by (simp add: distinct_map)
  moreover have "wellConn (objectOf w i) (epollOf w base) \<and> fd (chan (objectOf w i)) = sockfd (everMade w ! i) \<and>
      (cstate (objectOf w i) = kConnected \<longrightarrow> hasConnectionCb (objectOf w i)) \<and> i \<notin> gone w \<and>
      cbLog w i @ (if cstate (objectOf w i) = kConnected then [False] else []) = farewell (stg i) (cstate (objectOf w i))"
    if i: "i < length (everMade w)" and m: "mapped (stg i)" for i
  proof -
    note D = world_invD [OF inv i]
    have l: "loopAt w i = base" by (simp add: loopAt_def lp [OF i])
    from m consider "stg i = Starting" | "stg i = Open" | "stg i = Leaving" by (auto simp: mapped_def)
    then show ?thesis
    proof cases
      case 1
      then have o: "objectOf w i = tcp_callbacks (conn_new i (sockfd (everMade w ! i)))" "kernel (epollOf w base) (sockfd (everMade w ! i)) = None"
        using D(1) l by (simp_all add: life_def)
      then show ?thesis using D(1) 1
        by (simp add: life_def conn_ok_def chan_ok_def tcp_callbacks_def conn_new_def setCallbacks_def channel_new_def isWriting_def
            index_defs event_defs)
    qed (use D(1) l in \<open>auto simp: life_def open_conn_def closed_conn_def\<close>)
  qed
  moreover have "cbLog w i = [True, False]" if i: "i < length (everMade w)" and m: "\<not> mapped (stg i)" for i
    using world_invD(1) [OF inv i] m by (cases "stg i") (simp_all add: life_def mapped_def)
  moreover have "g \<in> own \<or> (\<exists>i < length (everMade w). entry w i \<in> set (connections (tcpOf w)) \<and> l = base \<and> sockfd (everMade w ! i) = g)"
    if k: "kernel (epollOf w l) g \<noteq> None" for l g
  proof (cases "g \<in> own")
    case False
    with W(5) k obtain i where "i < length (everMade w)" "stg i = Open" "loopAt w i = l" "sockfd (everMade w ! i) = g"
      unfolding kernel_ok_def by blast
    with lp e [of i] show ?thesis by (intro disjI2 exI [of _ i]) (simp add: loopAt_def mapped_def)
  qed simp
  moreover have "sockfd (everMade w ! i) \<noteq> sockfd (everMade w ! j)" if "i < length (everMade w)" "j < length (everMade w)" "i \<noteq> j"
    "entry w i \<in> set (connections (tcpOf w))" "entry w j \<in> set (connections (tcpOf w))" for i j
    using W(4) that e [of i] e [of j] by (auto simp: fds_ok_def mapped_def)
  moreover have "distinct (everMade w)" using dn by (simp add: distinct_map)
  moreover have "set (connections (tcpOf w)) \<subseteq> entry w ` {i. i < length (everMade w) \<and> mapped (stg i)}" by (simp add: cs(1))
  ultimately show ?thesis using W(3) lp e unfolding tearing_def by simp
qed

lemma tearing_hand:
  assumes t: "tearing own base stg w0 (x # cs) w"
  shows "\<exists>w'. hand_conn (snd x) w = Some w' \<and> tearing own base stg w0 cs w'"
proof -
  let ?n = "length (everMade w0)"
  have T: "everMade w = everMade w0" "queueOf w = queueOf w0" "segLog w = segLog w0" "baseOf (tcpOf w) = base" "distinct (everMade w0)"
    "\<And>i. i < ?n \<Longrightarrow> ioLoop (everMade w0 ! i) = base" "distinct (x # cs)"
    using t by (auto simp: tearing_def)
  obtain k where k: "k < ?n" "mapped (stg k)" "x = entry w0 k" using t by (auto simp: tearing_def)
  have es: "entry w0 i = entry w0 k \<longleftrightarrow> i = k" if "i < ?n" for i
    using nth_eq_iff_index_eq [OF T(5) that k(1)] by (auto simp: entry_def)
  have xk: "entry w0 k \<in> set (x # cs)" "entry w0 k \<notin> set cs" using k(3) T(7) by auto
  let ?o = "objectOf w k" and ?p = "epollOf w base" and ?f = "sockfd (everMade w0 ! k)"
  have o: "wellConn ?o ?p" "fd (chan ?o) = ?f" "cstate ?o = kConnected \<longrightarrow> hasConnectionCb ?o"
    "cbLog w k @ (if cstate ?o = kConnected then [False] else []) = farewell (stg k) (cstate (objectOf w0 k))"
    using t k(1) xk(1) by (auto simp: tearing_def)
  let ?es = "if cstate ?o = kConnected then [ConnectionCallback False] else []"
  obtain c p where d: "connectDestroyed interest_ctl ?o ?p = Some (c, p, ?es)" "keeps ?o ?p c p" "kernel p ?f = None"
    using destroys_any [OF o(1,3)] o(2) by auto
  have l: "loopAt w k = base" using T(1) T(6) [OF k(1)] by (simp add: loopAt_def)
  define w' where "w' = (put_conn k c p ?es w)\<lparr>gone := insert k (gone w)\<rparr>"
  have W': "everMade w' = everMade w" "queueOf w' = queueOf w" "segLog w' = segLog w" "tcpOf w' = tcpOf w"
    "\<And>i. i \<noteq> k \<Longrightarrow> objectOf w' i = objectOf w i \<and> cbLog w' i = cbLog w i \<and> (i \<in> gone w' \<longleftrightarrow> i \<in> gone w)" "k \<in> gone w'"
    "cbLog w' k = farewell (stg k) (cstate (objectOf w0 k))" "\<And>l. l \<noteq> base \<Longrightarrow> epollOf w' l = epollOf w l" "epollOf w' base = p"
    using l o(4) by (auto simp: w'_def put_conn_def)
  have kn: "kernel p g = kernel ?p g" "channels p g = channels ?p g" if "g \<noteq> ?f" for g
    using d(2) o(2) that by (simp_all add: keeps_def)
  have "hand_conn (snd x) w = Some w'"
  proof -
    have "snd x = everMade w0 ! k" by (simp add: k(3) entry_def)
    moreover have "placeOf (everMade w0 ! k) (everMade w) = k" using placeOf_nth [OF T(5) k(1)] T(1) by simp
    ultimately show ?thesis using T(4) T(6) [OF k(1)] d(1) l by (simp add: hand_conn_def task_destroy_def w'_def)
  qed
  moreover have "tearing own base stg w0 cs w'"
    unfolding tearing_def W'(1-4) T(1-4)
  proof (intro conjI allI impI)
    fix i assume i: "i < ?n"
    have ne: "sockfd (everMade w0 ! i) \<noteq> ?f" if "entry w0 i \<in> set cs"
    proof -
      have "i \<noteq> k" using that xk(2) by auto
      with t that i k(1) xk(1) show ?thesis by (auto simp: tearing_def)
    qed
    show "if entry w0 i \<in> set cs then wellConn (objectOf w' i) (epollOf w' base) \<and> fd (chan (objectOf w' i)) = sockfd (everMade w0 ! i) \<and>
          (cstate (objectOf w' i) = kConnected \<longrightarrow> hasConnectionCb (objectOf w' i)) \<and> i \<notin> gone w' \<and>
          cbLog w' i @ (if cstate (objectOf w' i) = kConnected then [False] else []) = farewell (stg i) (cstate (objectOf w0 i))
        else if mapped (stg i) then i \<in> gone w' \<and> cbLog w' i = farewell (stg i) (cstate (objectOf w0 i))
        else cbLog w' i = [True, False] \<and> (i \<in> gone w' \<longleftrightarrow> i \<in> gone w0)"
    proof (cases "i = k")
      case True
      with xk k(2) W'(6,7) show ?thesis by simp
    next
      case False
      then have in_iff: "entry w0 i \<in> set (x # cs) \<longleftrightarrow> entry w0 i \<in> set cs" using es [OF i] k(3) by auto
      have "wellConn (objectOf w i) p" if c: "entry w0 i \<in> set cs"
      proof -
        have "wellConn (objectOf w i) ?p" "fd (chan (objectOf w i)) = sockfd (everMade w0 ! i)"
          using t i c by (auto simp: tearing_def)
        with kn [OF ne [OF c]] show ?thesis by (intro wellConn_cong [of p "objectOf w i" ?p]) simp_all
      qed
      moreover have "if entry w0 i \<in> set (x # cs) then wellConn (objectOf w i) ?p \<and> fd (chan (objectOf w i)) = sockfd (everMade w0 ! i) \<and>
          (cstate (objectOf w i) = kConnected \<longrightarrow> hasConnectionCb (objectOf w i)) \<and> i \<notin> gone w \<and>
          cbLog w i @ (if cstate (objectOf w i) = kConnected then [False] else []) = farewell (stg i) (cstate (objectOf w0 i))
        else if mapped (stg i) then i \<in> gone w \<and> cbLog w i = farewell (stg i) (cstate (objectOf w0 i))
        else cbLog w i = [True, False] \<and> (i \<in> gone w \<longleftrightarrow> i \<in> gone w0)"
        using t i unfolding tearing_def by blast
      ultimately show ?thesis using W'(5) [OF False] W'(9) unfolding in_iff by simp
    qed
  next
    fix i j assume "i < ?n" "j < ?n" "i \<noteq> j" "entry w0 i \<in> set cs" "entry w0 j \<in> set cs"
    with t show "sockfd (everMade w0 ! i) \<noteq> sockfd (everMade w0 ! j)" by (auto simp: tearing_def)
  next
    fix l g assume g: "kernel (epollOf w' l) g \<noteq> None"
    have gk: "\<not> (l = base \<and> g = ?f)" using g d(3) W'(9) by auto
    then have "kernel (epollOf w l) g \<noteq> None" using g W'(8,9) kn(1) [of g] by (cases "l = base") auto
    then have "g \<in> own \<or> (\<exists>i < ?n. entry w0 i \<in> set (x # cs) \<and> l = base \<and> sockfd (everMade w0 ! i) = g)"
      using t unfolding tearing_def by blast
    with gk k(3) es show "g \<in> own \<or> (\<exists>i < ?n. entry w0 i \<in> set cs \<and> l = base \<and> sockfd (everMade w0 ! i) = g)" by auto
  qed (use t in \<open>auto simp: tearing_def\<close>)
  ultimately show ?thesis by blast
qed

subsection \<open>The invariant\<close>

lemma srv_dtor_saves: "kv_inv st \<Longrightarrow> srv_dtor fs \<lparr>store_of = st, dataFile = dataPath\<rparr> = Some (savedFiles dataPath fs st)"
  using kv_save_inv [of st dataPath fs]
  by (cases "dataPath = []"; cases "canCreate fs dataPath") (auto simp: srv_dtor_def savedFiles_def kv_save_def dumpFile_def)

lemma savedFiles_again [simp]: "savedFiles dataPath (savedFiles dataPath fs a) b = savedFiles dataPath fs b"
  by (simp add: savedFiles_def)

fun stillToCome :: "exit_phase \<Rightarrow> world \<Rightarrow> (string \<times> tconn) list option" where
  "stillToCome StoreGone w = Some (connections (tcpOf w))"
| "stillToCome (Handing cs) w = Some cs"
| "stillToCome (JoinPool ls) w = Some []"
| "stillToCome MainDone w = Some []"
| "stillToCome ph w = None"

definition exit_inv :: "int set \<Rightarrow> nat \<Rightarrow> int \<Rightarrow> (nat \<Rightarrow> nat) \<Rightarrow> world \<Rightarrow> filesys \<Rightarrow> string \<Rightarrow> exiting \<Rightarrow> bool" where
  "exit_inv own base n mk W fs dataPath s \<longleftrightarrow>
     loops (threadPool (tcpOf (exitWorld s))) = map mk [0..<nat n] \<and> baseOf (tcpOf (exitWorld s)) = base \<and>
     (exitPhase s \<in> {LoopRuns, LoopLeft, SavedOnce, SavedAgain} \<longrightarrow> world_reachable own W (exitWorld s)) \<and>
     (exitPhase s \<in> {LoopRuns, LoopLeft} \<longrightarrow> exitFiles s = fs) \<and>
     (exitPhase s \<notin> {LoopRuns, LoopLeft} \<longrightarrow> (\<exists>w1 ds. world_reachable own W w1 \<and> exitFiles s = savedFiles dataPath fs (storeOf w1) \<and>
        segLog (exitWorld s) = segLog w1 @ ds \<and> length (everMade w1) \<le> length (everMade (exitWorld s)) \<and> (n \<le> 0 \<longrightarrow> ds = []))) \<and>
     (n \<le> 0 \<longrightarrow> exitPhase s \<noteq> StoreMisused \<and> (\<forall>cs. stillToCome (exitPhase s) (exitWorld s) = Some cs \<longrightarrow>
        (\<exists>w0 stg. world_reachable own W w0 \<and> (\<forall>i < length (everMade w0). stageOf w0 i = stg i) \<and> tearing own base stg w0 cs (exitWorld s)))) \<and>
     (0 < n \<longrightarrow> (\<forall>cs. stillToCome (exitPhase s) (exitWorld s) = Some cs \<longrightarrow> (\<forall>x \<in> set cs. ioLoop (snd x) \<in> mk ` {..<nat n})))"

text \<open>A worker with its loop.\<close>

lemma working_threads: "exit_inv own base n mk W fs dataPath s \<Longrightarrow> working s l \<Longrightarrow> 0 < n \<and> l \<in> mk ` {..<nat n}"
  by (cases "0 < n") (auto simp: exit_inv_def working_def)

lemma stillToCome_pool: "samePool w w' \<Longrightarrow> stillToCome ph w' = Some cs' \<Longrightarrow> \<exists>cs. stillToCome ph w = Some cs \<and> set cs' \<subseteq> set cs"
  by (cases ph) (auto simp: samePool_def)

lemma worker_inv:
  assumes inv: "exit_inv own base n mk W fs dataPath s" and l: "working s l"
    and p: "samePool (exitWorld s) w" "segLog w = segLog (exitWorld s) @ es"
    and r: "exitPhase s \<in> {LoopRuns, LoopLeft, SavedOnce, SavedAgain} \<Longrightarrow> world_step own (exitWorld s) w"
  shows "exit_inv own base n mk W fs dataPath (s\<lparr>exitWorld := w\<rparr>)"
proof -
  have n: "0 < n" using working_threads [OF inv l] by simp
  have "\<exists>w1 ds. world_reachable own W w1 \<and> exitFiles s = savedFiles dataPath fs (storeOf w1) \<and> segLog w = segLog w1 @ ds \<and>
      length (everMade w1) \<le> length (everMade w)" if "exitPhase s \<notin> {LoopRuns, LoopLeft}"
  proof -
    from inv that obtain w1 ds where "world_reachable own W w1" "exitFiles s = savedFiles dataPath fs (storeOf w1)"
      "segLog (exitWorld s) = segLog w1 @ ds" "length (everMade w1) \<le> length (everMade (exitWorld s))" unfolding exit_inv_def by blast
    with p show ?thesis by (intro exI [of _ w1] exI [of _ "ds @ es"]) (simp add: samePool_def)
  qed
  moreover have "\<forall>x \<in> set cs. ioLoop (snd x) \<in> mk ` {..<nat n}" if c: "stillToCome (exitPhase s) w = Some cs" for cs
  proof -
    obtain cs0 where "stillToCome (exitPhase s) (exitWorld s) = Some cs0" "set cs \<subseteq> set cs0" using stillToCome_pool [OF p(1) c] by blast
    with inv n show ?thesis unfolding exit_inv_def by blast
  qed
  moreover have "exitPhase s \<in> {LoopRuns, LoopLeft, SavedOnce, SavedAgain} \<Longrightarrow> world_reachable own W w"
    using inv r by (auto simp: exit_inv_def intro: world_reachable.step)
  ultimately show ?thesis using inv n p(1) unfolding exit_inv_def by (simp add: samePool_def)
qed

subsection \<open>The main thread always goes on\<close>

abbreviation startWorld :: "nat \<Rightarrow> inet_address \<Rightarrow> string \<Rightarrow> int \<Rightarrow> (nat \<Rightarrow> nat) \<Rightarrow> (nat \<Rightarrow> interest poller) \<Rightarrow> kvstore \<Rightarrow> world" where
  "startWorld base addr nm n mk ps st \<equiv> world_new (started_server base addr nm n mk) ps st"

lemma exit_inv_start: "exit_inv own base n mk (startWorld base addr nm n mk ps st) fs dataPath (exit_new fs (startWorld base addr nm n mk ps st))"
  by (simp add: exit_inv_def exit_new_def world_new_def started_server_eq world_reachable.init)

text \<open>Before the store is destroyed.\<close>

lemma entries_loops:
  assumes "world_inv own (base, addr, nm, n, mk) m0 stg stg rests out w" "x \<in> set (connections (tcpOf w))" "0 < n"
  shows "ioLoop (snd x) \<in> mk ` {..<nat n}"
proof -
  have W: "srv_inv base addr nm n mk (tcpOf w, everMade w)" "tracked (inMap w stg) (tcpOf w, everMade w)"
    using assms(1) by (auto simp: world_inv_def)
  obtain i where i: "i < length (everMade w)" "snd x = everMade w ! i" using W(2) assms(2) by (auto simp: tracked_def inMap_def)
  have "map ioLoop (everMade w) ! i = map (loopOf base mk n) [0..<length (everMade w)] ! i" using W(1) by (simp add: srv_inv_def)
  with i assms(3) show ?thesis by (simp add: loopOf_def)
qed

lemma main_ok:
  assumes inv: "exit_inv own base n mk W fs dataPath s" and W: "W = startWorld base addr nm n mk ps st"
    and h: "\<forall>l g. kernel (ps l) g \<noteq> None \<longrightarrow> g \<in> own" "kv_inv st" "length (everMade (exitWorld s)) < 2 ^ 31 - 1"
      "0 < n \<Longrightarrow> base \<notin> mk ` {..<nat n}"
    and ph: "exitPhase s \<notin> {MainDone, StoreMisused}"
  shows "\<exists>s'. main_next dataPath s = Some s' \<and> exit_inv own base n mk W fs dataPath s' \<and> everMade (exitWorld s') = everMade (exitWorld s)"
proof -
  let ?w = "exitWorld s"
  have P: "loops (threadPool (tcpOf ?w)) = map mk [0..<nat n]" "baseOf (tcpOf ?w) = base" using inv by (auto simp: exit_inv_def)
  have live: "\<exists>stg rests out. world_inv own (base, addr, nm, n, mk) (kv_map st) stg stg rests out ?w" if "world_reachable own W ?w"
    using live_reachable_inv [OF that [unfolded W] h(1-3)] .
  have saved: "\<exists>w1 ds. world_reachable own W w1 \<and> exitFiles s = savedFiles dataPath fs (storeOf w1) \<and>
      segLog ?w = segLog w1 @ ds \<and> length (everMade w1) \<le> length (everMade ?w) \<and> (n \<le> 0 \<longrightarrow> ds = [])"
    if "exitPhase s \<notin> {LoopRuns, LoopLeft}" using inv that unfolding exit_inv_def by blast
  show ?thesis
  proof (cases "exitPhase s")
    case LoopRuns
    with inv show ?thesis by (simp add: main_next_def exit_inv_def)
  next
    case LoopLeft
    then have r: "world_reachable own W ?w" "exitFiles s = fs" using inv by (auto simp: exit_inv_def)
    then obtain stg rests out where "world_inv own (base, addr, nm, n, mk) (kv_map st) stg stg rests out ?w" using live by blast
    then have kv: "kv_inv (storeOf ?w)" by (simp add: world_inv_def)
    have "\<exists>s'. main_next dataPath s = Some s' \<and> s' = s\<lparr>exitPhase := SavedOnce, exitFiles := savedFiles dataPath fs (storeOf ?w)\<rparr>"
    proof (cases "dataPath = []")
      case True
      with LoopLeft r(2) show ?thesis by (simp add: main_next_def savedFiles_def)
    next
      case False
      with LoopLeft r(2) save_twice [of "theService dataPath ?w" dataPath fs] kv show ?thesis
        by (simp add: main_next_def theService_def savedFiles_def)
    qed
    with r P show ?thesis by (auto simp: exit_inv_def)
  next
    case SavedOnce
    then have r: "world_reachable own W ?w" using inv by (auto simp: exit_inv_def)
    then obtain stg rests out where "world_inv own (base, addr, nm, n, mk) (kv_map st) stg stg rests out ?w" using live by blast
    then have kv: "kv_inv (storeOf ?w)" by (simp add: world_inv_def)
    have "exitPhase s \<notin> {LoopRuns, LoopLeft}" using SavedOnce by simp
    from saved [OF this] obtain w1 :: world where "exitFiles s = savedFiles dataPath fs (storeOf w1)" by blast
    with SavedOnce kv have "main_next dataPath s = Some (s\<lparr>exitPhase := SavedAgain, exitFiles := savedFiles dataPath fs (storeOf ?w)\<rparr>)"
      by (simp add: main_next_def theService_def srv_dtor_saves)
    with r P show ?thesis by (auto simp: exit_inv_def)
  next
    case SavedAgain
    then have r: "world_reachable own W ?w" using inv by (auto simp: exit_inv_def)
    then obtain stg rests out where w: "world_inv own (base, addr, nm, n, mk) (kv_map st) stg stg rests out ?w" using live by blast
    then have "kv_inv (storeOf ?w)" by (simp add: world_inv_def)
    from kv_clear_inv [OF this] obtain st' where "kv_dtor (storeOf ?w) = Some st'" by (auto simp: kv_dtor_def kv_clear_def sl_dtor_def)
    with SavedAgain have m: "main_next dataPath s = Some (s\<lparr>exitPhase := StoreGone, exitWorld := ?w\<lparr>storeOf := st'\<rparr>\<rparr>)"
      by (simp add: main_next_def)
    have "tearing own base stg ?w (connections (tcpOf ?w)) (?w\<lparr>storeOf := st'\<rparr>)" if "n \<le> 0"
      by (rule tearing_start [OF w that]) (use h(3) in simp)
    with m r P saved SavedAgain stageOf_inv [OF w] entries_loops [OF w] show ?thesis unfolding exit_inv_def by fastforce
  next
    case StoreGone
    with inv show ?thesis by (auto simp: main_next_def exit_inv_def)
  next
    case (Handing cs)
    show ?thesis
    proof (cases cs)
      case Nil
      with Handing inv show ?thesis by (auto simp: main_next_def exit_inv_def)
    next
      case (Cons x cs')
      have "\<exists>w'. hand_conn (snd x) ?w = Some w' \<and> (n \<le> 0 \<longrightarrow> (\<exists>w0 stg. world_reachable own W w0 \<and>
          (\<forall>i < length (everMade w0). stageOf w0 i = stg i) \<and> tearing own base stg w0 cs' w'))"
      proof (cases "n \<le> 0")
        case True
        with inv Handing Cons obtain w0 stg where t: "world_reachable own W w0" "\<forall>i < length (everMade w0). stageOf w0 i = stg i"
          "tearing own base stg w0 (x # cs') ?w" by (auto simp: exit_inv_def)
        from tearing_hand [OF t(3)] t(1,2) show ?thesis by blast
      next
        case False
        with inv Handing Cons have "ioLoop (snd x) \<in> mk ` {..<nat n}" by (auto simp: exit_inv_def)
        with h(4) False P(2) have "ioLoop (snd x) \<noteq> baseOf (tcpOf ?w)" by auto
        with False show ?thesis by (simp add: hand_conn_def)
      qed
      then obtain w' where w': "hand_conn (snd x) ?w = Some w'" "n \<le> 0 \<longrightarrow> (\<exists>w0 stg. world_reachable own W w0 \<and>
          (\<forall>i < length (everMade w0). stageOf w0 i = stg i) \<and> tearing own base stg w0 cs' w')" by blast
      have m: "main_next dataPath s = Some (s\<lparr>exitPhase := Handing cs', exitWorld := w'\<rparr>)"
        using Handing Cons w'(1) by (simp add: main_next_def)
      with hand_conn_pool [OF w'(1)] w'(2) P saved Handing inv Cons show ?thesis by (auto simp: exit_inv_def samePool_def)
    qed
  next
    case (JoinPool ls)
    with inv show ?thesis by (cases ls) (auto simp: main_next_def exit_inv_def)
  qed (use ph in auto)
qed

subsection \<open>Every run\<close>

lemma exit_step_length: "exit_step own dataPath s s' \<Longrightarrow> length (everMade (exitWorld s)) \<le> length (everMade (exitWorld s'))"
proof (induction rule: exit_step.induct)
  case (serves s w)
  then show ?case by (simp add: world_step_length)
next
  case (main s s')
  then show ?case
    by (auto simp: main_next_def samePool_def split: exit_phase.splits list.splits if_splits dest!: hand_conn_pool)
next
  case (worker_task s l t ts ws w)
  then show ?case using perform_task_pool [OF worker_task(3)] by (simp add: samePool_def)
next
  case (worker_event i s e w)
  then show ?case using world_event_pool [OF worker_event(6)] by (simp add: samePool_def)
qed simp

lemma exit_step_inv:
  assumes e: "exit_step own dataPath s s'" and inv: "exit_inv own base n mk W fs dataPath s" and W: "W = startWorld base addr nm n mk ps st"
    and h: "\<forall>l g. kernel (ps l) g \<noteq> None \<longrightarrow> g \<in> own" "kv_inv st" "length (everMade (exitWorld s')) < 2 ^ 31 - 1"
      "0 < n \<Longrightarrow> base \<notin> mk ` {..<nat n}"
  shows "exit_inv own base n mk W fs dataPath s'"
  using e
proof cases
  case (serves w)
  have "world_reachable own W w" using inv serves by (auto simp: exit_inv_def intro: world_reachable.step)
  with inv serves world_step_pool [OF serves(3)] show ?thesis by (simp add: exit_inv_def)
next
  case main
  have len: "length (everMade (exitWorld s)) < 2 ^ 31 - 1" using exit_step_length [OF e] h(3) by simp
  have "exitPhase s \<notin> {MainDone, StoreMisused}" using main by (auto simp: main_next_def)
  from main_ok [OF inv W h(1,2) len h(4) this] main show ?thesis by auto
next
  case (worker_task l t ts ws w)
  have p: "samePool (exitWorld s) w" "segLog w = segLog (exitWorld s) @ []" using perform_task_pool [OF worker_task(4)] by simp_all
  show ?thesis unfolding worker_task(1)
    by (rule worker_inv [OF inv worker_task(2) p]) (rule world_step.task [OF worker_task(3,4)])
next
  case (worker_event i e' w)
  from world_event_pool [OF worker_event(7)] obtain ds where p: "samePool (exitWorld s) w" "segLog w = segLog (exitWorld s) @ ds" by blast
  show ?thesis unfolding worker_event(1)
    by (rule worker_inv [OF inv worker_event(4) p]) (rule world_step.event [OF worker_event(2,3,5,7)])
next
  case (worker_misuse i e')
  then have n: "0 < n" using working_threads [OF inv] by blast
  have "exitPhase s \<notin> {LoopRuns, LoopLeft, SavedOnce, SavedAgain}" using worker_misuse(4,6) by (auto simp: working_def storeLives_def)
  with inv n worker_misuse(1) show ?thesis by (simp add: exit_inv_def)
qed

lemma exit_reachable_inv:
  assumes "exit_reachable own dataPath (exit_new fs (startWorld base addr nm n mk ps st)) s"
    and "\<forall>l g. kernel (ps l) g \<noteq> None \<longrightarrow> g \<in> own" "kv_inv st" "length (everMade (exitWorld s)) < 2 ^ 31 - 1"
      "0 < n \<Longrightarrow> base \<notin> mk ` {..<nat n}"
  shows "exit_inv own base n mk (startWorld base addr nm n mk ps st) fs dataPath s"
  using assms
proof (induction rule: exit_reachable.induct)
  case init
  show ?case by (rule exit_inv_start)
next
  case (step s s')
  have "length (everMade (exitWorld s)) < 2 ^ 31 - 1" using exit_step_length [OF step(2)] step.prems(3) by simp
  with step.IH step.prems have "exit_inv own base n mk (startWorld base addr nm n mk ps st) fs dataPath s" by blast
  from exit_step_inv [OF step(2) this refl step.prems] show ?case .
qed

text \<open>How many steps the main thread still makes.\<close>

fun togo :: "exit_phase \<Rightarrow> world \<Rightarrow> nat" where
  "togo MainDone w = 0"
| "togo StoreMisused w = 0"
| "togo (JoinPool ls) w = 1 + length ls"
| "togo (Handing cs) w = 2 + length (loops (threadPool (tcpOf w))) + length cs"
| "togo StoreGone w = 3 + length (loops (threadPool (tcpOf w))) + length (connections (tcpOf w))"
| "togo SavedAgain w = 4 + length (loops (threadPool (tcpOf w))) + length (connections (tcpOf w))"
| "togo SavedOnce w = 5 + length (loops (threadPool (tcpOf w))) + length (connections (tcpOf w))"
| "togo LoopLeft w = 6 + length (loops (threadPool (tcpOf w))) + length (connections (tcpOf w))"
| "togo LoopRuns w = 7 + length (loops (threadPool (tcpOf w))) + length (connections (tcpOf w))"

lemma main_togo: "main_next dataPath s = Some s' \<Longrightarrow> togo (exitPhase s') (exitWorld s') < togo (exitPhase s) (exitWorld s) \<and> exitPhase s' \<noteq> StoreMisused"
  by (auto simp: main_next_def samePool_def split: exit_phase.splits list.splits if_splits dest!: hand_conn_pool)

definition main_goes :: "string \<Rightarrow> exiting \<Rightarrow> exiting \<Rightarrow> bool" where
  "main_goes dataPath s s' \<longleftrightarrow> main_next dataPath s = Some s'"

lemma main_finishes:
  assumes "exit_inv own base n mk W fs dataPath s" "W = startWorld base addr nm n mk ps st"
    and "\<forall>l g. kernel (ps l) g \<noteq> None \<longrightarrow> g \<in> own" "kv_inv st" "length (everMade (exitWorld s)) < 2 ^ 31 - 1"
      "0 < n \<Longrightarrow> base \<notin> mk ` {..<nat n}" "exitPhase s \<noteq> StoreMisused"
  shows "\<exists>s'. (main_goes dataPath)\<^sup>*\<^sup>* s s' \<and> exitPhase s' = MainDone"
  using assms
proof (induction "togo (exitPhase s) (exitWorld s)" arbitrary: s rule: less_induct)
  case less
  show ?case
  proof (cases "exitPhase s = MainDone")
    case False
    then have "exitPhase s \<notin> {MainDone, StoreMisused}" using less.prems(7) by simp
    from main_ok [OF less.prems(1-6) this] obtain s1 where
      s1: "main_next dataPath s = Some s1" "exit_inv own base n mk W fs dataPath s1" "everMade (exitWorld s1) = everMade (exitWorld s)" by blast
    have "length (everMade (exitWorld s1)) < 2 ^ 31 - 1" using s1(3) less.prems(5) by simp
    from less.hyps [OF _ s1(2) less.prems(2-4) this less.prems(6)] main_togo [OF s1(1)] obtain s2 where
      "(main_goes dataPath)\<^sup>*\<^sup>* s1 s2" "exitPhase s2 = MainDone" by blast
    with s1(1) show ?thesis by (intro exI [of _ s2]) (auto simp: main_goes_def intro: converse_rtranclp_into_rtranclp)
  qed blast
qed

end
