(* ===== verification/Server_Exit_Properties.thy ===== *)
theory Server_Exit_Properties
  imports Server_Exit_Correct
begin

text \<open>
  The properties of the end of the server: what the data file holds, how far the shutdown goes, and the two races between the
  main thread and the loops of the pool.
\<close>

subsection \<open>After the saves\<close>

definition samePaper :: "world \<Rightarrow> world \<Rightarrow> bool" where
  "samePaper w w' \<longleftrightarrow> segLog w' = segLog w \<and> wire w' = wire w \<and> objectOf w' = objectOf w \<and> broken w' = broken w"

lemma main_keeps:
  assumes inv: "exit_inv own base n mk W fs dataPath s" and m: "main_next dataPath s = Some s'" and n: "0 < n" "base \<notin> mk ` {..<nat n}"
    and ph: "exitPhase s \<notin> {LoopRuns, LoopLeft, SavedOnce}"
  shows "exitFiles s' = exitFiles s \<and> samePaper (exitWorld s) (exitWorld s') \<and> exitPhase s' \<notin> {LoopRuns, LoopLeft, SavedOnce}"
proof (cases "exitPhase s")
  case (Handing cs)
  show ?thesis
  proof (cases cs)
    case (Cons x cs')
    with inv Handing n have "ioLoop (snd x) \<noteq> base" "baseOf (tcpOf (exitWorld s)) = base" by (auto simp: exit_inv_def)
    with m Handing Cons show ?thesis by (auto simp: main_next_def hand_conn_def samePaper_def enqueue_def)
  qed (use m Handing in \<open>auto simp: main_next_def samePaper_def\<close>)
qed (use m ph in \<open>auto simp: main_next_def samePaper_def split: list.splits\<close>)

lemma main_goes_keeps:
  assumes "(main_goes dataPath)\<^sup>*\<^sup>* s s'" "exit_inv own base n mk W fs dataPath s" "W = startWorld base addr nm n mk ps st"
    and "\<forall>l g. kernel (ps l) g \<noteq> None \<longrightarrow> g \<in> own" "kv_inv st" "length (everMade (exitWorld s)) < 2 ^ 31 - 1"
      "0 < n" "base \<notin> mk ` {..<nat n}" "exitPhase s \<notin> {LoopRuns, LoopLeft, SavedOnce}"
  shows "exitFiles s' = exitFiles s \<and> samePaper (exitWorld s) (exitWorld s') \<and> exitPhase s' \<notin> {LoopRuns, LoopLeft, SavedOnce} \<and>
    exit_inv own base n mk W fs dataPath s' \<and> everMade (exitWorld s') = everMade (exitWorld s)"
  using assms(1)
proof (induction rule: rtranclp_induct)
  case base
  with assms(2,9) show ?case by (simp add: samePaper_def)
next
  case (step s1 s2)
  then have m: "main_next dataPath s1 = Some s2" by (simp add: main_goes_def)
  then have ph: "exitPhase s1 \<notin> {MainDone, StoreMisused}" by (auto simp: main_next_def)
  have len: "length (everMade (exitWorld s1)) < 2 ^ 31 - 1" using step.IH assms(6) by simp
  from step.IH have inv: "exit_inv own base n mk W fs dataPath s1" by blast
  from main_ok [OF inv assms(3-5) len _ ph] m assms(8) have
    r: "exit_inv own base n mk W fs dataPath s2" "everMade (exitWorld s2) = everMade (exitWorld s1)" by auto
  from main_keeps [OF inv m assms(7,8)] r step.IH show ?case by (auto simp: samePaper_def)
qed

lemma exit_reachable_trans: "exit_reachable own dataPath s0 s1 \<Longrightarrow> (main_goes dataPath)\<^sup>*\<^sup>* s1 s2 \<Longrightarrow> exit_reachable own dataPath s0 s2"
  by (rotate_tac, induction rule: rtranclp_induct) (auto simp: main_goes_def intro: exit_reachable.step exit_step.main)

text \<open>The running server is the beginning of its end.\<close>

lemma exit_of_live: "world_reachable own W w \<Longrightarrow> exit_reachable own dataPath (exit_new fs W) ((exit_new fs W)\<lparr>exitWorld := w\<rparr>)"
proof (induction rule: world_reachable.induct)
  case init
  have "(exit_new fs W)\<lparr>exitWorld := W\<rparr> = exit_new fs W" by (simp add: exit_new_def)
  then show ?case by (simp add: exit_reachable.init)
next
  case (step w w')
  have "exit_step own dataPath ((exit_new fs W)\<lparr>exitWorld := w\<rparr>) (((exit_new fs W)\<lparr>exitWorld := w\<rparr>)\<lparr>exitWorld := w'\<rparr>)"
    by (rule exit_step.serves) (use step(2) in \<open>simp_all add: exit_new_def\<close>)
  with step.IH show ?case by (auto intro: exit_reachable.step)
qed

text \<open>Leaving the loop and both saves, with the workers standing still.\<close>

lemma saves_now:
  assumes r: "world_reachable own (startWorld base addr nm n mk ps st) w"
    and h: "\<forall>l g. kernel (ps l) g \<noteq> None \<longrightarrow> g \<in> own" "kv_inv st" "length (everMade w) < 2 ^ 31 - 1" "0 < n" "base \<notin> mk ` {..<nat n}"
  shows "\<exists>s. exit_reachable own dataPath (exit_new fs (startWorld base addr nm n mk ps st)) s \<and> exitPhase s = SavedAgain \<and>
    exitWorld s = w \<and> exitFiles s = savedFiles dataPath fs (storeOf w) \<and> joined s = {}"
proof -
  let ?W = "startWorld base addr nm n mk ps st"
  obtain stg rests out where "world_inv own (base, addr, nm, n, mk) (kv_map st) stg stg rests out w"
    using live_reachable_inv [OF r h(1-3)] by blast
  then have kv: "kv_inv (storeOf w)" by (simp add: world_inv_def)
  let ?s0 = "(exit_new fs ?W)\<lparr>exitWorld := w\<rparr>"
  let ?s1 = "?s0\<lparr>exitPhase := LoopLeft\<rparr>"
  let ?s2 = "?s0\<lparr>exitPhase := SavedOnce, exitFiles := savedFiles dataPath fs (storeOf w)\<rparr>"
  let ?s3 = "?s0\<lparr>exitPhase := SavedAgain, exitFiles := savedFiles dataPath fs (storeOf w)\<rparr>"
  have "main_goes dataPath ?s0 ?s1" by (simp add: main_goes_def main_next_def exit_new_def)
  moreover have "main_goes dataPath ?s1 ?s2"
    using save_twice [of "theService dataPath w" dataPath fs] kv
    by (cases "dataPath = []") (simp_all add: main_goes_def main_next_def exit_new_def theService_def savedFiles_def)
  moreover have "main_goes dataPath ?s2 ?s3"
    using kv by (simp add: main_goes_def main_next_def exit_new_def theService_def srv_dtor_saves)
  ultimately have "(main_goes dataPath)\<^sup>*\<^sup>* ?s0 ?s3" by (meson converse_rtranclp_into_rtranclp rtranclp.rtrancl_refl)
  from exit_reachable_trans [OF exit_of_live [OF r] this] show ?thesis by (intro exI [of _ ?s3]) (simp add: exit_new_def)
qed

text \<open>A request that a worker serves between the saves and the end of the store.\<close>

lemma late_request:
  assumes r: "world_reachable own (startWorld base addr nm n mk ps st) w"
    and h: "\<forall>l g. kernel (ps l) g \<noteq> None \<longrightarrow> g \<in> own" "kv_inv st" "length (everMade w) < 2 ^ 31 - 1" "0 < n" "base \<notin> mk ` {..<nat n}"
    and i: "i < length (everMade w)" "stageOf w i = Open" and d: "d \<noteq> []"
  shows "\<exists>s rests m out. exit_reachable own dataPath (exit_new fs (startWorld base addr nm n mk ps st)) s \<and> exitPhase s = MainDone \<and>
    exitFiles s = savedFiles dataPath fs (storeOf w) \<and>
    segLog (exitWorld s) = segLog w @ [(i, take (readCapacity (inputBuffer (objectOf w i))) d)] \<and>
    spec_log (segLog (exitWorld s)) (\<lambda>i. []) (kv_map st) = (rests, m, out) \<and>
    (i \<notin> broken (exitWorld s) \<longrightarrow> wire (exitWorld s) i @ content (outputBuffer (objectOf (exitWorld s) i)) =
      welcomeText @ promised kConnected (ofConn i out)) \<and> (i \<in> broken (exitWorld s) \<longrightarrow> i \<in> broken w)"
proof -
  let ?W = "startWorld base addr nm n mk ps st" and ?e = "Served (Bytes d (\<lambda>n. Inr 0))"
  obtain stg rests out where inv: "world_inv own (base, addr, nm, n, mk) (kv_map st) stg stg rests out w"
    using live_reachable_inv [OF r h(1-3)] by blast
  have st: "stg i = Open" using stageOf_inv [OF inv i(1)] i(2) by simp
  then have g: "i \<notin> gone w" using world_invD(1) [OF inv i(1)] by (simp add: life_def)
  have wt: "watched w i" using open_of_watched [OF inv i(1) g] st by simp
  have o: "open_conn (objectOf w i) (epollOf w (loopAt w i))" using world_invD(1) [OF inv i(1)] st by (simp add: life_def)
  obtain w2 rests2 out2 where w2: "world_event i ?e w = Some w2" "everMade w2 = everMade w"
    "world_inv own (base, addr, nm, n, mk) (kv_map st) stg stg rests2 out2 w2"
    using event_stays_ok [OF inv i(1) st, of ?e] d by auto
  have fr: "segLog w2 = segLog w @ [(i, take (readCapacity (inputBuffer (objectOf w i))) d)]" "broken w2 = broken w"
    using world_event_frame [OF w2(1) o _ world_invD(5) [OF inv i(1)]] d by simp_all
  have lp: "loopAt w i \<in> mk ` {..<nat n}" "loops (threadPool (tcpOf w)) = map mk [0..<nat n]"
  proof -
    have "srv_inv base addr nm n mk (tcpOf w, everMade w)" by (rule world_invD(3) [OF inv i(1)])
    then have "map ioLoop (everMade w) ! i = map (loopOf base mk n) [0..<length (everMade w)] ! i"
      "loops (threadPool (tcpOf w)) = map mk [0..<nat n]" by (simp_all add: srv_inv_def)
    with i(1) h(4) show "loopAt w i \<in> mk ` {..<nat n}" "loops (threadPool (tcpOf w)) = map mk [0..<nat n]"
      by (simp_all add: loopAt_def loopOf_def)
  qed
  obtain s where s: "exit_reachable own dataPath (exit_new fs ?W) s" "exitPhase s = SavedAgain" "exitWorld s = w"
    "exitFiles s = savedFiles dataPath fs (storeOf w)" "joined s = {}" using saves_now [OF r h] by blast
  have wk: "working s (loopAt (exitWorld s) i)" using lp s(2,3,5) by (auto simp: working_def)
  let ?s = "s\<lparr>exitWorld := w2\<rparr>"
  have e: "exit_step own dataPath s ?s"
    using exit_step.worker_event [of i s, OF _ _ wk] i(1) g wt w2(1) s(2,3) by (simp add: storeLives_def)
  have r2: "exit_reachable own dataPath (exit_new fs ?W) ?s" by (rule exit_reachable.step [OF s(1) e])
  have len: "length (everMade (exitWorld ?s)) < 2 ^ 31 - 1" using w2(2) h(3) by simp
  have inv2: "exit_inv own base n mk ?W fs dataPath ?s" by (rule exit_reachable_inv [OF r2 h(1,2) len h(5)])
  have "exitPhase ?s \<noteq> StoreMisused" using s(2) by simp
  from main_finishes [OF inv2 refl h(1,2) len h(5) this] obtain s' where
    s': "(main_goes dataPath)\<^sup>*\<^sup>* ?s s'" "exitPhase s' = MainDone" by blast
  have "exitPhase ?s \<notin> {LoopRuns, LoopLeft, SavedOnce}" using s(2) by simp
  from main_goes_keeps [OF s'(1) inv2 refl h(1,2) len h(4,5) this]
  have k: "exitFiles s' = exitFiles s" "segLog (exitWorld s') = segLog w2" "wire (exitWorld s') = wire w2"
    "objectOf (exitWorld s') = objectOf w2" "broken (exitWorld s') = broken w2" by (simp_all add: samePaper_def)
  have "i < length (everMade w2)" using i(1) w2(2) by simp
  from world_invD(1,6) [OF w2(3) this] st
  have "spec_log (segLog w2) (\<lambda>i. []) (kv_map st) = (rests2, kv_map (storeOf w2), out2)"
    "i \<notin> broken w2 \<longrightarrow> wire w2 i @ content (outputBuffer (objectOf w2 i)) = welcomeText @ promised kConnected (ofConn i out2)"
    by (simp_all add: life_def)
  with exit_reachable_trans [OF r2 s'(1)] s'(2) s(4) k fr show ?thesis
    by (intro exI [of _ s'] exI [of _ rests2] exI [of _ "kv_map (storeOf w2)"] exI [of _ out2]) simp
qed

text \<open>A request that comes when the store has been destroyed.\<close>

lemma late_store:
  assumes r: "world_reachable own (startWorld base addr nm n mk ps st) w"
    and h: "\<forall>l g. kernel (ps l) g \<noteq> None \<longrightarrow> g \<in> own" "kv_inv st" "length (everMade w) < 2 ^ 31 - 1" "0 < n" "base \<notin> mk ` {..<nat n}"
    and i: "i < length (everMade w)" "stageOf w i = Open" and d: "LF \<in> set (take (readCapacity (inputBuffer (objectOf w i))) d)"
  shows "\<exists>s. exit_reachable own dataPath (exit_new fs (startWorld base addr nm n mk ps st)) s \<and> exitPhase s = StoreMisused"
proof -
  let ?W = "startWorld base addr nm n mk ps st" and ?e = "Served (Bytes d (\<lambda>n. Inr 0))"
  obtain stg rests out where inv: "world_inv own (base, addr, nm, n, mk) (kv_map st) stg stg rests out w"
    using live_reachable_inv [OF r h(1-3)] by blast
  have st: "stg i = Open" using stageOf_inv [OF inv i(1)] i(2) by simp
  then have g: "i \<notin> gone w" using world_invD(1) [OF inv i(1)] by (simp add: life_def)
  have wt: "watched w i" using open_of_watched [OF inv i(1) g] st by simp
  obtain s where s: "exit_reachable own dataPath (exit_new fs ?W) s" "exitPhase s = SavedAgain" "exitWorld s = w" "joined s = {}"
    using saves_now [OF r h] by blast
  have "kv_inv (storeOf w)" by (rule world_invD(5) [OF inv i(1)])
  from kv_clear_inv [OF this] obtain st' where st': "kv_dtor (storeOf w) = Some st'" by (auto simp: kv_dtor_def kv_clear_def sl_dtor_def)
  let ?s = "s\<lparr>exitPhase := StoreGone, exitWorld := w\<lparr>storeOf := st'\<rparr>\<rparr>"
  have m: "main_next dataPath s = Some ?s" using s(2,3) st' by (simp add: main_next_def)
  have "srv_inv base addr nm n mk (tcpOf w, everMade w)" by (rule world_invD(3) [OF inv i(1)])
  then have "map ioLoop (everMade w) ! i = map (loopOf base mk n) [0..<length (everMade w)] ! i"
    "loops (threadPool (tcpOf w)) = map mk [0..<nat n]" by (simp_all add: srv_inv_def)
  with i(1) h(4) have "working ?s (loopAt w i)" using s(4) by (auto simp: working_def loopAt_def loopOf_def)
  moreover have "usesStore i ?e w" using d by (auto simp: usesStore_def)
  ultimately have "exit_step own dataPath ?s (?s\<lparr>exitPhase := StoreMisused\<rparr>)"
    using i(1) g wt by (intro exit_step.worker_misuse [where i = i and e = ?e]) (auto simp: storeLives_def usesStore_def watched_def)
  with exit_reachable.step [OF s(1) exit_step.main [OF m]] show ?thesis
    by (intro exI [of _ "?s\<lparr>exitPhase := StoreMisused\<rparr>"]) (auto intro: exit_reachable.step)
qed

subsection \<open>Runs, for the witnesses\<close>

text \<open>With one thread, a client whose connection has been established.\<close>

lemma sample_threaded: "\<exists>w. world_reachable {3} (sampleStart 1) w \<and> length (everMade w) = 1 \<and> stageOf w 0 = Open \<and> segLog w = []"
proof -
  let ?a = "inet_of_port 1 True"
  obtain w where w: "world_accept (\<lambda>n. Inr 0) 9 ?a ?a (sampleStart 1) = Some w" "length (everMade w) = 1" "loopAt w 0 = 1"
    "queueOf w = (\<lambda>l. if l = 1 then [Establish 0] else [])" "gone w = {}" "segLog w = []"
    by (simp add: world_accept_def world_new_def newConnection_def started_server_eq getNextLoop_def Let_def enqueue_def loopAt_def fun_eq_iff)
  have "9 \<notin> busy {3} (sampleStart 1)" by (simp add: busy_def world_new_def)
  with w(1) have r: "world_reachable {3} (sampleStart 1) w"
    by (blast intro: world_reachable.step [OF world_reachable.init world_step.arrives])
  have "length (everMade w) < 2 ^ 31 - 1" using w(2) by simp
  from live_reachable_inv [OF r sample_hyps this] obtain stg rests out where
    inv: "world_inv {3} (0, inet_of_port 6379 False, ''kv'', 1, Suc) (kv_map (kv_new 16 (\<lambda>_. 1))) stg stg rests out w" by blast
  have q: "queueOf w 1 = [Establish 0]" and b: "length (everMade w) < 2 ^ 31" using w(2,4) by simp_all
  obtain w' i where w': "perform_task (\<lambda>n. Inr 0) (Establish 0) (w\<lparr>queueOf := (queueOf w)(1 := [])\<rparr>) = Some w'" "everMade w' = everMade w"
    "i < length (everMade w)" "stg i \<in> {Starting, Leaving, Removed}"
    "world_inv {3} (0, inet_of_port 6379 False, ''kv'', 1, Suc) (kv_map (kv_new 16 (\<lambda>_. 1))) (stg(i := nextStage (stg i)))
       (stg(i := nextStage (stg i))) rests out w'" using task_ok [OF inv q b] by blast
  have "i = 0" using w'(3) w(2) by simp
  have z: "0 < length (everMade w)" "0 < length (everMade w')" using w(2) w'(2) by simp_all
  have "stg 0 = Starting" using queued_stage(1) [OF inv z(1), of 1] w(4) by simp
  then have "stageOf w' 0 = Open" using stageOf_inv [OF w'(5) z(2)] \<open>i = 0\<close> by simp
  moreover have "segLog w' = []" using perform_task_pool [OF w'(1)] w(6) by simp
  ultimately show ?thesis using world_reachable.step [OF r world_step.task [OF q w'(1)]] w(2) w'(2) by (intro exI [of _ w']) simp
qed

subsection \<open>Properties\<close>





text \<open>
  C7: the end of a server without worker threads: when \<open>main\<close> is done the kernel watches no connection, every connection of the map
  has been destroyed, and each has been called back for its end exactly if it was connected or had closed before; one that was
  half closed (after \<open>QUIT\<close>) is destroyed without a call.
\<close>

theorem single_threaded_exit:
  assumes "exit_reachable own dataPath (exit_new fs (startWorld base addr nm n mk ps st)) s"
    and "\<forall>l g. kernel (ps l) g \<noteq> None \<longrightarrow> g \<in> own" "kv_inv st" "length (everMade (exitWorld s)) < 2 ^ 31 - 1"
      "n \<le> 0" "exitPhase s = MainDone"
  shows "\<exists>w0. world_reachable own (startWorld base addr nm n mk ps st) w0 \<and> everMade (exitWorld s) = everMade w0 \<and>
    segLog (exitWorld s) = segLog w0 \<and>
    (\<forall>i < length (everMade w0). cbLog (exitWorld s) i = farewell (stageOf w0 i) (cstate (objectOf w0 i)) \<and>
       (stageOf w0 i \<noteq> Removed \<longrightarrow> i \<in> gone (exitWorld s))) \<and>
    (\<forall>l g. kernel (epollOf (exitWorld s) l) g \<noteq> None \<longrightarrow> g \<in> own)"
proof -
  have "0 < n \<Longrightarrow> base \<notin> mk ` {..<nat n}" using assms(5) by simp
  from exit_reachable_inv [OF assms(1-4) this] assms(5,6) obtain w0 stg where
    t: "world_reachable own (startWorld base addr nm n mk ps st) w0" "\<forall>i < length (everMade w0). stageOf w0 i = stg i"
      "tearing own base stg w0 [] (exitWorld s)" by (auto simp: exit_inv_def)
  have "cbLog (exitWorld s) i = farewell (stageOf w0 i) (cstate (objectOf w0 i)) \<and> (stageOf w0 i \<noteq> Removed \<longrightarrow> i \<in> gone (exitWorld s))"
    if i: "i < length (everMade w0)" for i
  proof -
    have c: "if mapped (stg i) then i \<in> gone (exitWorld s) \<and> cbLog (exitWorld s) i = farewell (stg i) (cstate (objectOf w0 i))
        else cbLog (exitWorld s) i = [True, False] \<and> (i \<in> gone (exitWorld s) \<longleftrightarrow> i \<in> gone w0)"
      using t(3) i by (simp add: tearing_def)
    have "stageOf w0 i = Gone \<Longrightarrow> i \<in> gone w0" by (simp add: stageOf_def split: if_splits)
    with c t(2) i show ?thesis by (cases "stg i") (auto simp: mapped_def)
  qed
  with t(1,3) show ?thesis by (intro exI [of _ w0]) (auto simp: tearing_def)
qed

theorem single_threaded_exit_witness:
  "\<exists>s w0. exit_reachable {3} [] (exit_new \<lparr>fileText = Map.empty, canCreate = (\<lambda>p. True), room = (\<lambda>p. 9)\<rparr> (sampleStart 0)) s \<and>
     exitPhase s = MainDone \<and> length (everMade w0) = 1 \<and> cbLog (exitWorld s) 0 = farewell (stageOf w0 0) (cstate (objectOf w0 0)) \<and>
     kernel (epollOf (exitWorld s) 0) 9 = None"
proof -
  let ?fs = "\<lparr>fileText = Map.empty, canCreate = (\<lambda>p. True), room = (\<lambda>p. 9 :: nat)\<rparr>"
  obtain w where w: "world_reachable {3} (sampleStart 0) w" "length (everMade w) = 1" using sample_ping by blast
  let ?s = "(exit_new ?fs (sampleStart 0))\<lparr>exitWorld := w\<rparr>"
  have r: "exit_reachable {3} [] (exit_new ?fs (sampleStart 0)) ?s" by (rule exit_of_live [OF w(1)])
  have n0: "(0::int) < 0 \<Longrightarrow> 0 \<notin> Suc ` {..<nat 0}" by simp
  have len: "length (everMade (exitWorld ?s)) < 2 ^ 31 - 1" and ph: "exitPhase ?s \<noteq> StoreMisused" using w(2) by (simp_all add: exit_new_def)
  from main_finishes [OF exit_reachable_inv [OF r sample_hyps len n0] refl sample_hyps len n0 ph] obtain s' where
    s': "(main_goes [])\<^sup>*\<^sup>* ?s s'" "exitPhase s' = MainDone" by blast
  have r': "exit_reachable {3} [] (exit_new ?fs (sampleStart 0)) s'" by (rule exit_reachable_trans [OF r s'(1)])
  have made: "everMade (exitWorld s') = everMade w" using s'(1)
  proof (induction rule: rtranclp_induct)
    case (step a b)
    then show ?case
      by (auto simp: main_goes_def main_next_def samePool_def split: exit_phase.splits list.splits if_splits dest!: hand_conn_pool)
  qed simp
  then have len': "length (everMade (exitWorld s')) < 2 ^ 31 - 1" using w(2) by simp
  from single_threaded_exit [OF r' sample_hyps len' _ s'(2)] obtain w0 where
    p: "everMade (exitWorld s') = everMade w0" "\<forall>i < length (everMade w0). cbLog (exitWorld s') i = farewell (stageOf w0 i) (cstate (objectOf w0 i))"
      "\<forall>l g. kernel (epollOf (exitWorld s') l) g \<noteq> None \<longrightarrow> g \<in> {3}" by auto
  from p(3) have "kernel (epollOf (exitWorld s') 0) 9 = None" by fastforce
  with r' s'(2) p(1,2) made w(2) show ?thesis by (intro exI [of _ s'] exI [of _ w0]) auto
qed



end
