(* ===== verification/Time_Arith.thy ===== *)
theory Time_Arith
  imports Base_Util "HOL-Library.Log_Nat" Complex_Main
begin

text \<open>
  Arithmetic with time stamps in seconds (\<open>timeDifference\<close> and \<open>addTime\<close> of \<open>src/base/timestamp.h\<close>).  A \<open>double\<close> is the
  rational number it stands for; a result is rounded to 53 significant bits, to even at a tie, and to multiples of
  \<open>2^(-1074)\<close> near zero, as IEEE 754 prescribes.  Infinities do not occur for the values of the code.
\<close>

subsection \<open>Doubles\<close>

type_synonym double = rat

definition two_to :: "int \<Rightarrow> rat" where
  "two_to e = (if 0 \<le> e then 2 ^ nat e else 1 / 2 ^ nat (- e))"

definition round_even :: "rat \<Rightarrow> int" where
  "round_even x = (let f = \<lfloor>x\<rfloor>; r = x - of_int f in
     if r < 1 / 2 then f else if 1 / 2 < r then f + 1 else if even f then f else f + 1)"

text \<open>The exponent of the leading bit.\<close>

definition fp_exp :: "rat \<Rightarrow> int" where
  "fp_exp x = (case quotient_of \<bar>x\<bar> of (p, q) \<Rightarrow>
     let e = bitlen p - bitlen q in if two_to e \<le> \<bar>x\<bar> then e else e - 1)"

definition fp_round :: "rat \<Rightarrow> double" where
  "fp_round x = (if x = 0 then 0 else
     let e = max (fp_exp x - 52) (- 1074) in of_int (round_even (x / two_to e)) * two_to e)"

definition fp_of_int :: "int \<Rightarrow> double" where
  "fp_of_int n = fp_round (of_int n)"

definition fp_mul :: "double \<Rightarrow> double \<Rightarrow> double" where
  "fp_mul x y = fp_round (x * y)"

definition fp_div :: "double \<Rightarrow> double \<Rightarrow> double" where
  "fp_div x y = fp_round (x / y)"

text \<open>\<open>static_cast<int64_t>\<close> truncates.\<close>

definition fp_to_int :: "double \<Rightarrow> int" where
  "fp_to_int x = (if 0 \<le> x then \<lfloor>x\<rfloor> else \<lceil>x\<rceil>)"

subsection \<open>The two functions\<close>

definition timeDifference :: "timestamp \<Rightarrow> timestamp \<Rightarrow> double" where
  "timeDifference high low =
     (let diff = microSecondsSinceEpoch high - microSecondsSinceEpoch low in
      fp_div (fp_of_int diff) (fp_of_int kMicroSecondsPerSecond))"

definition addTime :: "timestamp \<Rightarrow> double \<Rightarrow> timestamp" where
  "addTime t seconds =
     (let delta = fp_to_int (fp_mul seconds (fp_of_int kMicroSecondsPerSecond)) in
      \<lparr>microSecondsSinceEpoch = microSecondsSinceEpoch t + delta\<rparr>)"

subsection \<open>Rounding errors\<close>

lemma two_to_pos [simp]: "0 < two_to e" by (simp add: two_to_def)

lemma two_to_simps [simp]: "\<bar>two_to e\<bar> = two_to e" "two_to e \<noteq> 0"
  using two_to_pos [of e] by (simp_all del: two_to_pos)

lemma two_to_add: "two_to (a + b) = two_to a * two_to b"
proof -
  have "1 / 2 ^ k = (inverse 2 ^ k :: rat)" for k by (simp only: inverse_eq_divide power_one_over)
  then have p: "two_to e = 2 powi e" for e unfolding two_to_def power_int_def by simp
  show ?thesis unfolding p by (rule power_int_add) simp
qed

lemma two_to_mono: "a \<le> b \<Longrightarrow> two_to a \<le> two_to b"
proof -
  assume "a \<le> b"
  have "1 \<le> two_to (b - a)" using \<open>a \<le> b\<close> by (simp add: two_to_def)
  moreover have "two_to b = two_to a * two_to (b - a)" using two_to_add [of a "b - a"] by simp
  ultimately show ?thesis using mult_left_mono [of 1 "two_to (b - a)" "two_to a"] by (simp add: less_imp_le)
qed

lemma two_to_less: "two_to a < two_to b \<Longrightarrow> a < b"
  using two_to_mono [of b a] by (meson not_less)

lemma round_even_error: "\<bar>of_int (round_even x) - x\<bar> \<le> 1 / 2"
proof -
  have "of_int \<lfloor>x\<rfloor> \<le> x" "x < of_int \<lfloor>x\<rfloor> + 1" by linarith+
  then show ?thesis by (auto simp: round_even_def Let_def abs_le_iff)
qed

lemma round_even_int [simp]: "round_even (of_int n) = n"
  by (simp add: round_even_def)

lemma fp_exp_le: "x \<noteq> 0 \<Longrightarrow> two_to (fp_exp x) \<le> \<bar>x\<bar>"
proof -
  assume "x \<noteq> 0"
  obtain p q where pq: "quotient_of \<bar>x\<bar> = (p, q)" by force
  have x: "\<bar>x\<bar> = of_int p / of_int q" "0 < q" using quotient_of_div [OF pq] quotient_of_denom_pos [OF pq] by simp_all
  then have p: "0 < p" using \<open>x \<noteq> 0\<close> by (metis of_int_0_less_iff zero_less_abs_iff zero_less_divide_iff order_less_asym)
  have bp: "2 ^ nat (bitlen p - 1) \<le> p" and bq: "q < 2 ^ nat (bitlen q)" using bitlen_bounds [OF p] bitlen_bounds [OF x(2)] by simp_all
  have b1: "1 \<le> bitlen p" "1 \<le> bitlen q"
    using bitlen_nonneg [of p] bitlen_nonneg [of q] bitlen_eq_zero_iff [of p] bitlen_eq_zero_iff [of q] p x(2) by linarith+
  have "two_to (bitlen p - 1) \<le> of_int p"
  proof -
    have "two_to (bitlen p - 1) = of_int (2 ^ nat (bitlen p - 1))" using b1 by (simp add: two_to_def)
    with bp show ?thesis by (simp only: of_int_le_iff)
  qed
  moreover have "of_int q \<le> two_to (bitlen q)"
  proof -
    have "two_to (bitlen q) = of_int (2 ^ nat (bitlen q))" using b1 by (simp add: two_to_def)
    with bq show ?thesis by (simp only: of_int_le_iff)
  qed
  moreover have "two_to (bitlen p - 1) = two_to (bitlen p - bitlen q - 1) * two_to (bitlen q)"
    using two_to_add [of "bitlen p - bitlen q - 1" "bitlen q"] by simp
  ultimately have "two_to (bitlen p - bitlen q - 1) * of_int q \<le> of_int p"
    using mult_left_mono [of "of_int q" "two_to (bitlen q)" "two_to (bitlen p - bitlen q - 1)"] two_to_pos [THEN less_imp_le]
    by (metis order_trans)
  then have "two_to (bitlen p - bitlen q - 1) \<le> \<bar>x\<bar>" using x by (simp add: pos_le_divide_eq)
  then show ?thesis by (simp add: fp_exp_def pq Let_def)
qed

lemma fp_round_error: "\<bar>fp_round x - x\<bar> \<le> \<bar>x\<bar> / 2 ^ 53 + 1 / 2 ^ 1075"
proof (cases "x = 0")
  case False
  let ?e = "max (fp_exp x - 52) (- 1074)"
  have "fp_round x - x = (of_int (round_even (x / two_to ?e)) - x / two_to ?e) * two_to ?e"
    using False by (simp add: fp_round_def Let_def left_diff_distrib)
  then have "\<bar>fp_round x - x\<bar> = \<bar>of_int (round_even (x / two_to ?e)) - x / two_to ?e\<bar> * two_to ?e"
    by (simp add: abs_mult)
  also have "\<dots> \<le> 1 / 2 * two_to ?e"
    by (rule mult_right_mono [OF round_even_error]) (simp add: less_imp_le)
  also have "\<dots> \<le> \<bar>x\<bar> / 2 ^ 53 + 1 / 2 ^ 1075"
  proof (cases "fp_exp x - 52 \<ge> - 1074")
    case True
    have t: "two_to (- 52) = 1 / 2 ^ 52" by (simp add: two_to_def)
    from True have m: "?e = fp_exp x + - 52" by simp
    have "two_to ?e = two_to (fp_exp x) / 2 ^ 52" unfolding m two_to_add t by simp
    moreover have "two_to (fp_exp x) / 2 ^ 52 \<le> \<bar>x\<bar> / 2 ^ 52" by (rule divide_right_mono [OF fp_exp_le [OF False]]) simp
    moreover have "1 / 2 * (\<bar>x\<bar> / 2 ^ 52) = \<bar>x\<bar> / 2 ^ 53" by simp
    moreover have "(0::rat) \<le> 1 / 2 ^ 1075" by simp
    ultimately show ?thesis by linarith
  next
    case False
    have t: "two_to (- 1074) = 1 / 2 ^ 1074" by (simp add: two_to_def)
    have "two_to ?e = 1 / 2 ^ 1074" using False by (simp add: max_def t)
    moreover have "1 / 2 * (1 / 2 ^ 1074) = (1 / 2 ^ 1075 :: rat)" by simp
    moreover have "0 \<le> \<bar>x\<bar> / 2 ^ 53" by simp
    ultimately show ?thesis by linarith
  qed
  finally show ?thesis .
qed (simp add: fp_round_def)

lemma fp_of_int_exact:
  assumes "\<bar>n\<bar> < 2 ^ 53"
  shows "fp_of_int n = of_int n"
proof (cases "n = 0")
  case False
  let ?x = "of_int n :: rat"
  have "two_to (fp_exp ?x) \<le> \<bar>?x\<bar>" using False by (intro fp_exp_le) simp
  also have "\<bar>?x\<bar> < two_to 53"
  proof -
    have "\<bar>?x\<bar> = of_int \<bar>n\<bar>" by simp
    also have "\<dots> < of_int (2 ^ 53)" using assms by (simp only: of_int_less_iff)
    finally show ?thesis by (simp add: two_to_def)
  qed
  finally have "fp_exp ?x < 53" by (rule two_to_less)
  then have e: "max (fp_exp ?x - 52) (- 1074) \<le> 0" by simp
  define k where "k = nat (- max (fp_exp ?x - 52) (- 1074))"
  have k: "two_to (max (fp_exp ?x - 52) (- 1074)) = 1 / 2 ^ k" using e by (simp add: two_to_def k_def)
  have "?x / two_to (max (fp_exp ?x - 52) (- 1074)) = of_int (n * 2 ^ k)" by (simp add: k)
  then have "fp_of_int n = of_int (round_even (of_int (n * 2 ^ k))) * (1 / 2 ^ k)"
    using False by (simp add: fp_of_int_def fp_round_def Let_def k)
  also have "\<dots> = of_int (n * 2 ^ k) * (1 / 2 ^ k)" by (simp only: round_even_int)
  finally show ?thesis by simp
qed (simp add: fp_of_int_def fp_round_def)

text \<open>Truncating a number that is near an integer.\<close>

lemma fp_to_int_near:
  assumes "\<bar>r - of_int d\<bar> < 1" "d = 0 \<Longrightarrow> r = 0"
  shows "fp_to_int r = d \<or> fp_to_int r = d - sgn d"
proof (cases d "0 :: int" rule: linorder_cases)
  case less
  then have "(of_int d :: rat) \<le> of_int (- 1)" by (simp only: of_int_le_iff)
  then have "r < 0" using assms(1) by simp
  moreover have "of_int d - 1 < r" "r < of_int d + 1" using assms(1) by (simp_all add: abs_less_iff algebra_simps)
  then have "\<lceil>r\<rceil> = d \<or> \<lceil>r\<rceil> = d + 1" by linarith
  ultimately show ?thesis using less by (simp add: fp_to_int_def sgn_if)
next
  case equal
  then show ?thesis using assms(2) by (simp add: fp_to_int_def)
next
  case greater
  then have "(of_int 1 :: rat) \<le> of_int d" by (simp only: of_int_le_iff)
  then have "0 < r" using assms(1) by (simp add: abs_less_iff)
  moreover have "of_int d - 1 < r" "r < of_int d + 1" using assms(1) by (simp_all add: abs_less_iff algebra_simps)
  then have "\<lfloor>r\<rfloor> = d \<or> \<lfloor>r\<rfloor> = d - 1" by linarith
  ultimately show ?thesis using greater by (simp add: fp_to_int_def sgn_if)
qed

lemma there_and_back_error:
  assumes "\<bar>d\<bar> \<le> 2 ^ 51"
  shows "\<bar>fp_mul (fp_div (of_int d) 1000000) 1000000 - of_int d\<bar> < 1"
proof -
  let ?d = "of_int d :: rat" and ?t = "1 / 2 ^ 1075 :: rat"
  define q where "q = fp_div ?d 1000000"
  have "\<bar>?d\<bar> = of_int \<bar>d\<bar>" by simp
  also have "\<dots> \<le> of_int (2 ^ 51)" using assms by (simp only: of_int_le_iff)
  finally have d: "\<bar>?d\<bar> \<le> 2 ^ 51" by simp
  have t: "?t \<le> 1 / 2 ^ 40"
  proof -
    have "(2 :: rat) ^ 40 \<le> 2 ^ 1075" by (rule power_increasing) simp_all
    then show ?thesis by (intro divide_left_mono) simp_all
  qed
  define u where "u = ?t"
  have u: "0 \<le> u" "u \<le> 1 / 2 ^ 40" using t by (simp_all add: u_def)
  have "\<bar>q - ?d / 1000000\<bar> \<le> \<bar>?d / 1000000\<bar> / 2 ^ 53 + u" unfolding q_def fp_div_def u_def by (rule fp_round_error)
  then have e1: "\<bar>q * 1000000 - ?d\<bar> \<le> \<bar>?d\<bar> / 2 ^ 53 + 1000000 * u" by (simp add: abs_le_iff)
  have e2: "\<bar>fp_mul q 1000000 - q * 1000000\<bar> \<le> \<bar>q * 1000000\<bar> / 2 ^ 53 + u"
    unfolding fp_mul_def u_def by (rule fp_round_error)
  have "\<bar>q * 1000000\<bar> \<le> \<bar>?d\<bar> + \<bar>?d\<bar> / 2 ^ 53 + 1000000 * u" using e1 by linarith
  then have e3: "\<bar>q * 1000000\<bar> / 2 ^ 53 \<le> (\<bar>?d\<bar> + \<bar>?d\<bar> / 2 ^ 53 + 1000000 * u) / 2 ^ 53"
    by (rule divide_right_mono) simp
  have "\<bar>fp_mul q 1000000 - ?d\<bar> \<le> \<bar>fp_mul q 1000000 - q * 1000000\<bar> + \<bar>q * 1000000 - ?d\<bar>"
    using abs_triangle_ineq [of "fp_mul q 1000000 - q * 1000000" "q * 1000000 - ?d"] by simp
  moreover have "a \<le> c + e + v" if "a \<le> b + b'" "b' \<le> c" "b \<le> f + v" "f \<le> e" for a b b' c e f v :: rat using that by linarith
  ultimately have "\<bar>fp_mul q 1000000 - ?d\<bar> \<le> (\<bar>?d\<bar> / 2 ^ 53 + 1000000 * u) + (\<bar>?d\<bar> + \<bar>?d\<bar> / 2 ^ 53 + 1000000 * u) / 2 ^ 53 + u"
    using e1 e2 e3 by blast
  also have "\<dots> < 1" using d u by (simp add: add_divide_distrib)
  finally show ?thesis by (simp add: q_def)
qed

subsection \<open>Properties\<close>

text \<open>249 microseconds come back as 248.\<close>

lemma time_difference_short:
  "microSecondsSinceEpoch (addTime \<lparr>microSecondsSinceEpoch = 0\<rparr> (timeDifference \<lparr>microSecondsSinceEpoch = 249\<rparr> \<lparr>microSecondsSinceEpoch = 0\<rparr>)) = 248"
  by code_simp

text \<open>
  C39: adding a time difference back: for stamps at most 71 years apart (\<open>2^51\<close> microseconds), \<open>addTime low (timeDifference
  high low)\<close> is \<open>high\<close> or one microsecond short of it, never beyond it.
\<close>

theorem time_difference_back:
  assumes "\<bar>microSecondsSinceEpoch high - microSecondsSinceEpoch low\<bar> \<le> 2 ^ 51"
  shows "microSecondsSinceEpoch (addTime low (timeDifference high low)) \<in>
    {microSecondsSinceEpoch high,
     microSecondsSinceEpoch high - sgn (microSecondsSinceEpoch high - microSecondsSinceEpoch low)}"
proof -
  let ?d = "microSecondsSinceEpoch high - microSecondsSinceEpoch low"
  have k: "fp_of_int kMicroSecondsPerSecond = 1000000" "fp_of_int ?d = of_int ?d"
    using assms by (simp_all add: fp_of_int_exact kMicroSecondsPerSecond_def)
  have "fp_to_int (fp_mul (fp_div (of_int ?d) 1000000) 1000000) = ?d \<or>
      fp_to_int (fp_mul (fp_div (of_int ?d) 1000000) 1000000) = ?d - sgn ?d"
    by (rule fp_to_int_near [OF there_and_back_error [OF assms]]) (simp add: fp_mul_def fp_div_def fp_round_def)
  then show ?thesis by (auto simp: addTime_def timeDifference_def Let_def k)
qed

theorem time_difference_back_witness:
  "microSecondsSinceEpoch (addTime (ts_of 0) (timeDifference (ts_of 249) (ts_of 0))) \<in> {249, 248} \<and>
   microSecondsSinceEpoch (addTime (ts_of 0) (timeDifference (ts_of 249) (ts_of 0))) \<noteq> 249"
  using time_difference_back [of "ts_of 249" "ts_of 0"] time_difference_short by (simp add: ts_of_def)

end
