(* ===== verification/Bench_Format.thy ===== *)
theory Bench_Format
  imports Time_Arith
begin

text \<open>
  The text of numbers that the programs of \<open>benchmarks\<close> print: \<open>std::setw\<close>, \<open>std::fixed\<close> with \<open>std::setprecision\<close>, the
  default format of a \<open>double\<close>, and the rate of operations per second.  Doubles are rationals as in \<open>Time_Arith\<close>; the decimal
  text is that of the exact value, rounded to even at a tie.
\<close>

subsection \<open>Fields\<close>

definition padRight :: "nat \<Rightarrow> char \<Rightarrow> string \<Rightarrow> string" where
  "padRight w c s = s @ replicate (w - length s) c"

definition setwLeft :: "nat \<Rightarrow> string \<Rightarrow> string" where
  "setwLeft w s = padRight w (CHR '' '') s"

definition setwRight :: "nat \<Rightarrow> string \<Rightarrow> string" where
  "setwRight w s = padLeft w (CHR '' '') s"

subsection \<open>Numbers\<close>

text \<open>\<open>std::fixed\<close> with \<open>p\<close> digits behind the point.\<close>

definition fixedText :: "nat \<Rightarrow> double \<Rightarrow> string" where
  "fixedText p x =
     (let ds = padLeft (p + 1) (CHR ''0'') (digits10 (nat (round_even (\<bar>x\<bar> * 10 ^ p)))); k = length ds - p in
      (if x < 0 then ''-'' else []) @ take k ds @ (if p = 0 then [] else CHR ''.'' # drop k ds))"

text \<open>The default format: six significant digits, trailing zeros left out, an exponent where it is below -4 or above 5.\<close>

definition ten_to :: "int \<Rightarrow> rat" where
  "ten_to e = (if 0 \<le> e then 10 ^ nat e else 1 / 10 ^ nat (- e))"

definition decExp :: "rat \<Rightarrow> int" where
  "decExp x = (if 1 \<le> x then int (length (digits10 (nat \<lfloor>x\<rfloor>))) - 1 else - int (length (digits10 (nat (\<lceil>1 / x\<rceil> - 1)))))"

definition stripZeros :: "string \<Rightarrow> string" where
  "stripZeros ds = rev (dropWhile (\<lambda>c. c = CHR ''0'') (rev ds))"

definition pointed :: "string \<Rightarrow> string \<Rightarrow> string" where
  "pointed whole decimals = (let f = stripZeros decimals in if f = [] then whole else whole @ CHR ''.'' # f)"

definition generalText :: "double \<Rightarrow> string" where
  "generalText x =
     (if x = 0 then ''0''
      else let e0 = decExp \<bar>x\<bar>; n0 = round_even (\<bar>x\<bar> / ten_to (e0 - 5));
               (n, e) = (if n0 = 1000000 then (100000, e0 + 1) else (n0, e0)); ds = digits10 (nat n)
           in (if x < 0 then ''-'' else []) @
              (if 0 \<le> e \<and> e < 6 then pointed (take (nat e + 1) ds) (drop (nat e + 1) ds)
               else if - 4 \<le> e \<and> e < 0 then pointed ''0'' (replicate (nat (- e) - 1) (CHR ''0'') @ ds)
               else pointed (take 1 ds) (drop 1 ds) @ ''e'' @ (if e < 0 then ''-'' else ''+'') @ padLeft 2 (CHR ''0'') (digits10 (nat \<bar>e\<bar>))))"

text \<open>
  A quotient of an \<open>int\<close> and a \<open>double\<close> without digits behind the point; by zero it is an infinity, or not a number, whose text
  \<open>nanText\<close> has a sign that the standard leaves open.
\<close>

definition rateText :: "string \<Rightarrow> int \<Rightarrow> double \<Rightarrow> string" where
  "rateText nanText count seconds =
     (if seconds = 0 then (if count = 0 then nanText else if 0 < count then ''inf'' else ''-inf'')
      else fixedText 0 (fp_div (fp_of_int count) seconds))"

subsection \<open>What the text says\<close>

lemma length_setw [simp]: "length (setwLeft w s) = max w (length s)" "length (setwRight w s) = max w (length s)"
  by (simp_all add: setwLeft_def setwRight_def padRight_def padLeft_def)

text \<open>The digits of a fixed text are those of the number scaled and rounded, so its error is half a unit of its last digit.\<close>

lemma digits_padded: "int_of_digits (padLeft w (CHR ''0'') (digits10 n)) = int n"
proof -
  have z: "foldl (\<lambda>acc c. acc * 10 + digitVal c) 0 (replicate k (CHR ''0'')) = 0" for k
    by (induction k) (simp_all add: digitVal_def)
  show ?thesis by (simp add: padLeft_def int_of_digits_def z digits10_value)
qed

lemma fixedText_digits: "int_of_digits (filter isdigit (fixedText p x)) = round_even (\<bar>x\<bar> * 10 ^ p)"
proof -
  let ?n = "round_even (\<bar>x\<bar> * 10 ^ p)" and ?ds = "padLeft (p + 1) (CHR ''0'') (digits10 (nat (round_even (\<bar>x\<bar> * 10 ^ p))))"
  have "0 \<le> \<lfloor>\<bar>x\<bar> * 10 ^ p\<rfloor>" by simp
  then have n: "0 \<le> ?n" by (auto simp: round_even_def Let_def)
  have "isdigit (CHR ''0'')" by (simp add: isdigit_def)
  then have "\<forall>c \<in> set ?ds. isdigit c" by (auto simp: padLeft_def digits10_isdigit)
  then have d: "filter isdigit ?ds = ?ds" by simp
  have s: "filter isdigit (take k ?ds) @ filter isdigit (drop k ?ds) = ?ds" for k
    unfolding filter_append [symmetric] append_take_drop_id by (rule d)
  have "\<not> isdigit (CHR ''-'')" "\<not> isdigit (CHR ''.'')" by (simp_all add: isdigit_def)
  moreover have "p = 0 \<Longrightarrow> filter isdigit (take (length ?ds) ?ds) = ?ds" using d by simp
  ultimately have "filter isdigit (fixedText p x) = ?ds"
    using s [of "length ?ds - p"] by (auto simp: fixedText_def Let_def)
  then show ?thesis using n digits_padded [of "p + 1" "nat ?n"] by simp
qed

lemma fixedText_error: "\<bar>of_int (int_of_digits (filter isdigit (fixedText p x))) / 10 ^ p - \<bar>x\<bar>\<bar> \<le> 1 / (2 * 10 ^ p)"
proof -
  let ?y = "\<bar>x\<bar> * 10 ^ p"
  have "of_int (round_even ?y) / 10 ^ p - \<bar>x\<bar> = (of_int (round_even ?y) - ?y) / 10 ^ p" by (simp add: diff_divide_distrib)
  also have "\<bar>\<dots>\<bar> \<le> (1 / 2) / 10 ^ p"
    unfolding abs_divide using divide_right_mono [OF round_even_error [of ?y], of "10 ^ p"] by simp
  finally show ?thesis unfolding fixedText_digits by simp
qed

lemma text_examples:
  "fixedText 3 (1 / 3) = ''0.333''" "fixedText 0 (5 / 2) = ''2''" 
  by code_simp+

end
