(* ===== verification/List_Bench.thy ===== *)
theory List_Bench
  imports Bench_Format Skip_List_Correct "HOL-Library.List_Lexorder" "HOL-Library.Char_ord"
begin

text \<open>
  The benchmark of the list (\<open>benchmarks/skiplist_bench.cpp\<close>).  The clock is read through its stamps, random numbers are
  streams of what the distributions return; a list with its random levels is as in \<open>Skip_List\<close>.  The results of the searches,
  which the program drops, are returned beside the printed line.
\<close>

subsection \<open>The tests with one thread\<close>

type_synonym bench_list = "(string, string) skiplist"

definition benchChars :: string where
  "benchChars = ''abcdefghijklmnopqrstuvwxyzABCDEFGHIJKLMNOPQRSTUVWXYZ0123456789''"

definition randomString :: "int \<Rightarrow> (nat \<Rightarrow> nat) \<Rightarrow> string \<times> (nat \<Rightarrow> nat)" where
  "randomString len r = (map (\<lambda>i. benchChars ! r i) [0..<nat len], \<lambda>i. r (i + nat len))"

definition printResult :: "string \<Rightarrow> string \<Rightarrow> int \<Rightarrow> double \<Rightarrow> string" where
  "printResult nanText testName count seconds =
     setwLeft 30 testName @ setwRight 10 (to_string count) @ '' ops, '' @
     setwRight 8 (fixedText 3 seconds) @ '' sec, '' @ setwRight 12 (rateText nanText count seconds) @ '' QPS'' @ [LF]"

definition benchKey :: "int \<Rightarrow> string" where
  "benchKey i = ''key'' @ to_string i"

fun insertEach :: "(string \<times> string) list \<Rightarrow> bench_list \<Rightarrow> bench_list option" where
  "insertEach [] sl = Some sl"
| "insertEach ((k, v) # kvs) sl = do { (sl1, b) \<leftarrow> sl_insert k v sl; insertEach kvs sl1 }"

fun searchAll :: "string list \<Rightarrow> bench_list \<Rightarrow> bool list option" where
  "searchAll [] sl = Some []"
| "searchAll (k # ks) sl = do { v \<leftarrow> sl_search k sl; found \<leftarrow> searchAll ks sl; Some ((v \<noteq> None) # found) }"

definition numbered :: "int \<Rightarrow> (string \<times> string) list" where
  "numbered count = map (\<lambda>i. (benchKey (int i), ''value'' @ to_string (int i))) [0..<nat count]"

definition benchSequentialInsert :: "string \<Rightarrow> timestamp \<Rightarrow> timestamp \<Rightarrow> bench_list \<Rightarrow> int \<Rightarrow> (bench_list \<times> string) option" where
  "benchSequentialInsert nanText start finish sl count = do {
     sl1 \<leftarrow> insertEach (numbered count) sl;
     Some (sl1, printResult nanText ''Sequential Insert'' count (timeDifference finish start)) }"

fun randomPairs :: "nat \<Rightarrow> (nat \<Rightarrow> nat) \<Rightarrow> (string \<times> string) list" where
  "randomPairs 0 r = []"
| "randomPairs (Suc n) r = (case randomString 16 r of (k, r1) \<Rightarrow> case randomString 32 r1 of (v, r2) \<Rightarrow> (k, v) # randomPairs n r2)"

definition benchRandomInsert :: "string \<Rightarrow> timestamp \<Rightarrow> timestamp \<Rightarrow> (nat \<Rightarrow> nat) \<Rightarrow> bench_list \<Rightarrow> int \<Rightarrow> (bench_list \<times> string) option" where
  "benchRandomInsert nanText start finish r sl count = do {
     sl1 \<leftarrow> insertEach (randomPairs (nat count) r) sl;
     Some (sl1, printResult nanText ''Random Insert'' count (timeDifference finish start)) }"

text \<open>The remainder by the size: None where the size is zero and there is something to search.\<close>

definition benchSequentialSearch :: "string \<Rightarrow> timestamp \<Rightarrow> timestamp \<Rightarrow> bench_list \<Rightarrow> int \<Rightarrow> (bool list \<times> string) option" where
  "benchSequentialSearch nanText start finish sl count =
     (if 0 < count \<and> sl_size sl = 0 then None
      else do {
        found \<leftarrow> searchAll (map (\<lambda>i. benchKey (int i smod sl_size sl)) [0..<nat count]) sl;
        Some (found, printResult nanText ''Sequential Search'' count (timeDifference finish start)) })"

text \<open>\<open>std::uniform_int_distribution<>(0, b)\<close> is defined for \<open>0 \<le> b\<close> only.\<close>

definition uniformTo :: "int \<Rightarrow> unit option" where
  "uniformTo b = (if 0 \<le> b then Some () else None)"

definition benchRandomSearch :: "string \<Rightarrow> timestamp \<Rightarrow> timestamp \<Rightarrow> (nat \<Rightarrow> int) \<Rightarrow> bench_list \<Rightarrow> int \<Rightarrow> (bool list \<times> string) option" where
  "benchRandomSearch nanText start finish dis sl count = do {
     uniformTo (sl_size sl - 1);
     found \<leftarrow> searchAll (map (\<lambda>i. benchKey (dis i)) [0..<nat count]) sl;
     Some (found, printResult nanText ''Random Search'' count (timeDifference finish start)) }"

text \<open>The mixed test: \<open>opDis i\<close> is drawn in pass \<open>i\<close>, \<open>keyDis\<close> is drawn for the reads.\<close>

fun mixedLoop :: "int \<Rightarrow> (nat \<Rightarrow> int) \<Rightarrow> (nat \<Rightarrow> int) \<Rightarrow> nat list \<Rightarrow> bench_list \<times> nat \<times> nat \<Rightarrow> (bench_list \<times> nat \<times> nat) option" where
  "mixedLoop readRatio opDis keyDis [] s = Some s"
| "mixedLoop readRatio opDis keyDis (i # is) (sl, reads, writes) =
     (if opDis i \<le> readRatio then do {
        v \<leftarrow> sl_search (benchKey (keyDis reads)) sl;
        mixedLoop readRatio opDis keyDis is (sl, reads + 1, writes) }
      else do {
        (sl1, b) \<leftarrow> sl_insert (benchKey (sl_size sl + int i)) ''value'' sl;
        mixedLoop readRatio opDis keyDis is (sl1, reads, writes + 1) })"

definition benchMixedReadWrite :: "string \<Rightarrow> timestamp \<Rightarrow> timestamp \<Rightarrow> (nat \<Rightarrow> int) \<Rightarrow> (nat \<Rightarrow> int) \<Rightarrow> bench_list \<Rightarrow> int \<Rightarrow> int \<Rightarrow>
    (bench_list \<times> nat \<times> nat \<times> string) option" where
  "benchMixedReadWrite nanText start finish opDis keyDis sl count readRatio = do {
     uniformTo (sl_size sl - 1);
     (sl1, reads, writes) \<leftarrow> mixedLoop readRatio opDis keyDis [0..<nat count] (sl, 0, 0);
     Some (sl1, reads, writes,
       printResult nanText (''Mixed '' @ to_string readRatio @ ''% Read'') count (timeDifference finish start)) }"

subsection \<open>The test with many threads\<close>

text \<open>
  Every insertion holds the mutex of the list, so the threads interleave insertion by insertion.  \<open>sched\<close> names the threads in the
  order in which they get to insert; the threads are joined when they have nothing left.
\<close>

definition threadKeys :: "int \<Rightarrow> int \<Rightarrow> string list" where
  "threadKeys t countPerThread = map (\<lambda>i. ''t'' @ to_string t @ ''_key'' @ to_string (int i)) [0..<nat countPerThread]"

fun concurrentRun :: "nat list \<Rightarrow> string list list \<times> bench_list \<Rightarrow> (string list list \<times> bench_list) option" where
  "concurrentRun [] s = Some s"
| "concurrentRun (t # sched) (todo, sl) =
     (if t < length todo \<and> todo ! t \<noteq> [] then do {
        (sl1, b) \<leftarrow> sl_insert (hd (todo ! t)) ''value'' sl;
        concurrentRun sched (todo[t := tl (todo ! t)], sl1) }
      else concurrentRun sched (todo, sl))"

definition benchConcurrentInsert :: "string \<Rightarrow> timestamp \<Rightarrow> timestamp \<Rightarrow> (nat \<Rightarrow> rat) \<Rightarrow> nat list \<Rightarrow> int \<Rightarrow> int \<Rightarrow> (bench_list \<times> string) option" where
  "benchConcurrentInsert nanText start finish levels sched numThreads countPerThread = do {
     (todo, sl) \<leftarrow> concurrentRun sched (map (\<lambda>t. threadKeys (int t) countPerThread) [0..<nat numThreads],
                     sl_new [] [] kDefaultMaxLevel levels);
     if \<forall>ks \<in> set todo. ks = []
     then Some (sl, printResult nanText (''Concurrent Insert ('' @ to_string numThreads @ '' threads)'')
            (numThreads * countPerThread) (timeDifference finish start))
     else None }"

subsection \<open>The program\<close>

text \<open>What the run meets: the clock, the level draws of the lists, the draws of the distributions, and the schedules of the threads.\<close>

record bench_env =
  clock :: "nat \<Rightarrow> timestamp"
  levelDraws :: "nat \<Rightarrow> nat \<Rightarrow> rat"
  charDraws :: "nat \<Rightarrow> nat"
  searchDraws :: "nat \<Rightarrow> int"
  opDraws :: "int \<Rightarrow> nat \<Rightarrow> int"
  keyDraws :: "int \<Rightarrow> nat \<Rightarrow> int"
  schedules :: "int \<Rightarrow> nat list"
  nanOf :: string

definition list_banner :: "int \<Rightarrow> string" where
  "list_banner count =
     ''========================================'' @ [LF] @
     ''    SkipList Benchmark'' @ [LF] @
     ''========================================'' @ [LF] @
     ''Operations per test: '' @ to_string count @ [LF] @
     ''----------------------------------------'' @ [LF]"

definition newList :: "bench_env \<Rightarrow> nat \<Rightarrow> bench_list" where
  "newList env i = sl_new [] [] kDefaultMaxLevel (levelDraws env i)"

definition list_bench_main :: "bench_env \<Rightarrow> string list \<Rightarrow> (int \<times> string) option" where
  "list_bench_main env args =
     (let count = (case args of [] \<Rightarrow> 100000 | a # as \<Rightarrow> atoi a); nt = nanOf env; t = clock env in do {
        (sl1, o1) \<leftarrow> benchSequentialInsert nt (t 0) (t 1) (newList env 0) count;
        (sl2, o2) \<leftarrow> benchRandomInsert nt (t 2) (t 3) (charDraws env) (newList env 1) count;
        sl3 \<leftarrow> insertEach (numbered count) (newList env 2);
        (f1, o3) \<leftarrow> benchSequentialSearch nt (t 4) (t 5) sl3 count;
        (f2, o4) \<leftarrow> benchRandomSearch nt (t 6) (t 7) (searchDraws env) sl3 count;
        (sl4, r1, w1, o5) \<leftarrow> benchMixedReadWrite nt (t 8) (t 9) (opDraws env 90) (keyDraws env 90) sl3 count 90;
        (sl5, r2, w2, o6) \<leftarrow> benchMixedReadWrite nt (t 10) (t 11) (opDraws env 50) (keyDraws env 50) sl4 count 50;
        (c2, o7) \<leftarrow> benchConcurrentInsert nt (t 12) (t 13) (levelDraws env 3) (schedules env 2) 2 (count sdiv 2);
        (c4, o8) \<leftarrow> benchConcurrentInsert nt (t 14) (t 15) (levelDraws env 4) (schedules env 4) 4 (count sdiv 4);
        (c8, o9) \<leftarrow> benchConcurrentInsert nt (t 16) (t 17) (levelDraws env 5) (schedules env 8) 8 (count sdiv 8);
        Some (0, list_banner count @ o1 @ o2 @ o3 @ o4 @ o5 @ o6 @
          ''----------------------------------------'' @ [LF] @ o7 @ o8 @ o9 @
          ''========================================'' @ [LF]) })"

subsection \<open>Keys\<close>

lemma to_string_inj: "0 \<le> i \<Longrightarrow> 0 \<le> j \<Longrightarrow> to_string i = to_string j \<longleftrightarrow> i = j"
  using digits10_inj [of "nat i" "nat j"] by (auto simp: to_string_def)

lemma benchKey_inj: "0 \<le> i \<Longrightarrow> 0 \<le> j \<Longrightarrow> benchKey i = benchKey j \<longleftrightarrow> i = j"
  by (simp add: benchKey_def to_string_inj)

lemma insertEach_inv: "sl_inv sl \<Longrightarrow> \<exists>sl'. insertEach kvs sl = Some sl' \<and> sl_inv sl' \<and> sl_map sl' = sl_map sl ++ map_of (rev kvs)"
  by (rule slist.ins_batch) simp_all

lemma searchAll_inv: "sl_inv sl \<Longrightarrow> searchAll ks sl = Some (map (\<lambda>k. sl_map sl k \<noteq> None) ks)"
  by (induction ks) (simp_all add: slist.lookup)

lemma distinct_numbered: "distinct (map fst (numbered n))"
proof -
  have "inj_on (\<lambda>i. benchKey (int i)) {0..<nat n}" by (rule inj_onI) (simp add: benchKey_inj)
  then show ?thesis by (simp add: numbered_def comp_def distinct_map)
qed

text \<open>A new list after the numbered pairs went in.\<close>

definition holdsNumbered :: "int \<Rightarrow> bench_list \<Rightarrow> bool" where
  "holdsNumbered n sl \<longleftrightarrow> sl_inv sl \<and> sl_map sl = map_of (numbered n) \<and> sl_size sl = max 0 n"

lemma map_of_numbered: "map_of (numbered n) (benchKey i) = (if 0 \<le> i \<and> i < n then Some (''value'' @ to_string i) else None)" if "0 \<le> i" for i
proof (cases "i < n")
  case True
  then have "(benchKey i, ''value'' @ to_string i) \<in> set (numbered n)"
    using that by (force simp: numbered_def intro: image_eqI [of _ _ "nat i"])
  with True that distinct_numbered [of n] show ?thesis by simp
next
  case False
  then have "benchKey i \<notin> fst ` set (numbered n)" using that by (auto simp: numbered_def benchKey_inj)
  with False show ?thesis by (simp add: map_of_eq_None_iff)
qed

lemma insert_numbered:
  assumes "sl_inv sl" "sl_map sl = Map.empty"
  shows "\<exists>sl'. insertEach (numbered n) sl = Some sl' \<and> holdsNumbered n sl'"
proof -
  obtain sl' where s: "insertEach (numbered n) sl = Some sl'" "sl_inv sl'" "sl_map sl' = map_of (rev (numbered n))"
    using insertEach_inv [OF assms(1), of "numbered n"] assms(2) by auto
  have m: "map_of (rev (numbered n)) = map_of (numbered n)"
    using map_of_inject_set [of "rev (numbered n)" "numbered n"] distinct_numbered [of n] by (simp add: rev_map [symmetric])
  have "card (dom (sl_map sl')) = length (map fst (numbered n))"
    unfolding s(3) m dom_map_of_conv_image_fst using distinct_card [OF distinct_numbered [of n]] by simp
  then have "sl_size sl' = max 0 n" using slist.count_card [OF s(2)] by (simp add: numbered_def)
  with s m show ?thesis by (simp add: holdsNumbered_def)
qed

lemma new_numbered: "\<exists>sl. insertEach (numbered n) (sl_new [] [] m r) = Some sl \<and> holdsNumbered n sl"
  by (rule insert_numbered) (simp_all add: sl_new_inv sl_new_list)

subsection \<open>The mixed test\<close>

text \<open>The keys that are still to be written are not in the list.\<close>

definition freshFrom :: "int \<Rightarrow> bench_list \<Rightarrow> bool" where
  "freshFrom a sl \<longleftrightarrow> (\<forall>j \<ge> a. sl_map sl (benchKey j) = None)"

lemma size_nonneg: "sl_inv sl \<Longrightarrow> 0 \<le> sl_size sl"
  by (simp add: slist.count)

lemma insert_size:
  assumes "sl_inv sl" "sl_map sl k = None"
  shows "\<exists>sl'. sl_insert k v sl = Some (sl', True) \<and> sl_inv sl' \<and> sl_map sl' = (sl_map sl)(k \<mapsto> v) \<and> sl_size sl' = sl_size sl + 1"
proof -
  obtain sl' where s: "sl_insert k v sl = Some (sl', sl_map sl k = None)" "sl_inv sl'" "sl_map sl' = (sl_map sl)(k \<mapsto> v)"
    using assms(1) by (rule slist.insE)
  have "finite (dom (sl_map sl))" by (rule finite_dom_map_of)
  moreover have "k \<notin> dom (sl_map sl)" using assms(2) by blast
  ultimately have "card (dom (sl_map sl')) = Suc (card (dom (sl_map sl)))" by (simp add: s(3))
  with s assms(2) slist.count_card [OF assms(1)] slist.count_card [OF s(2)] show ?thesis by auto
qed

lemma mixedLoop_ok:
  assumes "sl_inv sl"
  shows "\<exists>sl' reads' writes'. mixedLoop q od kd is (sl, reads, writes) = Some (sl', reads', writes') \<and> sl_inv sl' \<and>
    reads' + writes' = reads + writes + length is"
  using assms
proof (induction q od kd "is" "(sl, reads, writes)" arbitrary: sl reads writes rule: mixedLoop.induct)
  case (2 q od kd i "is" sl reads writes)
  show ?case
  proof (cases "od i \<le> q")
    case True
    with 2 show ?thesis by (fastforce simp: slist.lookup)
  next
    case False
    obtain sl1 where s1: "sl_insert (benchKey (sl_size sl + int i)) ''value'' sl =
        Some (sl1, sl_map sl (benchKey (sl_size sl + int i)) = None)" "sl_inv sl1" using "2.prems" by (rule slist.insE)
    with "2.hyps"(2) [OF False s1(1) refl s1(2)] False show ?thesis by fastforce
  qed
qed simp

lemma mixedLoop_fresh:
  assumes "sl_inv sl" "freshFrom (sl_size sl + int i) sl"
  shows "\<exists>sl' reads' writes'. mixedLoop q od kd [i..<i + n] (sl, reads, writes) = Some (sl', reads', writes') \<and> sl_inv sl' \<and>
    reads' + writes' = reads + writes + n \<and> sl_size sl' = sl_size sl + int writes' - int writes"
  using assms
proof (induction n arbitrary: i sl reads writes)
  case (Suc n)
  have up: "[i..<i + Suc n] = i # [Suc i..<Suc i + n]" by (simp add: upt_rec)
  show ?case
  proof (cases "od i \<le> q")
    case True
    have "freshFrom (sl_size sl + int (Suc i)) sl" using Suc.prems(2) by (simp add: freshFrom_def)
    from Suc.IH [OF Suc.prems(1) this, of "reads + 1" writes] True slist.lookup [OF Suc.prems(1)] show ?thesis unfolding up by auto
  next
    case False
    let ?k = "sl_size sl + int i"
    have "sl_map sl (benchKey ?k) = None" using Suc.prems(2) by (simp add: freshFrom_def)
    from insert_size [OF Suc.prems(1) this, of "''value''"] obtain sl1 where
      s1: "sl_insert (benchKey ?k) ''value'' sl = Some (sl1, True)" "sl_inv sl1" "sl_map sl1 = (sl_map sl)(benchKey ?k \<mapsto> ''value'')"
        "sl_size sl1 = sl_size sl + 1" by blast
    have "freshFrom (sl_size sl1 + int (Suc i)) sl1"
      using Suc.prems(2) size_nonneg [OF Suc.prems(1)] by (auto simp: freshFrom_def s1(3,4) benchKey_inj)
    from Suc.IH [OF s1(2) this, of reads "writes + 1"] False s1(1,4) show ?thesis unfolding up by fastforce
  qed
qed simp

subsection \<open>The threads\<close>

lemma threadKey_inj:
  assumes "''t'' @ to_string (int t) @ ''_key'' @ to_string (int i) = ''t'' @ to_string (int u) @ ''_key'' @ to_string (int j)"
  shows "t = u \<and> i = j"
proof -
  have w: "takeWhile (\<lambda>c. c \<noteq> CHR ''_'') (to_string (int a) @ ''_key'' @ b) = to_string (int a)" for a b
  proof -
    have "c \<noteq> CHR ''_''" if "c \<in> set (digits10 a)" for c using digits10_isdigit [OF that] by (auto simp: isdigit_def)
    then show ?thesis by (simp add: to_string_def takeWhile_append)
  qed
  have "to_string (int t) = to_string (int u)" using assms w [of t "to_string (int i)"] w [of u "to_string (int j)"] by simp
  with assms show ?thesis by (simp add: to_string_inj)
qed

lemma take_from_thread:
  assumes "distinct (concat todo)" "t < length todo" "todo ! t = k # ks"
  shows "distinct (concat (todo[t := ks]))" "set (concat (todo[t := ks])) = set (concat todo) - {k}"
proof -
  have "todo = take t todo @ (k # ks) # drop (Suc t) todo" using id_take_nth_drop [OF assms(2)] assms(3) by simp
  then obtain a b where ab: "todo = a @ (k # ks) # b" "length a = t" using assms(2) by (metis length_take min.absorb2 less_imp_le)
  then show "distinct (concat (todo[t := ks]))" "set (concat (todo[t := ks])) = set (concat todo) - {k}"
    using assms(1) by (auto simp: list_update_append)
qed

lemma concurrentRun_ok:
  assumes "sl_inv sl" "distinct (concat todo)" "\<forall>k \<in> set (concat todo). sl_map sl k = None"
  shows "\<exists>todo' sl'. concurrentRun sched (todo, sl) = Some (todo', sl') \<and> sl_inv sl' \<and> length todo' = length todo \<and>
    (\<forall>t < length todo. todo' ! t = drop (count_list sched t) (todo ! t)) \<and>
    sl_map sl' = (\<lambda>k. if k \<in> set (concat todo) - set (concat todo') then Some ''value'' else sl_map sl k) \<and>
    set (concat todo') \<subseteq> set (concat todo) \<and>
    sl_size sl' = sl_size sl + int (length (concat todo)) - int (length (concat todo'))"
  using assms
proof (induction sched arbitrary: todo sl)
  case (Cons t sched)
  show ?case
  proof (cases "t < length todo \<and> todo ! t \<noteq> []")
    case False
    have "drop (Suc (count_list sched t)) (todo ! t) = drop (count_list sched t) (todo ! t)" if "t < length todo" using False that by simp
    with Cons.IH [OF Cons.prems] False show ?thesis by auto
  next
    case True
    then obtain k ks where k: "todo ! t = k # ks" by (meson list.exhaust)
    have t: "t < length todo" using True by simp
    note d = take_from_thread [OF Cons.prems(2) t k]
    have kin: "k \<in> set (concat todo)" using t k by (auto simp: in_set_conv_nth intro!: bexI [of _ "todo ! t"])
    then have "sl_map sl k = None" using Cons.prems(3) by blast
    from insert_size [OF Cons.prems(1) this, of "''value''"] obtain sl1 where
      s1: "sl_insert k ''value'' sl = Some (sl1, True)" "sl_inv sl1" "sl_map sl1 = (sl_map sl)(k \<mapsto> ''value'')"
        "sl_size sl1 = sl_size sl + 1" by blast
    have "\<forall>k' \<in> set (concat (todo[t := ks])). sl_map sl1 k' = None" unfolding d(2) using Cons.prems(3) by (auto simp: s1(3))
    from Cons.IH [OF s1(2) d(1) this] obtain todo' sl' where
      r: "concurrentRun sched (todo[t := ks], sl1) = Some (todo', sl')" "sl_inv sl'" "length todo' = length todo"
        "\<forall>u < length todo. todo' ! u = drop (count_list sched u) (todo[t := ks] ! u)"
        "sl_map sl' = (\<lambda>k'. if k' \<in> set (concat (todo[t := ks])) - set (concat todo') then Some ''value'' else sl_map sl1 k')"
        "set (concat todo') \<subseteq> set (concat (todo[t := ks]))"
        "sl_size sl' = sl_size sl1 + int (length (concat (todo[t := ks]))) - int (length (concat todo'))" by auto
    have "length (concat todo) = card (set (concat todo))" "length (concat (todo[t := ks])) = card (set (concat todo) - {k})"
      using distinct_card [OF Cons.prems(2)] distinct_card [OF d(1)] d(2) by simp_all
    then have len: "int (length (concat todo)) = int (length (concat (todo[t := ks]))) + 1"
      using kin card_Suc_Diff1 [of "set (concat todo)" k] by simp
    have "concurrentRun (t # sched) (todo, sl) = Some (todo', sl')" using True k s1(1) r(1) by simp
    moreover have "\<forall>u < length todo. todo' ! u = drop (count_list (t # sched) u) (todo ! u)"
      using r(4) k t by (auto simp: nth_list_update)
    moreover have "sl_map sl' = (\<lambda>k'. if k' \<in> set (concat todo) - set (concat todo') then Some ''value'' else sl_map sl k')"
      using r(6) kin unfolding r(5) d(2) s1(3) by (auto simp: fun_eq_iff)
    ultimately show ?thesis using r(2,3,6,7) d(2) s1(4) len by (intro exI [of _ todo'] exI [of _ sl']) auto
  qed
qed (auto simp: fun_eq_iff)

lemma distinct_threads: "distinct (concat (map (\<lambda>t. threadKeys (int t) c) [0..<n]))"
proof (induction n)
  case (Suc n)
  have "distinct (threadKeys (int n) c)"
    unfolding threadKeys_def distinct_map by (intro conjI inj_onI) (auto simp: to_string_inj)
  moreover have "set (threadKeys (int t) c) \<inter> set (threadKeys (int n) c) = {}" if "t < n" for t
    using that by (auto simp: threadKeys_def dest: threadKey_inj [simplified])
  ultimately show ?case using Suc by fastforce
qed simp

lemma concurrent_start:
  fixes n :: nat and c :: int
  defines "todo \<equiv> map (\<lambda>t. threadKeys (int t) c) [0..<n]"
  shows "\<exists>todo' sl'. concurrentRun sched (todo, sl_new [] [] m levels) = Some (todo', sl') \<and> sl_inv sl' \<and> length todo' = n \<and>
    (\<forall>t < n. todo' ! t = drop (count_list sched t) (threadKeys (int t) c)) \<and>
    sl_map sl' = (\<lambda>k. if k \<in> set (concat todo) - set (concat todo') then Some ''value'' else None) \<and>
    sl_size sl' = int (length (concat todo)) - int (length (concat todo'))"
proof -
  have i: "sl_inv (sl_new [] [] m levels :: bench_list)" "sl_map (sl_new [] [] m levels :: bench_list) = Map.empty"
    by (simp_all add: sl_new_inv sl_new_list)
  have z: "sl_size (sl_new [] [] m levels :: bench_list) = 0" using slist.count [OF i(1)] by (simp add: sl_new_list)
  have d: "distinct (concat todo)" unfolding todo_def by (rule distinct_threads)
  have "\<forall>k \<in> set (concat todo). sl_map (sl_new [] [] m levels :: bench_list) k = None" by (simp add: sl_new_list)
  from concurrentRun_ok [OF i(1) d this, of sched] show ?thesis unfolding i(2) z by (fastforce simp: todo_def)
qed

text \<open>A schedule that lets every thread insert often enough finishes.\<close>

lemma concurrent_finishes:
  assumes "\<forall>t < nat numThreads. nat countPerThread \<le> count_list sched t"
  shows "\<exists>sl out. benchConcurrentInsert nt a b levels sched numThreads countPerThread = Some (sl, out)"
proof -
  obtain todo sl where r: "concurrentRun sched (map (\<lambda>t. threadKeys (int t) countPerThread) [0..<nat numThreads],
      sl_new [] [] kDefaultMaxLevel levels) = Some (todo, sl)"
    "length todo = nat numThreads" "\<forall>t < nat numThreads. todo ! t = drop (count_list sched t) (threadKeys (int t) countPerThread)"
    using concurrent_start [of sched countPerThread "nat numThreads" kDefaultMaxLevel levels] by blast
  have "todo ! t = []" if "t < length todo" for t using r(2,3) assms that by (simp add: threadKeys_def)
  then have "\<forall>ks \<in> set todo. ks = []" by (auto simp: in_set_conv_nth)
  with r(1) show ?thesis by (simp add: benchConcurrentInsert_def)
qed

subsection \<open>Properties\<close>

text \<open>
  The tests with one thread measure what they say: after the sequential insertion the list holds exactly the numbered pairs, so
  that the sequential and the random search find every key, and every write of a mixed test on such a list is an insertion of a new
  key; no test follows a null pointer, whatever the levels.
\<close>

lemma list_bench_single:
  assumes n: "0 < n" and dis: "\<forall>i. 0 \<le> dis i \<and> dis i < n"
  shows "\<exists>sl out. benchSequentialInsert nt a b (sl_new [] [] m r) n = Some (sl, out) \<and> sl_inv sl \<and> sl_size sl = n \<and>
    (\<forall>i. 0 \<le> i \<and> i < n \<longrightarrow> sl_search (benchKey i) sl = Some (Some (''value'' @ to_string i))) \<and>
    (\<exists>o1. benchSequentialSearch nt a1 b1 sl c = Some (replicate (nat c) True, o1)) \<and>
    (\<exists>o2. benchRandomSearch nt a2 b2 dis sl c = Some (replicate (nat c) True, o2)) \<and>
    (\<exists>sl' reads writes o3. benchMixedReadWrite nt a3 b3 od kd sl c q = Some (sl', reads, writes, o3) \<and> sl_inv sl' \<and>
       reads + writes = nat c \<and> sl_size sl' = n + int writes)"
proof -
  obtain sl where s: "insertEach (numbered n) (sl_new [] [] m r) = Some sl" "sl_inv sl" "sl_map sl = map_of (numbered n)" "sl_size sl = n"
    using new_numbered [of n m r] n by (auto simp: holdsNumbered_def max_def)
  have hit: "sl_map sl (benchKey i) = Some (''value'' @ to_string i)" if "0 \<le> i" "i < n" for i
    using that by (simp add: s(3) map_of_numbered)
  have "map (\<lambda>k. sl_map sl k \<noteq> None) (map (\<lambda>i. benchKey (int i smod n)) [0..<nat c]) = replicate (nat c) True"
  proof -
    have "0 \<le> int i smod n \<and> int i smod n < n" for i using n by (cases i) (simp_all add: signed_modulo_int_def)
    then show ?thesis by (intro nth_equalityI) (auto simp: hit)
  qed
  moreover have "map (\<lambda>k. sl_map sl k \<noteq> None) (map (\<lambda>i. benchKey (dis i)) [0..<nat c]) = replicate (nat c) True"
    using dis by (intro nth_equalityI) (auto simp: hit)
  moreover have "freshFrom (sl_size sl + int 0) sl" using n by (simp add: freshFrom_def s(3,4) map_of_numbered)
  from mixedLoop_fresh [OF s(2) this, of q od kd "nat c" 0 0] obtain sl' reads writes where
    "mixedLoop q od kd [0..<nat c] (sl, 0, 0) = Some (sl', reads, writes)" "sl_inv sl'" "reads + writes = nat c" "sl_size sl' = n + int writes"
    using s(4) by auto
  ultimately show ?thesis
    using n s hit searchAll_inv [OF s(2)]
    by (intro exI [of _ sl]) (auto simp: benchSequentialInsert_def benchSequentialSearch_def benchRandomSearch_def
        benchMixedReadWrite_def uniformTo_def slist.lookup)
qed

text \<open>
  C36: the test with many threads: however the insertions of the threads interleave, none of them fails, and when all threads have
  been joined the list has exactly the keys of all threads, as many as were asked for.
\<close>

theorem concurrent_inserts_all:
  assumes "benchConcurrentInsert nt a b levels sched numThreads countPerThread = Some (sl, out)"
  shows "sl_inv sl \<and> sl_size sl = max 0 numThreads * max 0 countPerThread \<and>
    (\<forall>k. sl_search k sl = Some (if \<exists>t < nat numThreads. k \<in> set (threadKeys (int t) countPerThread) then Some ''value'' else None))"
proof -
  let ?todo = "map (\<lambda>t. threadKeys (int t) countPerThread) [0..<nat numThreads]"
  from assms obtain todo where run: "concurrentRun sched (?todo, sl_new [] [] kDefaultMaxLevel levels) = Some (todo, sl)" and
    fin: "\<forall>ks \<in> set todo. ks = []" by (auto simp: benchConcurrentInsert_def split: Option.bind_splits if_splits)
  have ne: "concat todo = []" using fin by (simp add: concat_eq_Nil_conv)
  from concurrent_start [of sched countPerThread "nat numThreads" kDefaultMaxLevel levels] run
  have "sl_inv sl" "sl_map sl = (\<lambda>k. if k \<in> set (concat ?todo) - set (concat todo) then Some ''value'' else None)"
    "sl_size sl = int (length (concat ?todo)) - int (length (concat todo))" by (metis option.inject prod.inject)+
  then have r: "sl_inv sl" "sl_map sl = (\<lambda>k. if k \<in> set (concat ?todo) then Some ''value'' else None)"
    "sl_size sl = int (length (concat ?todo))" unfolding ne by simp_all
  have "length (concat ?todo) = nat numThreads * nat countPerThread"
    by (simp add: length_concat threadKeys_def comp_def sum_list_triv)
  moreover have "k \<in> set (concat ?todo) \<longleftrightarrow> (\<exists>t < nat numThreads. k \<in> set (threadKeys (int t) countPerThread))" for k by auto
  ultimately show ?thesis using r by (simp add: slist.lookup max_def)
qed

theorem concurrent_inserts_all_witness:
  "\<exists>sl out. benchConcurrentInsert ''nan'' (ts_of 0) (ts_of 0) (\<lambda>_. 1) [1, 0, 0, 1] 2 2 = Some (sl, out) \<and> sl_size sl = 4 \<and>
     sl_search ''t1_key0'' sl = Some (Some ''value'')"
proof -
  have "\<forall>t < nat 2. nat 2 \<le> count_list [1, 0, 0, 1] t" by (simp add: less_2_cases_iff numeral_eq_Suc)
  from concurrent_finishes [OF this] obtain sl out where
    s: "benchConcurrentInsert ''nan'' (ts_of 0) (ts_of 0) (\<lambda>_. 1) [1, 0, 0, 1] 2 2 = Some (sl, out)" by blast
  have k: "''t1_key0'' \<in> set (threadKeys (int 1) 2)" by (simp add: threadKeys_def to_string_eval upt_rec)
  from concurrent_inserts_all [OF s] k have "sl_size sl = 4" "sl_search ''t1_key0'' sl = Some (Some ''value'')"
    by (auto intro!: exI [of _ 1])
  with s show ?thesis by blast
qed

text \<open>
  The program runs to its end exactly for a positive number of operations, whatever is drawn: for zero or a negative one it makes
  a distribution over the keys of an empty list, from 0 to -1, which is undefined.
\<close>

lemma list_bench_runs:
  assumes "\<forall>k \<in> {2, 4, 8}. \<forall>t < nat k. nat (count sdiv k) \<le> count_list (schedules env k) t"
    and "count = (case args of [] \<Rightarrow> 100000 | a # as \<Rightarrow> atoi a)"
  shows "(\<exists>out. list_bench_main env args = Some (0, out)) \<longleftrightarrow> 0 < count"
proof -
  obtain sl1 where s1: "insertEach (numbered count) (newList env 0) = Some sl1" unfolding newList_def using new_numbered by blast
  obtain sl2 where s2: "insertEach (randomPairs (nat count) (charDraws env)) (newList env 1) = Some sl2"
    unfolding newList_def using insertEach_inv [OF sl_new_inv] by blast
  obtain sl3 where s3: "insertEach (numbered count) (newList env 2) = Some sl3" "holdsNumbered count sl3"
    unfolding newList_def using new_numbered by blast
  then have i3: "sl_inv sl3" "sl_size sl3 = max 0 count" by (simp_all add: holdsNumbered_def)
  obtain sl4 r1 w1 where m1: "mixedLoop 90 (opDraws env 90) (keyDraws env 90) [0..<nat count] (sl3, 0, 0) = Some (sl4, r1, w1)" "sl_inv sl4"
    "sl_size sl4 = sl_size sl3 + int w1"
  proof -
    have "freshFrom (sl_size sl3 + int 0) sl3"
      using s3(2) by (simp add: holdsNumbered_def freshFrom_def map_of_numbered)
    from mixedLoop_fresh [OF i3(1) this, of 90 "opDraws env 90" "keyDraws env 90" "nat count" 0 0] that show thesis by auto
  qed
  obtain sl5 r2 w2 where m2: "mixedLoop 50 (opDraws env 50) (keyDraws env 50) [0..<nat count] (sl4, 0, 0) = Some (sl5, r2, w2)"
    using mixedLoop_ok [OF m1(2), of 50 "opDraws env 50" "keyDraws env 50" "[0..<nat count]" 0 0] by blast
  have c: "\<exists>sl out. benchConcurrentInsert nt a b levels (schedules env k) k (count sdiv k) = Some (sl, out)"
    if "k \<in> {2, 4, 8}" for nt a b levels k using assms(1) that by (intro concurrent_finishes) blast
  obtain c2 o2 where c2: "benchConcurrentInsert (nanOf env) (clock env 12) (clock env 13) (levelDraws env 3) (schedules env 2) 2 (count sdiv 2) =
    Some (c2, o2)" using c [of 2] by blast
  obtain c4 o4 where c4: "benchConcurrentInsert (nanOf env) (clock env 14) (clock env 15) (levelDraws env 4) (schedules env 4) 4 (count sdiv 4) =
    Some (c4, o4)" using c [of 4] by blast
  obtain c8 o8 where c8: "benchConcurrentInsert (nanOf env) (clock env 16) (clock env 17) (levelDraws env 5) (schedules env 8) 8 (count sdiv 8) =
    Some (c8, o8)" using c [of 8] by blast
  show ?thesis
  proof (cases "0 < count")
    case True
    with s1 s2 s3 i3 m1 m2 c2 c4 c8 searchAll_inv [OF i3(1)] show ?thesis
      by (simp add: list_bench_main_def assms(2) [symmetric] Let_def benchSequentialInsert_def benchRandomInsert_def benchSequentialSearch_def
          benchRandomSearch_def benchMixedReadWrite_def uniformTo_def max_def)
  next
    case False
    with s1 s2 s3 i3 searchAll_inv [OF i3(1)] show ?thesis
      by (simp add: list_bench_main_def assms(2) [symmetric] Let_def benchSequentialInsert_def benchRandomInsert_def benchSequentialSearch_def
          benchRandomSearch_def uniformTo_def max_def)
  qed
qed

end
