(* ===== verification/Net_Bench.thy ===== *)
theory Net_Bench
  imports Bench_Format KV_Client
begin

text \<open>
  The two benchmarks of the server: \<open>benchmarks/simple_bench.cpp\<close> with one connection and \<open>benchmarks/kvserver_bench.cpp\<close> with
  many, each over the record of socket calls of \<open>KV_Client\<close>.  A descriptor is negative when there is none; the clock is read
  through its stamps; standard error is left out of the first program, whose messages are those of \<open>perror\<close>.
\<close>

subsection \<open>One connection\<close>

text \<open>Reading an array of characters as a C string: None when it has no end.\<close>

definition cString :: "string \<Rightarrow> string option" where
  "cString buf = (if CHR 0x00 \<in> set buf then Some (takeWhile (\<lambda>c. c \<noteq> CHR 0x00) buf) else None)"

text \<open>
  \<open>SimpleClient\<close>: the constructor reads the welcome line into an array it does not terminate and prints it; \<open>junk\<close> is what the
  array holds before.
\<close>

definition simple_open :: "'p sockets \<Rightarrow> int \<Rightarrow> bool \<Rightarrow> string \<Rightarrow> 'p \<Rightarrow> (int \<times> string \<times> 'p) option" where
  "simple_open sys fd accepted junk p =
     (if fd < 0 then Some (fd, [], p)
      else if \<not> accepted then Some (- 1, [], sys_close sys p)
      else do {
        (r, p1) \<leftarrow> sys_recv sys 256 p;
        text' \<leftarrow> cString (case r of Inl err \<Rightarrow> junk | Inr d \<Rightarrow> d @ drop (length d) junk);
        Some (fd, ''Connected! Welcome: '' @ text', p1) })"

definition simple_isConnected :: "int \<Rightarrow> bool" where
  "simple_isConnected fd \<longleftrightarrow> 0 \<le> fd"

definition simple_send :: "'p sockets \<Rightarrow> string \<Rightarrow> 'p \<Rightarrow> bool \<times> 'p" where
  "simple_send sys cmd p = (case sys_send sys cmd p of (n, p1) \<Rightarrow> (0 < n, p1))"

definition simple_recv :: "'p sockets \<Rightarrow> 'p \<Rightarrow> (string \<times> 'p) option" where
  "simple_recv sys p = do {
     (r, p1) \<leftarrow> sys_recv sys 4095 p;
     Some (case r of Inl err \<Rightarrow> [] | Inr d \<Rightarrow> takeWhile (\<lambda>c. c \<noteq> CHR 0x00) d, p1) }"

definition simple_command :: "'p sockets \<Rightarrow> string \<Rightarrow> 'p \<Rightarrow> (bool \<times> 'p) option" where
  "simple_command sys cmd p =
     (case simple_send sys (cmd @ [LF]) p of (sent, p1) \<Rightarrow>
        if \<not> sent then Some (False, p1)
        else do { (resp, p2) \<leftarrow> simple_recv sys p1; Some (resp \<noteq> [], p2) })"

definition simple_close :: "'p sockets \<Rightarrow> int \<Rightarrow> 'p \<Rightarrow> 'p" where
  "simple_close sys fd p = (if 0 \<le> fd then sys_close sys (snd (simple_send sys (''QUIT'' @ [LF]) p)) else p)"

fun simpleLoop :: "'p sockets \<Rightarrow> string list \<Rightarrow> 'p \<Rightarrow> (nat \<times> 'p) option" where
  "simpleLoop sys [] p = Some (0, p)"
| "simpleLoop sys (cmd # cmds) p = do {
     (ok, p1) \<leftarrow> simple_command sys cmd p;
     (success, p2) \<leftarrow> simpleLoop sys cmds p1;
     Some (if ok then success + 1 else success, p2) }"

definition simplePuts :: "int \<Rightarrow> string list" where
  "simplePuts count = map (\<lambda>i. ''PUT key'' @ to_string (int i) @ '' value'' @ to_string (int i)) [0..<nat count]"

definition simpleGets :: "int \<Rightarrow> string list" where
  "simpleGets count = map (\<lambda>i. ''GET key'' @ to_string (int i)) [0..<nat count]"

text \<open>\<open>(int)(success / sec)\<close>: None where the quotient is no \<open>int\<close>, as for a time of zero.\<close>

definition intRate :: "int \<Rightarrow> double \<Rightarrow> int option" where
  "intRate n sec =
     (if sec = 0 then None
      else let q = fp_to_int (fp_div (fp_of_int n) sec) in if - (2 ^ 31) \<le> q \<and> q < 2 ^ 31 then Some q else None)"

definition simpleLine :: "string \<Rightarrow> nat \<Rightarrow> int \<Rightarrow> double \<Rightarrow> string option" where
  "simpleLine what success count sec = do {
     qps \<leftarrow> intRate (int success) sec;
     Some (what @ '': '' @ to_string (int success) @ ''/'' @ to_string count @ '' in '' @ generalText sec @ ''s = '' @
       to_string qps @ '' QPS'' @ [LF]) }"

definition simple_banner :: "string \<Rightarrow> int \<Rightarrow> int \<Rightarrow> string" where
  "simple_banner hst prt count =
     ''========================================'' @ [LF] @
     ''  Simple Benchmark (Single Thread)'' @ [LF] @
     ''========================================'' @ [LF] @
     ''  Server: '' @ hst @ '':'' @ to_string prt @ [LF] @
     ''  Operations: '' @ to_string count @ [LF] @
     ''========================================'' @ [LF]"

text \<open>\<open>main\<close>: exit code, standard output and the peer.\<close>

definition simple_main :: "'p sockets \<Rightarrow> int \<Rightarrow> bool \<Rightarrow> string \<Rightarrow> (nat \<Rightarrow> timestamp) \<Rightarrow> string list \<Rightarrow> 'p \<Rightarrow> (int \<times> string \<times> 'p) option" where
  "simple_main sys fd accepted junk clk args p =
     (let count = (if 0 < length args then atoi (args ! 0) else 1000);
          hst = (if 1 < length args then args ! 1 else ''127.0.0.1'');
          prt = (if 2 < length args then atoi (args ! 2) else 6379);
          o0 = simple_banner hst prt count in do {
        (fd1, o1, p1) \<leftarrow> simple_open sys fd accepted junk p;
        (if \<not> simple_isConnected fd1 then Some (1, o0 @ o1, simple_close sys fd1 p1)
         else do {
           (s1, p2) \<leftarrow> simpleLoop sys (simplePuts count) p1;
           l1 \<leftarrow> simpleLine ''PUT'' s1 count (timeDifference (clk 1) (clk 0));
           (s2, p3) \<leftarrow> simpleLoop sys (simpleGets count) p2;
           l2 \<leftarrow> simpleLine ''GET'' s2 count (timeDifference (clk 3) (clk 2));
           Some (0, o0 @ o1 @ [LF] @ ''PUT test...'' @ [LF] @ l1 @ [LF] @ ''GET test...'' @ [LF] @ l2 @ [LF] @
             ''========================================'' @ [LF], simple_close sys fd1 p3) }) })"

subsection \<open>One client of many\<close>

record sync_client =
  syncHost :: string
  syncPort :: "16 word"
  syncFd :: int

definition sync_new :: "string \<Rightarrow> 16 word \<Rightarrow> sync_client" where
  "sync_new h prt = \<lparr>syncHost = h, syncPort = prt, syncFd = - 1\<rparr>"

text \<open>\<open>connect\<close> with the results of the two system calls and the text of \<open>strerror\<close>; also what goes to standard error.\<close>

definition sync_connect :: "'p sockets \<Rightarrow> int \<Rightarrow> bool \<Rightarrow> string \<Rightarrow> sync_client \<Rightarrow> 'p \<Rightarrow> (bool \<times> string \<times> sync_client \<times> 'p) option" where
  "sync_connect sys fd accepted connErr c p =
     (if fd < 0 then Some (False, ''socket() failed'' @ [LF], c\<lparr>syncFd := fd\<rparr>, p)
      else if \<not> accepted then Some (False, ''connect() failed: '' @ connErr @ [LF], c\<lparr>syncFd := - 1\<rparr>, sys_close sys p)
      else do {
        (r, p1) \<leftarrow> sys_recv sys 256 p;
        Some (True, case r of Inl err \<Rightarrow> ''Warning: no welcome message'' @ [LF]
                      | Inr d \<Rightarrow> if d = [] then ''Warning: no welcome message'' @ [LF] else [], c\<lparr>syncFd := fd\<rparr>, p1) })"

definition sync_disconnect :: "'p sockets \<Rightarrow> sync_client \<Rightarrow> 'p \<Rightarrow> sync_client \<times> 'p" where
  "sync_disconnect sys c p = (if 0 \<le> syncFd c then (c\<lparr>syncFd := - 1\<rparr>, sys_close sys p) else (c, p))"

definition sync_dtor :: "'p sockets \<Rightarrow> sync_client \<Rightarrow> 'p \<Rightarrow> 'p" where
  "sync_dtor sys c p = snd (sync_disconnect sys c p)"

text \<open>Any non-negative result of \<open>send\<close> counts as sent.  The response is kept where the call fails.\<close>

definition sync_sendCommand :: "'p sockets \<Rightarrow> string \<Rightarrow> string \<Rightarrow> sync_client \<Rightarrow> 'p \<Rightarrow> (bool \<times> string \<times> 'p) option" where
  "sync_sendCommand sys cmd response c p =
     (if syncFd c < 0 then Some (False, response, p)
      else case sys_send sys (cmd @ [LF]) p of (n, p1) \<Rightarrow>
        if n < 0 then Some (False, response, p1)
        else do {
          (r, p2) \<leftarrow> sys_recv sys 4095 p1;
          Some (case r of Inl err \<Rightarrow> (False, response, p2)
                | Inr d \<Rightarrow> if d = [] then (False, response, p2) else (True, takeWhile (\<lambda>c. c \<noteq> CHR 0x00) d, p2)) })"

subsection \<open>Many clients\<close>

text \<open>What the thread of client \<open>c\<close> does, one call of its client a step.\<close>

datatype bench_op = BConnect | BCommand string | BQuit

definition benchCommands :: "string \<Rightarrow> int \<Rightarrow> int \<Rightarrow> string list" where
  "benchCommands testType c requestsPerClient = concat (map (\<lambda>i.
     let key = ''bench_'' @ to_string c @ ''_'' @ to_string (int i) in
     (if testType = ''PUT'' \<or> testType = ''MIXED'' then [''PUT '' @ key @ '' value_'' @ to_string (int i)] else []) @
     (if testType = ''GET'' \<or> testType = ''MIXED'' then [''GET '' @ key] else [])) [0..<nat requestsPerClient])"

definition benchScript :: "string \<Rightarrow> int \<Rightarrow> int \<Rightarrow> bench_op list" where
  "benchScript testType c requestsPerClient = BConnect # map BCommand (benchCommands testType c requestsPerClient) @ [BQuit]"

record bench_thread =
  ops :: "bench_op list"
  threadClient :: sync_client
  lastResponse :: string

record 'p bench_run =
  benchThreads :: "bench_thread list"
  successCount :: int
  failCount :: int
  network :: 'p
  complaints :: string

text \<open>
  One step of a thread; \<open>reach\<close> is the outcome of its \<open>socket\<close> and \<open>connect\<close> calls.  The counters are atomic.  A thread that cannot
  connect counts all its requests as failed and ends; the last step destroys the client.
\<close>

definition bench_act :: "'p sockets \<Rightarrow> int \<times> bool \<Rightarrow> string \<Rightarrow> nat \<Rightarrow> int \<Rightarrow> bench_thread \<Rightarrow> 'p bench_run \<Rightarrow> (bench_thread \<times> 'p bench_run) option" where
  "bench_act sys reach connErr t requestsPerClient th s = (case ops th of
     [] \<Rightarrow> Some (th, s)
   | BConnect # rest \<Rightarrow> do {
       (ok, err, c, p) \<leftarrow> sync_connect sys (fst reach) (snd reach) connErr (threadClient th) (network s);
       Some (if ok then (th\<lparr>ops := rest, threadClient := c\<rparr>, s\<lparr>network := p, complaints := complaints s @ err\<rparr>)
             else (th\<lparr>ops := [], threadClient := fst (sync_disconnect sys c p)\<rparr>,
               s\<lparr>network := sync_dtor sys c p, failCount := failCount s + requestsPerClient,
                 complaints := complaints s @ err @ ''Client '' @ to_string (int t) @ '' connect failed!'' @ [LF]\<rparr>)) }
   | BCommand cmd # rest \<Rightarrow> do {
       (ok, resp, p) \<leftarrow> sync_sendCommand sys cmd (lastResponse th) (threadClient th) (network s);
       Some (th\<lparr>ops := rest, lastResponse := resp\<rparr>,
         if ok then s\<lparr>network := p, successCount := successCount s + 1\<rparr> else s\<lparr>network := p, failCount := failCount s + 1\<rparr>) }
   | BQuit # rest \<Rightarrow> do {
       (ok, resp, p) \<leftarrow> sync_sendCommand sys ''QUIT'' (lastResponse th) (threadClient th) (network s);
       Some (th\<lparr>ops := rest, lastResponse := resp, threadClient := fst (sync_disconnect sys (threadClient th) p)\<rparr>,
         s\<lparr>network := sync_dtor sys (threadClient th) p\<rparr>) })"

text \<open>The threads take their steps in the order of \<open>sched\<close>; each has sockets of its own on the common network.\<close>

fun benchRun :: "(nat \<Rightarrow> 'p sockets) \<Rightarrow> (nat \<Rightarrow> int \<times> bool) \<Rightarrow> string \<Rightarrow> int \<Rightarrow> nat list \<Rightarrow> 'p bench_run \<Rightarrow> 'p bench_run option" where
  "benchRun sys reach connErr n [] s = Some s"
| "benchRun sys reach connErr n (t # sched) s =
     (if t < length (benchThreads s) then do {
        (th, s1) \<leftarrow> bench_act (sys t) (reach t) connErr t n (benchThreads s ! t) s;
        benchRun sys reach connErr n sched (s1\<lparr>benchThreads := (benchThreads s1)[t := th]\<rparr>) }
      else benchRun sys reach connErr n sched s)"

definition benchStart :: "string \<Rightarrow> 16 word \<Rightarrow> string \<Rightarrow> int \<Rightarrow> int \<Rightarrow> 'p \<Rightarrow> 'p bench_run" where
  "benchStart hst prt testType numClients requestsPerClient p =
     \<lparr>benchThreads = map (\<lambda>c. \<lparr>ops = benchScript testType (int c) requestsPerClient, threadClient = sync_new hst prt, lastResponse = []\<rparr>)
        [0..<nat numClients], successCount = 0, failCount = 0, network = p, complaints = []\<rparr>"

definition benchRow :: "string \<Rightarrow> int \<Rightarrow> int \<Rightarrow> int \<Rightarrow> double \<Rightarrow> string" where
  "benchRow testType numClients total' failed seconds =
     (let qps = (if 0 < seconds then fp_div (fp_of_int total') seconds else 0) in
      setwLeft 15 testType @ setwRight 8 (to_string numClients) @ '' clients, '' @ setwRight 10 (to_string total') @ '' ops, '' @
      setwRight 6 (to_string failed) @ '' fails, '' @ setwRight 8 (fixedText 3 seconds) @ '' sec, '' @
      setwRight 10 (fixedText 0 qps) @ '' QPS'' @ [LF])"

text \<open>\<open>runBenchmark\<close> returns when every thread has been joined.\<close>

definition runBenchmark :: "(nat \<Rightarrow> 'p sockets) \<Rightarrow> (nat \<Rightarrow> int \<times> bool) \<Rightarrow> string \<Rightarrow> nat list \<Rightarrow> timestamp \<Rightarrow> timestamp \<Rightarrow>
    string \<Rightarrow> 16 word \<Rightarrow> int \<Rightarrow> int \<Rightarrow> string \<Rightarrow> 'p \<Rightarrow> (string \<times> 'p bench_run) option" where
  "runBenchmark sys reach connErr sched start finish hst prt numClients requestsPerClient testType p = do {
     s \<leftarrow> benchRun sys reach connErr requestsPerClient sched (benchStart hst prt testType numClients requestsPerClient p);
     if \<forall>th \<in> set (benchThreads s). ops th = []
     then Some (benchRow testType numClients (successCount s) (failCount s) (timeDifference finish start), s) else None }"

subsection \<open>The program\<close>

record bench_conf =
  benchHost :: string
  benchPort :: "16 word"
  benchClients :: int
  benchRequests :: int

definition bench_default :: bench_conf where
  "bench_default = \<lparr>benchHost = ''127.0.0.1'', benchPort = 6379, benchClients = 10, benchRequests = 1000\<rparr>"

text \<open>The loop over the arguments; Inl asks for the usage.  An option without its value, and any other word, is passed over.\<close>

fun bench_options :: "string list \<Rightarrow> bench_conf \<Rightarrow> unit + bench_conf" where
  "bench_options [] conf = Inr conf"
| "bench_options [a] conf = (if a = ''--help'' then Inl () else Inr conf)"
| "bench_options (a # b # rest) conf =
     (if a = ''-h'' then bench_options rest (conf\<lparr>benchHost := b\<rparr>)
      else if a = ''-p'' then bench_options rest (conf\<lparr>benchPort := word_of_int (atoi b)\<rparr>)
      else if a = ''-c'' then bench_options rest (conf\<lparr>benchClients := atoi b\<rparr>)
      else if a = ''-n'' then bench_options rest (conf\<lparr>benchRequests := atoi b\<rparr>)
      else if a = ''--help'' then Inl ()
      else bench_options (b # rest) conf)"

definition bench_usage :: "string \<Rightarrow> string" where
  "bench_usage prog = ''Usage: '' @ prog @ '' [options]'' @ [LF] @
     ''Options:'' @ [LF] @
     ''  -h HOST     Server host (default: 127.0.0.1)'' @ [LF] @
     ''  -p PORT     Server port (default: 6379)'' @ [LF] @
     ''  -c NUM      Number of clients (default: 10)'' @ [LF] @
     ''  -n NUM      Requests per client (default: 1000)'' @ [LF]"

definition bench_banner :: "bench_conf \<Rightarrow> string" where
  "bench_banner conf =
     ''========================================'' @ [LF] @
     ''    KVServer Benchmark'' @ [LF] @
     ''========================================'' @ [LF] @
     ''Server:   '' @ benchHost conf @ '':'' @ to_string (uint (benchPort conf)) @ [LF] @
     ''Clients:  '' @ to_string (benchClients conf) @ [LF] @
     ''Requests: '' @ to_string (benchRequests conf) @ '' per client'' @ [LF] @
     ''----------------------------------------'' @ [LF]"

definition bench_main :: "(nat \<Rightarrow> 'p sockets) \<Rightarrow> (nat \<Rightarrow> int \<times> bool) \<Rightarrow> string \<Rightarrow> (nat \<Rightarrow> nat list) \<Rightarrow> (nat \<Rightarrow> timestamp) \<Rightarrow>
    string \<Rightarrow> string list \<Rightarrow> 'p \<Rightarrow> (int \<times> string \<times> 'p) option" where
  "bench_main sys reach connErr scheds clk prog args p =
     (case bench_options args bench_default of
        Inl u \<Rightarrow> Some (0, bench_usage prog, p)
      | Inr conf \<Rightarrow>
          (let go = (\<lambda>k n what p. runBenchmark sys reach connErr (scheds k) (clk (2 * k)) (clk (2 * k + 1))
                       (benchHost conf) (benchPort conf) (benchClients conf) n what p) in do {
             (o1, s1) \<leftarrow> go 0 (benchRequests conf) ''PUT'' p;
             (o2, s2) \<leftarrow> go 1 (benchRequests conf) ''GET'' (network s1);
             (o3, s3) \<leftarrow> go 2 (benchRequests conf sdiv 2) ''MIXED'' (network s2);
             Some (0, bench_banner conf @ o1 @ o2 @ o3 @ ''========================================'' @ [LF], network s3) }))"

subsection \<open>Counting\<close>

definition reached :: "int \<times> bool \<Rightarrow> bool" where
  "reached r \<longleftrightarrow> 0 \<le> fst r \<and> snd r"

fun commandsIn :: "bench_op list \<Rightarrow> int" where
  "commandsIn [] = 0"
| "commandsIn (BCommand cmd # os) = 1 + commandsIn os"
| "commandsIn (BConnect # os) = commandsIn os"
| "commandsIn (BQuit # os) = commandsIn os"

text \<open>What a thread will still add to the two counters.\<close>

fun pendingOps :: "bool \<Rightarrow> int \<Rightarrow> bench_op list \<Rightarrow> int" where
  "pendingOps ok n (BConnect # os) = (if ok then commandsIn os else n)"
| "pendingOps ok n os = commandsIn os"

lemma pendingOps_plain: "BConnect \<notin> set os \<Longrightarrow> pendingOps ok n os = commandsIn os"
  by (cases os rule: commandsIn.cases) auto

lemma bench_act_counts:
  assumes "bench_act sys reach connErr t n th s = Some (th', s')" "BConnect \<notin> set (tl (ops th))"
  shows "successCount s' + failCount s' + pendingOps (reached reach) n (ops th') =
      successCount s + failCount s + pendingOps (reached reach) n (ops th) \<and>
    BConnect \<notin> set (tl (ops th')) \<and> benchThreads s' = benchThreads s"
proof -
  have tl: "BConnect \<notin> set xs \<Longrightarrow> BConnect \<notin> set (tl xs)" for xs by (cases xs) auto
  show ?thesis
  proof (cases "ops th" rule: commandsIn.cases)
    case 1
    with assms show ?thesis by (auto simp: bench_act_def)
  next
    case (2 cmd os)
    with assms tl [of os] show ?thesis
      by (auto simp: bench_act_def pendingOps_plain split: Option.bind_splits if_splits)
  next
    case (3 os)
    with assms tl [of os] show ?thesis
      by (auto simp: bench_act_def pendingOps_plain sync_connect_def reached_def split: Option.bind_splits if_splits)
  next
    case (4 os)
    with assms tl [of os] show ?thesis
      by (auto simp: bench_act_def pendingOps_plain split: Option.bind_splits)
  qed
qed

definition stillDue :: "(nat \<Rightarrow> int \<times> bool) \<Rightarrow> int \<Rightarrow> bench_thread list \<Rightarrow> int" where
  "stillDue reach n ths = (\<Sum>t < length ths. pendingOps (reached (reach t)) n (ops (ths ! t)))"

lemma stillDue_update:
  assumes "t < length ths"
  shows "stillDue reach n (ths[t := th]) =
    stillDue reach n ths - pendingOps (reached (reach t)) n (ops (ths ! t)) + pendingOps (reached (reach t)) n (ops th)"
proof -
  let ?f = "\<lambda>ths t. pendingOps (reached (reach t)) n (ops (ths ! t))"
  have "stillDue reach n xs = ?f xs t + sum (?f xs) ({..<length xs} - {t})" if "t < length xs" for xs
    using that by (simp add: stillDue_def sum.remove)
  moreover have "sum (?f (ths[t := th])) ({..<length ths} - {t}) = sum (?f ths) ({..<length ths} - {t})"
    by (rule sum.cong) auto
  ultimately show ?thesis using assms by simp
qed

lemma benchRun_counts:
  assumes "benchRun sys reach connErr n sched s = Some s'" "\<forall>th \<in> set (benchThreads s). BConnect \<notin> set (tl (ops th))"
  shows "successCount s' + failCount s' + stillDue reach n (benchThreads s') = successCount s + failCount s + stillDue reach n (benchThreads s)"
  using assms
proof (induction sys reach connErr n sched s rule: benchRun.induct)
  case (2 sys reach connErr n t sched s)
  show ?case
  proof (cases "t < length (benchThreads s)")
    case True
    with "2.prems"(1) obtain th s1 where a: "bench_act (sys t) (reach t) connErr t n (benchThreads s ! t) s = Some (th, s1)"
      "benchRun sys reach connErr n sched (s1\<lparr>benchThreads := (benchThreads s1)[t := th]\<rparr>) = Some s'"
      by (auto split: Option.bind_splits)
    have "BConnect \<notin> set (tl (ops (benchThreads s ! t)))" using "2.prems"(2) True by simp
    note c = bench_act_counts [OF a(1) this]
    have "\<forall>th' \<in> set ((benchThreads s)[t := th]). BConnect \<notin> set (tl (ops th'))"
      using "2.prems"(2) c set_update_subset_insert [of "benchThreads s" t th] by blast
    with "2.IH"(1) [OF True a(1) refl a(2)] c stillDue_update [OF True, of reach n th] show ?thesis by simp
  next
    case False
    with "2.IH"(2) [OF False] "2.prems" show ?thesis by simp
  qed
qed simp

lemma commandsIn_map [simp]: "commandsIn (map BCommand cmds @ [BQuit]) = int (length cmds)"
  by (induction cmds) simp_all

text \<open>How many requests a test makes for one of the program's.\<close>

definition perRequest :: "string \<Rightarrow> int" where
  "perRequest testType = (if testType = ''MIXED'' then 2 else if testType = ''PUT'' \<or> testType = ''GET'' then 1 else 0)"

lemma length_benchCommands: "int (length (benchCommands testType c n)) = perRequest testType * max 0 n"
  by (auto simp: benchCommands_def length_concat comp_def Let_def perRequest_def sum_list_triv max_def)

subsection \<open>One connection with the server\<close>

lemma encodeResponse_text: "takeWhile (\<lambda>c. c \<noteq> CHR 0x00) (encodeResponse r) \<noteq> []" "encodeResponse r \<noteq> []"
  by (simp_all add: encodeResponse_def split: StatusCode.split)

lemma simple_exchange:
  assumes s: "idle s" and l: "LF \<notin> set l" "l = [] \<or> last l \<noteq> CR" "length l + 1 \<le> kExtraBuf"
    and sp: "spec_request (parseLine l Request_default) (kv_map (srvStore s)) = (m, resp)"
    and nq: "command (parseLine l Request_default) \<noteq> kQuit"
    and fits: "length (encodeResponse resp) \<le> 4095"
  shows "\<exists>s'. simple_command session_sys l s = Some (True, s') \<and> idle s' \<and> kv_map (srvStore s') = m"
proof -
  have line: "lineText l = l" using l(2) by (auto simp: lineText_def popCR_def)
  have "serve (l @ LF # []) (kv_map (srvStore s)) = ([], m, [sendResponse resp])"
    using serve_line [of l "kv_map (srvStore s)" m resp "[]"] l(1) sp nq by (simp add: request_of_def line serve_stop)
  moreover have "length (l @ [LF]) \<le> kExtraBuf" using l(3) by simp
  ultimately obtain b st where r: "receive (l @ [LF]) (inBuf s, srvStore s) = Some (b, st, [sendResponse resp])"
    "buf_inv b" "kv_inv st" "content b = []" "kv_map st = m"
    using receive_spec [of "inBuf s" "srvStore s" "l @ [LF]"] s by (auto simp: idle_def)
  have "idle (s\<lparr>inBuf := b, srvStore := st, toClient := []\<rparr>)" using r by (simp add: idle_def)
  with r s fits encodeResponse_text [of resp] show ?thesis
    by (intro exI [of _ "s\<lparr>inBuf := b, srvStore := st, toClient := []\<rparr>"])
      (simp add: simple_command_def simple_send_def simple_recv_def session_sys_def session_send_def session_recv_def idle_def
        sendResponse_def)
qed

definition simpleKey :: "nat \<Rightarrow> string" where
  "simpleKey i = ''key'' @ to_string (int i)"

definition simpleValue :: "nat \<Rightarrow> string" where
  "simpleValue i = ''value'' @ to_string (int i)"

lemma simple_wire: "wireKey (simpleKey i)" "wireValue (simpleValue i)" "str_find (simpleKey i) ''PUT'' = None"
  "LF \<notin> set (simpleValue i)" "last (simpleValue i) \<noteq> CR" "last (simpleKey i) \<noteq> CR"
proof -
  have d: "\<not> isspace c \<and> c \<noteq> CR \<and> c \<noteq> LF" if "c \<in> set (digits10 i)" for c
    using digits10_isdigit [OF that] isdigit_not_space [of c] by (auto simp: isdigit_def isspace_def)
  have l: "last (xs @ digits10 i) \<noteq> CR" for xs :: string using d [of "last (digits10 i)"] by simp
  show "wireKey (simpleKey i)" using d by (auto simp: wireKey_def simpleKey_def to_string_def isspace_def)
  show "LF \<notin> set (simpleValue i)" using d by (auto simp: simpleValue_def to_string_def)
  then show "wireValue (simpleValue i)" using l [of "''value''"]
    by (auto simp: wireValue_def simpleValue_def to_string_def isspace_def)
  show "last (simpleValue i) \<noteq> CR" "last (simpleKey i) \<noteq> CR"
    using l [of "''value''"] l [of "''key''"] by (simp_all add: simpleValue_def simpleKey_def to_string_def)
  show "str_find (simpleKey i) ''PUT'' = None" by (simp add: simpleKey_def)
qed

text \<open>The numbers of an \<open>int\<close> have ten digits at most.\<close>

lemma simple_length:
  assumes "i < 2 ^ 31"
  shows "length (simpleKey i) \<le> 13" "length (simpleValue i) \<le> 15"
  using digits10_length [of i 9] assms by (simp_all add: simpleKey_def simpleValue_def to_string_def)

lemma simple_put:
  assumes "idle s" "i < 2 ^ 31"
  shows "\<exists>s'. simple_command session_sys (''PUT '' @ simpleKey i @ '' '' @ simpleValue i) s = Some (True, s') \<and> idle s' \<and>
    kv_map (srvStore s') = (kv_map (srvStore s))(simpleKey i \<mapsto> simpleValue i)"
proof -
  let ?l = "''PUT '' @ simpleKey i @ '' '' @ simpleValue i" and ?m = "kv_map (srvStore s)"
  have p: "parseLine ?l r = r\<lparr>command := kPut, req_key := simpleKey i, req_value := simpleValue i\<rparr>" for r
    by (rule put_line [OF simple_wire(1-3)])
  have k: "simpleKey i \<noteq> []" "simpleValue i \<noteq> []" by (simp_all add: simpleKey_def simpleValue_def)
  have "LF \<notin> set ?l" using simple_wire(4) [of i] wireKey_last [OF simple_wire(1) [of i]] by (auto simp: wireKey_def)
  moreover have "?l = [] \<or> last ?l \<noteq> CR" using simple_wire(5) [of i] k by simp
  moreover have "length ?l + 1 \<le> kExtraBuf" using simple_length [OF assms(2)] by (simp add: kExtraBuf_def)
  moreover have "spec_request (parseLine ?l Request_default) ?m = (?m(simpleKey i \<mapsto> simpleValue i),
      resp_ok (if ?m (simpleKey i) = None then ''CREATED'' else ''UPDATED''))" unfolding p using k by (simp add: spec_request_def Let_def)
  moreover have "command (parseLine ?l Request_default) \<noteq> kQuit" unfolding p by simp
  ultimately show ?thesis by (rule simple_exchange [OF assms(1)]) (simp add: encodeResponse_def resp_ok_def)
qed

lemma simple_get:
  assumes "idle s" "i < 2 ^ 31" "kv_map (srvStore s) (simpleKey i) = Some (simpleValue i)"
  shows "\<exists>s'. simple_command session_sys (''GET '' @ simpleKey i) s = Some (True, s') \<and> idle s' \<and> kv_map (srvStore s') = kv_map (srvStore s)"
proof -
  let ?l = "''GET '' @ simpleKey i"
  have p: "parseLine ?l r = r\<lparr>command := kGet, req_key := simpleKey i\<rparr>" for r
    using key_line [OF simple_wire(1), of "''GET''" kGet i r] by simp
  have k: "simpleKey i \<noteq> []" by (simp add: simpleKey_def)
  have "LF \<notin> set ?l" using wireKey_last [OF simple_wire(1) [of i]] by auto
  moreover have "?l = [] \<or> last ?l \<noteq> CR" using simple_wire(6) [of i] k by simp
  moreover have "length ?l + 1 \<le> kExtraBuf" using simple_length [OF assms(2)] by (simp add: kExtraBuf_def)
  moreover have "spec_request (parseLine ?l Request_default) (kv_map (srvStore s)) = (kv_map (srvStore s), resp_ok (simpleValue i))"
    unfolding p using assms(3) by (simp add: spec_request_def Let_def)
  moreover have "command (parseLine ?l Request_default) \<noteq> kQuit" unfolding p by simp
  moreover have "length (encodeResponse (resp_ok (simpleValue i))) \<le> 4095"
    using simple_length [OF assms(2)] by (simp add: encodeResponse_def resp_ok_def)
  ultimately show ?thesis by (rule simple_exchange [OF assms(1)])
qed

lemma simpleKey_inj: "simpleKey i = simpleKey j \<longleftrightarrow> i = j"
  using digits10_inj [of i j] by (auto simp: simpleKey_def to_string_def)

lemma simple_put_loop:
  assumes "idle s" "a + n \<le> 2 ^ 31"
  shows "\<exists>s'. simpleLoop session_sys (map (\<lambda>i. ''PUT '' @ simpleKey i @ '' '' @ simpleValue i) [a..<a + n]) s = Some (n, s') \<and> idle s' \<and>
    kv_map (srvStore s') = kv_map (srvStore s) ++ map_of (map (\<lambda>i. (simpleKey i, simpleValue i)) [a..<a + n])"
  using assms
proof (induction n arbitrary: a s)
  case (Suc n)
  have up: "[a..<a + Suc n] = a # [Suc a..<Suc a + n]" by (simp add: upt_rec)
  have "a < 2 ^ 31" using Suc.prems(2) by simp
  from simple_put [OF Suc.prems(1) this] obtain s1 where s1: "simple_command session_sys (''PUT '' @ simpleKey a @ '' '' @ simpleValue a) s =
      Some (True, s1)" "idle s1" "kv_map (srvStore s1) = (kv_map (srvStore s))(simpleKey a \<mapsto> simpleValue a)" by blast
  have "Suc a + n \<le> 2 ^ 31" using Suc.prems(2) by simp
  from Suc.IH [OF s1(2) this] obtain s2 where
    s2: "simpleLoop session_sys (map (\<lambda>i. ''PUT '' @ simpleKey i @ '' '' @ simpleValue i) [Suc a..<Suc a + n]) s1 = Some (n, s2)" "idle s2"
      "kv_map (srvStore s2) = kv_map (srvStore s1) ++ map_of (map (\<lambda>i. (simpleKey i, simpleValue i)) [Suc a..<Suc a + n])" by blast
  have "simpleKey a \<notin> fst ` set (map (\<lambda>i. (simpleKey i, simpleValue i)) [Suc a..<Suc a + n])"
    by (auto simp: simpleKey_inj)
  then have "map_of (map (\<lambda>i. (simpleKey i, simpleValue i)) [Suc a..<Suc a + n]) (simpleKey a) = None" by (simp add: map_of_eq_None_iff)
  then have "kv_map (srvStore s2) = kv_map (srvStore s) ++ map_of (map (\<lambda>i. (simpleKey i, simpleValue i)) [a..<a + Suc n])"
    unfolding s2(3) s1(3) up by (auto simp: map_add_def fun_eq_iff split: option.split)
  moreover have "simpleLoop session_sys (map (\<lambda>i. ''PUT '' @ simpleKey i @ '' '' @ simpleValue i) [a..<a + Suc n]) s = Some (Suc n, s2)"
    unfolding up list.map simpleLoop.simps s1(1) using s2(1) by simp
  ultimately show ?case using s2(2) by blast
qed simp

lemma simple_get_loop:
  assumes "idle s" "\<forall>i \<in> set is. i < 2 ^ 31 \<and> kv_map (srvStore s) (simpleKey i) = Some (simpleValue i)"
  shows "\<exists>s'. simpleLoop session_sys (map (\<lambda>i. ''GET '' @ simpleKey i) is) s = Some (length is, s') \<and> idle s' \<and>
    kv_map (srvStore s') = kv_map (srvStore s)"
  using assms
proof (induction "is" arbitrary: s)
  case (Cons i "is")
  then obtain s1 where s1: "simple_command session_sys (''GET '' @ simpleKey i) s = Some (True, s1)" "idle s1"
    "kv_map (srvStore s1) = kv_map (srvStore s)" using simple_get [OF Cons.prems(1), of i] by auto
  have "\<forall>j \<in> set is. j < 2 ^ 31 \<and> kv_map (srvStore s1) (simpleKey j) = Some (simpleValue j)" using Cons.prems(2) s1(3) by simp
  from Cons.IH [OF s1(2) this] obtain s2 where
    s2: "simpleLoop session_sys (map (\<lambda>i. ''GET '' @ simpleKey i) is) s1 = Some (length is, s2)" "idle s2"
      "kv_map (srvStore s2) = kv_map (srvStore s1)" by blast
  have "simpleLoop session_sys (map (\<lambda>i. ''GET '' @ simpleKey i) (i # is)) s = Some (length (i # is), s2)"
    unfolding list.map simpleLoop.simps s1(1) using s2(1) by simp
  with s2(2,3) s1(3) show ?case by auto
qed simp

lemma simple_open_welcome:
  assumes "kv_inv st" "0 \<le> fd" "CHR 0x00 \<in> set (drop (length welcomeText) junk)"
  shows "\<exists>rest s. simple_open session_sys fd True junk (session_open st) = Some (fd, ''Connected! Welcome: '' @ welcomeText @ rest, s) \<and>
    idle s \<and> kv_map (srvStore s) = kv_map st"
proof -
  have w: "length welcomeText \<le> 256" "\<forall>c \<in> set welcomeText. c \<noteq> CHR 0x00" by (simp_all add: welcomeText_def)
  let ?s = "(session_open st)\<lparr>toClient := []\<rparr>"
  have "session_recv 256 (session_open st) = Some (Inr welcomeText, ?s)"
    using w(1) by (simp add: session_recv_def session_open_def onConnection_def)
  moreover have "takeWhile (\<lambda>c. c \<noteq> CHR 0x00) (welcomeText @ drop (length welcomeText) junk) =
      welcomeText @ takeWhile (\<lambda>c. c \<noteq> CHR 0x00) (drop (length welcomeText) junk)"
    using w(2) by (simp add: takeWhile_append2)
  moreover have "idle ?s" using assms(1) by (simp add: idle_def session_open_def buf_new_inv)
  ultimately show ?thesis using assms(2,3)
    by (intro exI [of _ "takeWhile (\<lambda>c. c \<noteq> CHR 0x00) (drop (length welcomeText) junk)"] exI [of _ ?s])
      (simp add: simple_open_def session_sys_def cString_def session_open_def)
qed

subsection \<open>Properties\<close>

text \<open>
  The counters of a run of many clients, for any interleaving of their threads and any behaviour of the network: when all threads
  have been joined, every request of a client that was connected has been counted once, as a success or as a failure (a mixed request
  is two), and a client that could not connect has counted the number of its passes.
\<close>

lemma bench_counts:
  assumes "runBenchmark sys reach connErr sched start finish hst prt numClients n testType p = Some (out, s)"
  shows "successCount s + failCount s = (\<Sum>t < nat numClients. if reached (reach t) then perRequest testType * max 0 n else n)"
proof -
  let ?s0 = "benchStart hst prt testType numClients n p"
  from assms have run: "benchRun sys reach connErr n sched ?s0 = Some s" and fin: "\<forall>th \<in> set (benchThreads s). ops th = []"
    by (auto simp: runBenchmark_def split: Option.bind_splits if_splits)
  have "\<forall>th \<in> set (benchThreads ?s0). BConnect \<notin> set (tl (ops th))" by (auto simp: benchStart_def benchScript_def)
  from benchRun_counts [OF run this] have "successCount s + failCount s + stillDue reach n (benchThreads s) = stillDue reach n (benchThreads ?s0)"
    by (simp add: benchStart_def)
  moreover have "stillDue reach n (benchThreads s) = 0" using fin by (simp add: stillDue_def)
  moreover have "stillDue reach n (benchThreads ?s0) = (\<Sum>t < nat numClients. if reached (reach t) then perRequest testType * max 0 n else n)"
    unfolding stillDue_def by (rule sum.cong) (simp_all add: benchStart_def benchScript_def length_benchCommands)
  ultimately show ?thesis by simp
qed

text \<open>
  The benchmark with one connection measures this server: it reads the welcome line when it connects, all its PUTs succeed and store
  their pairs, and all its GETs succeed; and the program then runs to its end exactly when both times give a rate that is an
  \<open>int\<close>, so not when the clock stands still.
\<close>

lemma simple_bench_serves:
  assumes st: "kv_inv st" and fd: "0 \<le> fd" and junk: "CHR 0x00 \<in> set (drop (length welcomeText) junk)"
    and args: "(if 0 < length args then atoi (args ! 0) else 1000) = count" and n: "count < 2 ^ 31"
  shows "\<exists>o1 s1 s2 s3. simple_open session_sys fd True junk (session_open st) = Some (fd, o1, s1) \<and>
    simpleLoop session_sys (simplePuts count) s1 = Some (nat count, s2) \<and>
    kv_map (srvStore s2) = kv_map st ++ map_of (map (\<lambda>i. (simpleKey i, simpleValue i)) [0..<nat count]) \<and>
    simpleLoop session_sys (simpleGets count) s2 = Some (nat count, s3) \<and> kv_map (srvStore s3) = kv_map (srvStore s2) \<and>
    ((\<exists>out s. simple_main session_sys fd True junk clk args (session_open st) = Some (0, out, s)) \<longleftrightarrow>
       intRate (max 0 count) (timeDifference (clk 1) (clk 0)) \<noteq> None \<and> intRate (max 0 count) (timeDifference (clk 3) (clk 2)) \<noteq> None)"
proof -
  obtain rest s1 where o: "simple_open session_sys fd True junk (session_open st) = Some (fd, ''Connected! Welcome: '' @ welcomeText @ rest, s1)"
    "idle s1" "kv_map (srvStore s1) = kv_map st" using simple_open_welcome [OF st fd junk] by blast
  have puts: "simplePuts count = map (\<lambda>i. ''PUT '' @ simpleKey i @ '' '' @ simpleValue i) [0..<nat count]"
    by (simp add: simplePuts_def simpleKey_def simpleValue_def)
  have gets: "simpleGets count = map (\<lambda>i. ''GET '' @ simpleKey i) [0..<nat count]" by (simp add: simpleGets_def simpleKey_def)
  have c: "0 + nat count \<le> 2 ^ 31" using n by simp
  from simple_put_loop [OF o(2) c] o(3) obtain s2 where p: "simpleLoop session_sys (simplePuts count) s1 = Some (nat count, s2)" "idle s2"
    "kv_map (srvStore s2) = kv_map st ++ map_of (map (\<lambda>i. (simpleKey i, simpleValue i)) [0..<nat count])" by (auto simp: puts)
  have "kv_map (srvStore s2) (simpleKey i) = Some (simpleValue i)" if "i < nat count" for i
  proof -
    have "distinct (map fst (map (\<lambda>i. (simpleKey i, simpleValue i)) [0..<nat count]))"
      by (simp add: comp_def distinct_map inj_on_def simpleKey_inj)
    moreover have "(simpleKey i, simpleValue i) \<in> set (map (\<lambda>i. (simpleKey i, simpleValue i)) [0..<nat count])" using that by auto
    ultimately show ?thesis unfolding p(3) by (intro map_add_find_right map_of_is_SomeI)
  qed
  then have "\<forall>i \<in> set [0..<nat count]. i < 2 ^ 31 \<and> kv_map (srvStore s2) (simpleKey i) = Some (simpleValue i)" using c by auto
  from simple_get_loop [OF p(2) this] obtain s3 where g: "simpleLoop session_sys (simpleGets count) s2 = Some (nat count, s3)"
    "kv_map (srvStore s3) = kv_map (srvStore s2)" by (auto simp: gets)
  have i: "int (nat count) = max 0 count" by simp
  have "(\<exists>out s. simple_main session_sys fd True junk clk args (session_open st) = Some (0, out, s)) \<longleftrightarrow>
       intRate (max 0 count) (timeDifference (clk 1) (clk 0)) \<noteq> None \<and> intRate (max 0 count) (timeDifference (clk 3) (clk 2)) \<noteq> None"
    unfolding simple_main_def args Let_def
    using fd by (simp add: o(1) p(1) g(1) simple_isConnected_def simpleLine_def i split: Option.bind_split)
  with o p g show ?thesis by blast
qed

end
