(* ===== verification/Spec2Isabelle.thy ===== *)
theory Spec2Isabelle
  imports Echo_Server Client_Main Concurrent_Service Request_Types Reactor Monitor Socket_Wrapper Logging Time_Format Loop_Thread
    Server_Exit_Properties List_Bench Net_Bench
begin

text \<open>
  A verification library for ReactorKV: a key-value server on a skip list, with its line protocol, its
  reactor network library and its client.  Paths below are relative to \<open>src/\<close> of the repository.

  \<^bold>\<open>How the program works.\<close>  \<open>TcpServer\<close> accepts connections in the main event loop and deals them to the
  loops of a thread pool.  A loop waits in \<open>poll\<close>, dispatches the events of its channels and runs the
  functors other threads have queued.  A connection reads into its input buffer and calls the message
  callback of \<open>KVServer\<close>, which takes requests off the buffer line by line (\<open>Codec\<close>), executes them on
  \<open>KVStore\<close>, a skip list of strings, and sends the encoded response through the connection's output
  buffer.  The store is written to a text file at exit and read at start.  \<open>KVClient\<close> speaks the same
  protocol over a blocking socket.

  \<^bold>\<open>Theories and code.\<close>
  \<^item> \<open>Prelude\<close>: characters, decimal numbers, string search, unsigned subtraction, lemmas on lists.
  \<^item> \<open>Skip_List\<close> (\<open>src/storage/skiplist.h\<close>): nodes on a heap of addresses with their forward pointers, the
    update vector, and every operation as the code performs it; a missing node is None, so that a
    result Some is a proof that no null pointer is followed.  \<open>Skip_List_Shape\<close> has the invariant (each
    level is the chain of the nodes of at least that level, sorted) and what each loop does to it;
    \<open>Skip_List_Correct\<close> the operations and their refinement of a sorted association list.
  \<^item> \<open>Ordered_Map\<close>: the contract \<open>ordered_map\<close> between the list and the store, interpreted by the list.
  \<^item> \<open>Persistence\<close> (\<open>dumpFile\<close>, \<open>loadFile\<close>, \<open>displayList\<close>) on a file system with failing files and a device
    that may be full; \<open>KV_Store\<close> (\<open>src/storage/kvstore.cpp\<close>) with its contract \<open>kv_engine\<close>.
  \<^item> \<open>Net_Buffer\<close> (\<open>src/net/buffer.h\<close>, \<open>buffer.cpp\<close>): the byte vector and its two indices.
  \<^item> \<open>Message\<close>, \<open>Codec\<close> (\<open>src/protocol\<close>): commands, requests, responses, framing, parsing, encoding.
  \<^item> \<open>KV_Server\<close> (\<open>src/server\<close>): request execution, the message loop, the data file around \<open>main\<close>;
    \<open>spec_request\<close> and \<open>serve\<close> are its specification on a finite map and a byte stream.
  \<^item> \<open>KV_Client\<close> (\<open>client/kvclient.cpp\<close>): the client over a record of socket calls, which is also
    given as a session with the server's model.
  \<^item> \<open>Channel_Poller\<close> (\<open>src/net/channel.cpp\<close>, \<open>epoll_poller.cpp\<close>): registration states and dispatch, under
    the contract \<open>epoll_kernel\<close> of \<open>epoll_ctl\<close>, interpreted by an interest list.
  \<^item> \<open>Tcp_Connection\<close> (\<open>src/net/tcp_connection.cpp\<close>): one connection with its channel and buffers; the
    results of system calls are events, what it hands to the loop are effects in order.
  \<^item> \<open>Event_Loop\<close> (\<open>src/net/eventloop.cpp\<close>) and \<open>Loop_Thread\<close> (\<open>eventloop_thread.cpp\<close>, \<open>src/base/thread.cpp\<close>):
    step relations that interleave the loop's thread with others.
  \<^item> \<open>Inet_Address\<close>, \<open>Tcp_Server\<close> (\<open>inet_address.cpp\<close>, \<open>tcp_server.cpp\<close>, \<open>acceptor.cpp\<close>,
    \<open>eventloop_thread_pool.cpp\<close>): addresses, and accepting, naming, dealing and removing connections.
  \<^item> \<open>Sync\<close> and \<open>Base_Util\<close> (\<open>src/base\<close>): blocking queues, latch, thread pool with its workers, mutex holder; time
    stamps, thread ids, log lines and the deadline of a timed wait.  \<open>Time_Format\<close> (\<open>timestamp.cpp\<close>): the
    calendar text of a time stamp.  \<open>Time_Arith\<close> (\<open>timestamp.h\<close>): time differences in seconds, on doubles with their
    rounding.  \<open>Logging\<close> (\<open>logger.h\<close>, \<open>logger.cpp\<close>): levels, the two sinks and the statements that write to them.
    \<open>Monitor\<close> (\<open>mutex.h\<close>): mutex and condition as steps of any number of threads.
  \<^item> \<open>Socket_Wrapper\<close> (\<open>src/net/socket.cpp\<close>): creation, binding, options and the listening socket.
  \<^item> \<open>Reactor\<close> (\<open>eventloop.cpp\<close>): the loop with its poller, its channels and its thread, round by round, refining
    the steps of \<open>Event_Loop\<close>.
  \<^item> \<open>Connection_Service\<close>: the callbacks of \<open>KVServer\<close> (\<open>kv_server.cpp\<close>) run by the handlers of a
    \<open>Tcp_Connection\<close>; \<open>Concurrent_Service\<close>: the message callbacks of many connections, interleaved between the passes
    of their loops; \<open>Request_Types\<close>: the well-formedness of what comes off the network.
  \<^item> \<open>Live_Server\<close>: the running server as a whole, from \<open>TcpServer::newConnection\<close> over the tasks handed to the loops and
    the handlers of every connection to \<open>connectDestroyed\<close>, with the callbacks of \<open>KVServer\<close> on one store;
    \<open>Live_Server_Frames\<close> and \<open>Live_Server_Steps\<close> have what one handler does and leaves alone, \<open>Live_Server_Inv\<close> and
    \<open>Live_Server_Correct\<close> the invariant, and \<open>Live_Server_Properties\<close> the properties.
  \<^item> \<open>Server_Main\<close> (\<open>src/server/main.cpp\<close>) and \<open>Client_Main\<close> (\<open>client/main.cpp\<close>): the two programs from their
    options to their exit; \<open>Echo_Server\<close> (\<open>examples/echo_server.cpp\<close>): the example.
  \<^item> \<open>Server_Exit\<close>: the end of the running server, \<open>main\<close> of \<open>src/server/main.cpp\<close> after its loop with the destructors of
    \<open>KVServer\<close>, \<open>KVStore\<close>, \<open>TcpServer\<close> and the threads of its pool, among the loops that still run;
    \<open>Server_Exit_Correct\<close> has the invariant of that, \<open>Server_Exit_Properties\<close> the properties.
  \<^item> \<open>Bench_Format\<close>, \<open>List_Bench\<close> and \<open>Net_Bench\<close> (\<open>benchmarks\<close>): the text of the numbers that are printed, the benchmark
    of the list, and the two benchmarks of the server.

  \<^bold>\<open>What is shown.\<close>  The skip list, for every outcome of its random levels, returns from every operation and
  answers as a sorted list of pairs does; dump and load are inverse on pairs without a colon in the key.
  The store and the request handler refine a finite map; the message loop terminates and does what serving
  the byte stream line by line does, however the stream is cut into reads; client calls return the truth
  about the server's map.  A connection neither loses nor reorders output under any partial writes, closes
  after its output, and is silent once closed, and the same holds with the server's callbacks on it: the bytes that
  leave are the welcome line and the responses of the specification.  Callbacks of many connections that interleave
  have one order of all requests that explains every reply.  In the running server, whatever the order of arrivals, handlers
  and tasks, serving the segments in the order of their arrival on a finite map explains all that the clients are sent; every
  connection is established, closed and destroyed once, in this order, is destroyed exactly when nothing refers to it, and
  what is underway comes to an end.  When it is stopped, the data file is the dump of what a prefix of the segments gives, and
  \<open>main\<close> can always go on to its end, unless a worker has used the destroyed store; without workers every connection of the map
  is then destroyed.  The poller and the channels agree under any sequence of
  changes; the loop loses no functor and no wakeup under any interleaving, its rounds are runs of those steps, and a
  thread has one loop at most; the monitor excludes around waits; the server's connection map holds
  exactly the open connections, dealt evenly to the loops.  The server program starts and saves as its options say, the
  client program returns for every input, and a script typed into it prints what a finite map answers.  Log lines reach
  the terminal in their order, and a time difference that is added back is a microsecond short at most.  The benchmarks find
  every key they have put, whatever the order of their threads, and count every request of a connected client once.  The
  theorem of this file joins service, storage and restart.  Several theorems pin down behaviour that may surprise: a key that occurs in its own command
  word, a colon in a key, a QUIT with bytes behind it, the unread welcome line of the client,
  single reads and accepts under edge triggering, three races of \<open>EventLoopThread\<close>, and two of the server's end: a request
  answered after the last save, and one on the destroyed store.

  \<^bold>\<open>Bounds and termination.\<close>  No fuel is used: the walks along the forward pointers are partial
  functions whose value is None when they follow a null pointer or do not return, and the results Some are
  proved from the invariant; the message loop ends by the bytes of the buffer, parsing loops by the length of
  the text, the loop of the client by its input.  Random draws are a stream that is part of the list's
  state.  Sizes that the code keeps in \<open>size_t\<close> are natural numbers with the subtraction of \<open>size_t\<close> written
  out (\<open>size_sub\<close>); counters of type \<open>int\<close> are integers, with the bound stated where it matters.

  \<^bold>\<open>What is not modelled.\<close>  Log output on the way, the parsing of the command line by \<open>getopt_long\<close> (its results are
  arguments), host name lookup, infinities of doubles except in the rates that the benchmarks print, reference counting apart
  from the lifetime of connections in \<open>Live_Server\<close>, and the destruction of the acceptor and of the main loop after the
  threads of the pool have been joined.  A handler is one step in \<open>Live_Server\<close> and \<open>Server_Exit\<close>, and operations under one
  mutex are atomic steps except in \<open>Monitor\<close>; the memory model below that is not modelled.  Declarations of classes and
  prototypes have no definitions of their own.
\<close>

section \<open>Service and storage together\<close>

text \<open>Whatever a file holds, the pairs read from it can be written and read back.\<close>

lemma str_find_before: "str_find [c] s = Some n \<Longrightarrow> c \<notin> set (take n s)"
proof (induction s arbitrary: n)
  case (Cons x s)
  then show ?case by (auto split: if_splits)
qed simp

lemma parseString_storable:
  assumes "parseString line = Some kv" "LF \<notin> set line"
  shows "storable kv"
proof -
  from assms(1) obtain n where n: "str_find [kDelimiter] line = Some n" "kv = (take n line, drop (n + 1) line)" "take n line \<noteq> []"
    by (auto simp: parseString_def Let_def split: if_splits option.splits)
  with str_find_before [OF n(1)] assms(2) show ?thesis
    by (auto simp: storable_def dest: in_set_takeD in_set_dropD)
qed

lemma readPairs_storable: "kv \<in> set (readPairs s) \<Longrightarrow> storable kv"
proof (induction s rule: readPairs.induct)
  case (1 s)
  show ?case
  proof (cases "getline s")
    case None
    with "1.prems" show ?thesis by (simp add: readPairs.simps [of s])
  next
    case (Some lr)
    obtain line rest where lr: "lr = (line, rest)" by (cases lr)
    have "line = takeWhile (\<lambda>c. c \<noteq> LF) s" using Some lr by (simp add: getline_def split: if_splits)
    then have "LF \<notin> set line" by (auto dest: set_takeWhileD)
    with "1.prems" "1.IH" [OF Some lr [symmetric]] parseString_storable [of line] Some lr show ?thesis
      by (subst (asm) readPairs.simps) (auto split: option.splits)
  qed
qed

lemma main_start_storable:
  assumes "file \<noteq> []" "main_start m r file fs = Some sv"
  shows "kv_inv (store_of sv) \<and> allStorable (kv_map (store_of sv))"
proof -
  obtain sv' where "main_start m r file fs = Some sv'" "kv_inv (store_of sv')"
    "kv_map (store_of sv') = (case fileText fs file of None \<Rightarrow> Map.empty | Some body \<Rightarrow> map_of (rev (readPairs body)))"
    using main_start_inv [OF assms(1), of m r fs] by blast
  with assms(2) readPairs_storable show ?thesis
    by (fastforce simp: allStorable_def split: option.splits dest: map_of_SomeD)
qed



end
